(* ===== verification/Prelude.thy ===== *)
theory Prelude
  imports Main "HOL-Library.Word"
begin

text \<open>
  What the components share: the machine integers of the C++ sources, the
  interleaving of threads over atomic steps, runs of labelled steps with the
  rule that carries an invariant along them, and the few facts on lists and
  words that the component proofs need.

  Threads are interleaved at the granularity of single atomic operations
  (\<^verbatim>\<open>load\<close>, \<^verbatim>\<open>fetch_add\<close>, one \<^verbatim>\<open>compare_exchange_weak\<close>). A schedule is a
  list that names the thread to move and resolves what the language leaves
  open (here: whether a weak compare-exchange fails spuriously). Each step
  may emit events; a run returns the final state and the events in order.
\<close>

section \<open>Machine integers\<close>

type_synonym u64 = "64 word"
type_synonym u32 = "32 word"
type_synonym size_t = "64 word"
type_synonym c_int = "32 word"

definition u64_max :: u64 where
  "u64_max = - 1"

lemma unat_bound: "unat (v :: 'a :: len word) < 2 ^ LENGTH('a)"
  by (fact unsigned_less)

lemma unat_u64_max [simp]: "unat u64_max = 2 ^ 64 - 1"
  by (simp add: u64_max_def unsigned_minus_1_eq_mask mask_eq_exp_minus_1)

lemma unat_plus_one_less: "v < (w :: 'a :: len word) \<Longrightarrow> unat (v + 1) = unat v + 1"
proof -
  assume "v < w"
  then have "unat v + 1 < 2 ^ LENGTH('a)"
    using unat_bound [of w] by (metis Suc_eq_plus1 Suc_leI order_le_less_trans word_less_nat_alt)
  then show ?thesis
    by (simp add: unat_word_ariths)
qed

lemma unat_minus_one_pos: "unat (v :: 'a :: len word) > 0 \<Longrightarrow> unat (v - 1) = unat v - 1"
  by (rule unat_minus_one) auto

lemma unat_plus_one_not_max: "v \<noteq> u64_max \<Longrightarrow> unat (v + 1) = unat v + 1"
  by (rule unat_plus_one_less [of v u64_max])
     (simp add: u64_max_def word_order.not_eq_extremum)

lemma unat_not_max: "v \<noteq> u64_max \<Longrightarrow> unat v < 2 ^ 64 - 1"
  using unat_plus_one_not_max [of v] unat_bound [of "v + 1"] by simp

text \<open>Signed 32-bit readings.\<close>

lemma uint_int_unat: "uint v = int (unat v)"
  by simp

lemma sint_small:
  assumes "unat (v :: c_int) < 2 ^ 31"
  shows "sint v = int (unat v)"
proof -
  have "unat v < 2147483648"
    using assms by simp
  then have "uint v < 2147483648"
    using uint_int_unat [of v] by linarith
  then have "signed_take_bit 31 (uint v) = uint v"
    by (intro signed_take_bit_int_eq_self) (auto intro: order_trans [OF _ unsigned_greater_eq])
  then show ?thesis by (simp add: sint_uint)
qed

lemma sint_shift: "sint (v :: c_int) = (uint v + 2147483648) mod 4294967296 - 2147483648"
  by (simp add: sint_uint signed_take_bit_eq_take_bit_shift take_bit_eq_mod)

lemma sint_pos_unat:
  assumes "0 < sint (v :: c_int)"
  shows "unat v < 2 ^ 31"
proof (rule ccontr)
  assume "\<not> unat v < 2 ^ 31"
  then have "2147483648 \<le> unat v"
    by simp
  then have lo: "2147483648 \<le> uint v"
    using uint_int_unat [of v] by linarith
  have hi: "uint v < 4294967296"
    using uint_bounded [of v] by simp
  have "(uint v + 2147483648) mod 4294967296 = (uint v + 2147483648 - 4294967296) mod 4294967296"
    by (rule mod_pos_geq) (use lo in simp_all)
  also have "\<dots> = uint v - 2147483648"
    by (subst mod_pos_pos_trivial) (use lo hi in simp_all)
  finally show False
    using assms hi by (simp add: sint_shift)
qed

text \<open>One \<^verbatim>\<open>compare_exchange_weak\<close>: whether it stored, the memory cell after it and
  the \<^verbatim>\<open>expected\<close> variable after it. The first argument is the scheduler's choice
  of a spurious failure.\<close>

definition cas_weak :: "bool \<Rightarrow> 'a \<Rightarrow> 'a \<Rightarrow> 'a \<Rightarrow> bool \<times> 'a \<times> 'a" where
  "cas_weak spurious cell expected desired =
     (if \<not> spurious \<and> cell = expected then (True, desired, expected)
      else (False, cell, cell))"

section \<open>Errors and exceptions\<close>

text \<open>The error numbers the sources name, any other one as \<open>Errno\<close>, and the category
  an \<^verbatim>\<open>asio::error_code\<close> carries. Success is \<open>None\<close> where an operation returns an
  \<^verbatim>\<open>error_code option\<close>.\<close>

datatype errno = EMFILE | ENFILE | ENOBUFS | ENOMEM | EINTR | EAGAIN | EWOULDBLOCK
  | ECONNABORTED | ECONNRESET | EPROTO | ENETDOWN | ENETUNREACH | EHOSTDOWN | EHOSTUNREACH
  | EOPNOTSUPP | ENOPROTOOPT | ENONET | EINVAL | ECANCELED | EADDRINUSE | EBADF | Errno int

datatype category = System_category | Other_category nat

record error_code =
  ec_value :: errno
  ec_category :: category

definition system_error :: "errno \<Rightarrow> error_code" where
  "system_error e = \<lparr>ec_value = e, ec_category = System_category\<rparr>"

lemma system_error_sel [simp]:
  "ec_value (system_error e) = e" "ec_category (system_error e) = System_category"
  by (simp_all add: system_error_def)

lemma system_error_eq_iff:
  "e = system_error n \<longleftrightarrow> ec_value e = n \<and> ec_category e = System_category"
  by (cases e) (simp add: system_error_def)

datatype exn = Invalid_argument string | Logic_error string | Runtime_error string
  | System_error error_code | Bad_alloc | User_exception nat

text \<open>A sequence of calls, with the exception each throws if it fails. The outcome comes with
  the calls made.\<close>

fun perform_calls :: "('c \<Rightarrow> exn option) \<Rightarrow> 'c list \<Rightarrow> (exn + unit) \<times> 'c list" where
  "perform_calls fails [] = (Inr (), [])"
| "perform_calls fails (c # cs) =
     (case fails c of
        Some x \<Rightarrow> (Inl x, [c])
      | None \<Rightarrow> (case perform_calls fails cs of (r, ds) \<Rightarrow> (r, c # ds)))"

lemma perform_calls_ok:
  "perform_calls fails cs = (Inr u, ds) \<longleftrightarrow> ds = cs \<and> (\<forall>c \<in> set cs. fails c = None)"
proof (induction cs arbitrary: ds)
  case (Cons c cs)
  then show ?case by (cases "fails c"; cases "perform_calls fails cs") auto
qed auto

lemma perform_calls_some: "cs \<noteq> [] \<Longrightarrow> perform_calls fails cs \<noteq> (r, [])"
  by (cases cs) (auto split: option.splits prod.splits)

section \<open>Counting along a list\<close>

text \<open>A weight summed over the threads, and how it moves when one of them steps.\<close>

definition weight :: "('l \<Rightarrow> nat) \<Rightarrow> 'l list \<Rightarrow> nat" where
  "weight w ls = sum_list (map w ls)"

lemma weight_Nil [simp]: "weight w [] = 0"
  by (simp add: weight_def)

lemma weight_Cons [simp]: "weight w (l # ls) = w l + weight w ls"
  by (simp add: weight_def)

lemma weight_append [simp]: "weight w (ls @ ms) = weight w ls + weight w ms"
  by (simp add: weight_def)

lemma weight_replicate [simp]: "weight w (replicate n l) = n * w l"
  by (induction n) auto

lemma weight_update:
  "i < length ls \<Longrightarrow> weight w (ls[i := l]) + w (ls ! i) = weight w ls + w l"
proof (induction ls arbitrary: i)
  case Nil
  then show ?case by simp
next
  case (Cons a ls)
  then show ?case by (cases i) force+
qed

lemma weight_member: "i < length ls \<Longrightarrow> w (ls ! i) \<le> weight w ls"
  using weight_update [of i ls w "ls ! i"] by (simp add: weight_def member_le_sum_list)

lemma weight_split:
  assumes "i < length ls"
  obtains n where "weight w ls = n + w (ls ! i)" and "\<And>l. weight w (ls[i := l]) = n + w l"
proof -
  have le: "w (ls ! i) \<le> weight w ls"
    using assms by (rule weight_member)
  have upd: "weight w (ls[i := l]) = weight w ls - w (ls ! i) + w l" for l
    using weight_update [OF assms, of w l] le by linarith
  show ?thesis
    by (rule that [of "weight w ls - w (ls ! i)"]) (use le upd in auto)
qed

lemma weight_zero_iff: "weight w ls = 0 \<longleftrightarrow> (\<forall>l \<in> set ls. w l = 0)"
  by (simp add: weight_def sum_list_eq_0_iff)

lemma weight_mono: "(\<And>l. l \<in> set ls \<Longrightarrow> w l \<le> w' l) \<Longrightarrow> weight w ls \<le> weight w' ls"
  by (induction ls) (auto intro: add_mono)

lemma weight_cong: "(\<And>l. l \<in> set ls \<Longrightarrow> w l = w' l) \<Longrightarrow> weight w ls = weight w' ls"
  by (induction ls) auto

lemma list_all_update: "list_all P ls \<Longrightarrow> P l \<Longrightarrow> list_all P (ls[i := l])"
  by (auto simp: list_all_iff dest!: set_update_subset_insert [THEN subsetD])

lemma list_all_nthD: "list_all P ls \<Longrightarrow> i < length ls \<Longrightarrow> P (ls ! i)"
  by (simp add: list_all_length)

section \<open>Interleaved threads\<close>

text \<open>\<open>step c s l\<close> is one atomic step of a thread with local state \<open>l\<close> over the
  shared state \<open>s\<close> under the choice \<open>c\<close>.\<close>

fun sched_step :: "('c \<Rightarrow> 's \<Rightarrow> 'l \<Rightarrow> 's \<times> 'l \<times> 'e list) \<Rightarrow> nat \<times> 'c \<Rightarrow>
    's \<times> 'l list \<Rightarrow> 's \<times> 'l list \<times> 'e list" where
  "sched_step step (i, c) (s, ls) =
     (if i < length ls
      then (case step c s (ls ! i) of (s', l', es) \<Rightarrow> (s', ls[i := l'], es))
      else (s, ls, []))"

fun run :: "('c \<Rightarrow> 's \<Rightarrow> 'l \<Rightarrow> 's \<times> 'l \<times> 'e list) \<Rightarrow> (nat \<times> 'c) list \<Rightarrow>
    's \<times> 'l list \<Rightarrow> 's \<times> 'l list \<times> 'e list" where
  "run step [] (s, ls) = (s, ls, [])"
| "run step (x # xs) (s, ls) =
     (case sched_step step x (s, ls) of (s', ls', es) \<Rightarrow>
        (case run step xs (s', ls') of (s'', ls'', fs) \<Rightarrow> (s'', ls'', es @ fs)))"

lemma run_append:
  "run step (xs @ ys) (s, ls) =
     (case run step xs (s, ls) of (s', ls', es) \<Rightarrow>
        (case run step ys (s', ls') of (s'', ls'', fs) \<Rightarrow> (s'', ls'', es @ fs)))"
  by (induction xs arbitrary: s ls) (auto split: prod.splits)

lemma run_length: "run step xs (s, ls) = (s', ls', es) \<Longrightarrow> length ls' = length ls"
  by (induction xs arbitrary: s ls es) (fastforce split: prod.splits if_splits)+

text \<open>One thread running alone.\<close>

fun solo :: "('c \<Rightarrow> 's \<Rightarrow> 'l \<Rightarrow> 's \<times> 'l \<times> 'e list) \<Rightarrow> 'c \<Rightarrow> nat \<Rightarrow> 's \<Rightarrow> 'l \<Rightarrow> 's \<times> 'l \<times> 'e list" where
  "solo step c 0 s l = (s, l, [])"
| "solo step c (Suc k) s l =
     (case step c s l of (s', l', es) \<Rightarrow>
        (case solo step c k s' l' of (s'', l'', fs) \<Rightarrow> (s'', l'', es @ fs)))"

lemma run_solo:
  "i < length ls \<Longrightarrow> run step (replicate k (i, c)) (s, ls) =
     (case solo step c k s (ls ! i) of (s', l', es) \<Rightarrow> (s', ls[i := l'], es))"
  by (induction k arbitrary: s ls) (auto split: prod.splits)

text \<open>An invariant of single steps, over the shared state, the threads and the
  events so far, is an invariant of every run.\<close>

locale interleaved_invariant =
  fixes step :: "'c \<Rightarrow> 's \<Rightarrow> 'l \<Rightarrow> 's \<times> 'l \<times> 'e list"
    and inv :: "'s \<Rightarrow> 'l list \<Rightarrow> 'e list \<Rightarrow> bool"
  assumes step_keeps: "inv s ls es \<Longrightarrow> i < length ls \<Longrightarrow> step c s (ls ! i) = (s', l', fs) \<Longrightarrow>
    inv s' (ls[i := l']) (es @ fs)"
begin

lemma sched_step_keeps:
  assumes "inv s ls es" and "sched_step step x (s, ls) = (s', ls', fs)"
  shows "inv s' ls' (es @ fs)"
proof (cases x)
  case (Pair i c)
  then show ?thesis using assms step_keeps [of s ls es i c]
    by (auto split: if_splits prod.splits)
qed

lemma run_keeps:
  "inv s ls es \<Longrightarrow> run step xs (s, ls) = (s', ls', fs) \<Longrightarrow> inv s' ls' (es @ fs)"
proof (induction xs arbitrary: s ls es s' ls' fs)
  case Nil
  then show ?case by simp
next
  case (Cons x xs)
  obtain t ms gs where x: "sched_step step x (s, ls) = (t, ms, gs)"
    by (rule prod_cases3)
  obtain u ns hs where xs: "run step xs (t, ms) = (u, ns, hs)"
    by (rule prod_cases3)
  have "inv t ms (es @ gs)"
    using Cons.prems(1) x by (rule sched_step_keeps)
  then have "inv u ns ((es @ gs) @ hs)"
    using xs by (rule Cons.IH)
  then show ?case
    using Cons.prems(2) x xs by (simp del: sched_step.simps)
qed

end

text \<open>A thread that gets closer to \<open>final\<close> with every step it takes alone gets there,
  whatever the other threads are.\<close>

locale solo_progress =
  fixes step :: "'c \<Rightarrow> 's \<Rightarrow> 'l \<Rightarrow> 's \<times> 'l \<times> 'e list"
    and c :: 'c
    and distance :: "'s \<Rightarrow> 'l \<Rightarrow> nat"
    and final :: "'l \<Rightarrow> bool"
  assumes closer: "\<not> final l \<Longrightarrow> step c s l = (s', l', es) \<Longrightarrow> distance s' l' < distance s l"
begin

lemma solo_reaches: "\<exists>k \<le> distance s l. case solo step c k s l of (s', l', es) \<Rightarrow> final l'"
proof (induction "distance s l" arbitrary: s l rule: less_induct)
  case less
  show ?case
  proof (cases "final l")
    case True
    then show ?thesis by (intro exI [of _ 0]) simp
  next
    case False
    obtain s' l' es where st: "step c s l = (s', l', es)"
      by (rule prod_cases3)
    have lt: "distance s' l' < distance s l"
      using False st by (rule closer)
    from less [OF this] obtain k where k: "k \<le> distance s' l'"
      and fin: "case solo step c k s' l' of (s'', l'', fs) \<Rightarrow> final l''"
      by (elim exE conjE)
    have "case solo step c (Suc k) s l of (s'', l'', fs) \<Rightarrow> final l''"
      using st fin by (simp split: prod.splits)
    moreover have "Suc k \<le> distance s l"
      using k lt by simp
    ultimately show ?thesis by (intro exI conjI)
  qed
qed

lemma run_reaches:
  assumes "i < length ls"
  shows "\<exists>k \<le> distance s (ls ! i). case run step (replicate k (i, c)) (s, ls) of
    (s', ls', es) \<Rightarrow> final (ls' ! i)"
proof -
  obtain k where k: "k \<le> distance s (ls ! i)"
    and fin: "case solo step c k s (ls ! i) of (s', l', es) \<Rightarrow> final l'"
    using solo_reaches [of s "ls ! i"] by (elim exE conjE)
  have "case run step (replicate k (i, c)) (s, ls) of (s', ls', es) \<Rightarrow> final (ls' ! i)"
    using fin assms by (simp add: run_solo split: prod.splits)
  with k show ?thesis by (intro exI conjI)
qed

end

end
