(* ===== verification/Leases.thy ===== *)
theory Leases
  imports Prelude
begin

text \<open>
  Move-only leases. Both admission classes hand out a \<^verbatim>\<open>Lease\<close>: an object whose one
  field points at the counter it was taken from, or is null. The objects of a program
  are a table of such pointers; a counter is balanced when its value is the number of
  lease objects that point at it. The locale states what a counter owes its leases (giving
  one back lowers it by one); proved inside it: refunds, moves and new leases keep
  every counter balanced.
\<close>

type_synonym lease_table = "nat option list"

definition holders :: "nat \<Rightarrow> lease_table \<Rightarrow> nat" where
  "holders k ls = weight (\<lambda>l. if l = Some k then 1 else 0) ls"

definition balanced :: "('s \<Rightarrow> nat) \<Rightarrow> 's list \<Rightarrow> lease_table \<Rightarrow> bool" where
  "balanced cnt sts ls \<longleftrightarrow>
     (\<forall>k < length sts. cnt (sts ! k) = holders k ls)
   \<and> (\<forall>k. Some k \<in> set ls \<longrightarrow> k < length sts)"

lemma holders_update:
  "i < length ls \<Longrightarrow> holders k (ls[i := l]) + (if ls ! i = Some k then 1 else 0)
     = holders k ls + (if l = Some k then 1 else 0)"
  unfolding holders_def by (rule weight_update)

lemma holders_append [simp]: "holders k (ls @ ms) = holders k ls + holders k ms"
  by (simp add: holders_def)

lemma holders_simps [simp]:
  "holders k [] = 0" "holders k (l # ls) = (if l = Some k then 1 else 0) + holders k ls"
  by (simp_all add: holders_def)

lemma holders_pos: "i < length ls \<Longrightarrow> ls ! i = Some k \<Longrightarrow> 0 < holders k ls"
  using weight_member [of i ls "\<lambda>l. if l = Some k then 1 else 0"] by (simp add: holders_def)

lemma holders_none: "(\<forall>l \<in> set ls. l = None) \<Longrightarrow> holders k ls = 0"
  by (induction ls) auto

lemma set_update_Some: "Some k \<in> set (ls[i := None]) \<Longrightarrow> Some k \<in> set ls"
  using set_update_subset_insert [of ls i None] by auto

lemma balanced_pointer: "balanced cnt sts ls \<Longrightarrow> i < length ls \<Longrightarrow> ls ! i = Some k \<Longrightarrow> k < length sts"
  by (auto simp: balanced_def dest: nth_mem)

lemma balanced_default: "balanced cnt sts ls \<Longrightarrow> balanced cnt sts (ls @ [None])"
  by (simp add: balanced_def)

text \<open>A pointer moves from one object into an empty one.\<close>

lemma balanced_move:
  assumes b: "balanced cnt sts ls" and i: "i < length ls" and j: "j < length ls"
    and ne: "i \<noteq> j" and empty: "ls ! i = None"
  shows "balanced cnt sts (ls[i := ls ! j, j := None])"
proof -
  have "holders k (ls[i := ls ! j, j := None]) = holders k ls" for k
    using holders_update [of j "ls[i := ls ! j]" k None] holders_update [OF i, of k "ls ! j"] i j ne empty
    by (auto split: if_splits)
  moreover have "Some k \<in> set ls" if "Some k \<in> set (ls[i := ls ! j, j := None])" for k
    using set_update_Some [OF that] set_update_subset_insert [of ls i "ls ! j"] nth_mem [OF j] by auto
  ultimately show ?thesis
    using b by (auto simp: balanced_def)
qed

lemma balanced_move_construct:
  assumes b: "balanced cnt sts ls" and j: "j < length ls"
  shows "balanced cnt sts (ls[j := None] @ [ls ! j])"
proof -
  have "balanced cnt sts ((ls @ [None])[length ls := (ls @ [None]) ! j, j := None])"
    using balanced_default [OF b] j by (intro balanced_move) auto
  then show ?thesis
    using j by (simp add: nth_append list_update_append)
qed

locale refundable =
  fixes cnt :: "'s \<Rightarrow> nat"
    and give_back :: "'s \<Rightarrow> 's"
  assumes cnt_give_back: "0 < cnt s \<Longrightarrow> cnt (give_back s) = cnt s - 1"
begin

lemma refund_keeps:
  assumes b: "balanced cnt sts ls" and i: "i < length ls" and p: "ls ! i = Some k"
  shows "balanced cnt (sts[k := give_back (sts ! k)]) (ls[i := None])"
proof -
  have k: "k < length sts"
    using b i p by (rule balanced_pointer)
  have "cnt (sts ! k) = holders k ls"
    using b k by (simp add: balanced_def)
  then have "cnt (give_back (sts ! k)) = holders k ls - 1"
    using holders_pos [OF i p] by (simp add: cnt_give_back)
  moreover have "holders k' (ls[i := None]) = (if k' = k then holders k ls - 1 else holders k' ls)" for k'
    using holders_update [OF i, of k' None] p by (auto split: if_splits)
  ultimately show ?thesis
    using b k by (auto simp: balanced_def nth_list_update dest: set_update_Some)
qed

lemma admit_keeps:
  assumes b: "balanced cnt sts ls" and k: "k < length sts" and s: "cnt s = cnt (sts ! k) + 1"
  shows "balanced cnt (sts[k := s]) (ls @ [Some k])"
  using b k s by (auto simp: balanced_def nth_list_update)

end

end
