(* ===== verification/Admission_Contract.thy ===== *)
theory Admission_Contract
  imports Prelude
begin

text \<open>
  What an admission promises, as a law on the sequence of its decisions. \<open>bounded\<close>
  is an exact bounded counter; \<open>never_over\<close> only promises that the bound is kept and
  that nothing is refunded twice, and lets the admission refuse at any time. The
  connection admission keeps the first, the admission gate the second.
\<close>

datatype admission_event = Admitted | Refusal | Released

text \<open>The abstract admission: the number held after a sequence of decisions, \<open>None\<close>
  when a decision is not allowed (an admission at the bound, a refusal below it, a
  refund of nothing).\<close>

fun bounded :: "nat \<Rightarrow> nat \<Rightarrow> admission_event list \<Rightarrow> nat option" where
  "bounded m h [] = Some h"
| "bounded m h (Admitted # es) = (if h < m then bounded m (h + 1) es else None)"
| "bounded m h (Refusal # es) = (if m \<le> h then bounded m h es else None)"
| "bounded m h (Released # es) = (if 0 < h then bounded m (h - 1) es else None)"

text \<open>The largest number held at any time.\<close>

fun peak :: "nat \<Rightarrow> admission_event list \<Rightarrow> nat" where
  "peak h [] = h"
| "peak h (Admitted # es) = max h (peak (h + 1) es)"
| "peak h (Refusal # es) = peak h es"
| "peak h (Released # es) = max h (peak (h - 1) es)"

lemma bounded_append:
  "bounded m h (es @ fs) = Option.bind (bounded m h es) (\<lambda>k. bounded m k fs)"
  by (induction m h es rule: bounded.induct) auto

lemma bounded_le: "bounded m h es = Some k \<Longrightarrow> h \<le> m \<Longrightarrow> k \<le> m"
  by (induction m h es rule: bounded.induct) (auto split: if_splits)

lemma peak_ge: "h \<le> peak h es"
  by (induction h es rule: peak.induct) auto

lemma peak_append:
  "bounded m h es = Some k \<Longrightarrow> peak h (es @ fs) = max (peak h es) (peak k fs)"
  by (induction m h es rule: bounded.induct) (auto split: if_splits simp: max.assoc max.absorb2 peak_ge)

lemma peak_le: "bounded m h es = Some k \<Longrightarrow> h \<le> m \<Longrightarrow> peak h es \<le> m"
  by (induction m h es rule: bounded.induct) (auto split: if_splits)

text \<open>The weaker contract.\<close>

fun never_over :: "nat \<Rightarrow> nat \<Rightarrow> admission_event list \<Rightarrow> nat option" where
  "never_over m h [] = Some h"
| "never_over m h (Admitted # es) = (if h < m then never_over m (h + 1) es else None)"
| "never_over m h (Refusal # es) = never_over m h es"
| "never_over m h (Released # es) = (if 0 < h then never_over m (h - 1) es else None)"

lemma never_over_append:
  "never_over m h (es @ fs) = Option.bind (never_over m h es) (\<lambda>k. never_over m k fs)"
  by (induction m h es rule: never_over.induct) auto

lemma never_over_le: "never_over m h es = Some k \<Longrightarrow> h \<le> m \<Longrightarrow> k \<le> m"
  by (induction m h es rule: never_over.induct) (auto split: if_splits)

lemma bounded_never_over: "bounded m h es = Some k \<Longrightarrow> never_over m h es = Some k"
  by (induction m h es rule: bounded.induct) (auto split: if_splits)

end
