(* ===== verification/Connection_Admission.thy ===== *)
theory Connection_Admission
  imports Leases Admission_Contract
begin

text \<open>
  \<^verbatim>\<open>ConnectionAdmission\<close> of \<^verbatim>\<open>src/connection_admission.h\<close>: the optional global bound
  on live connections. The shared \<^verbatim>\<open>State\<close> is a record; \<open>try_enter\<close> and
  \<open>lease_reset\<close> are the operations as one caller sees them; \<open>ca_step\<close> is the same
  code cut at its atomic operations, for any number of threads. Each admission,
  refusal and refund is an event, emitted at the atomic operation that decides it.

  Shown: every interleaving is linearizable to a bounded counter, the three
  statistics are exact (the high-water mark is the peak, the counters count every
  decision and saturate), and a call that runs alone returns within twelve steps.
\<close>

section \<open>State and operations\<close>

record ca_state =
  maximum :: size_t
  active :: size_t
  high_water :: size_t
  accepted :: u64
  rejected :: u64

definition ca_initial :: "size_t \<Rightarrow> ca_state" where
  "ca_initial bound = \<lparr>maximum = bound, active = 0, high_water = 0, accepted = 0, rejected = 0\<rparr>"

text \<open>The constructor, which throws on a zero bound.\<close>

definition ConnectionAdmission :: "size_t \<Rightarrow> exn + ca_state" where
  "ConnectionAdmission bound =
     (if bound = 0 then Inl (Invalid_argument ''zero connection admission bound'')
      else Inr (ca_initial bound))"

text \<open>\<^verbatim>\<open>increment\<close>: one iteration of its loop (whether the loop is left, the counter and
  the local \<^verbatim>\<open>value\<close> after it), and its effect when no other thread interferes.\<close>

definition increment_step :: "bool \<Rightarrow> u64 \<Rightarrow> u64 \<Rightarrow> bool \<times> u64 \<times> u64" where
  "increment_step spurious counter value =
     (if value = u64_max then (True, counter, value)
      else cas_weak spurious counter value (value + 1))"

definition increment :: "u64 \<Rightarrow> u64" where
  "increment counter = (if counter = u64_max then counter else counter + 1)"

text \<open>\<^verbatim>\<open>try_enter\<close> as its caller sees it: \<open>True\<close> stands for a lease on this state.\<close>

definition try_enter :: "ca_state \<Rightarrow> bool \<times> ca_state" where
  "try_enter s =
     (if maximum s \<le> active s then (False, s\<lparr>rejected := increment (rejected s)\<rparr>)
      else (let value = active s; high = high_water s in
        (True, s\<lparr>active := value + 1, accepted := increment (accepted s),
                 high_water := (if high < value + 1 then value + 1 else high)\<rparr>)))"

definition lease_release :: "ca_state \<Rightarrow> ca_state" where
  "lease_release s = s\<lparr>active := active s - 1\<rparr>"

record connection_stats =
  cs_active :: size_t
  cs_high_water :: size_t
  cs_accepted :: u64
  cs_rejected :: u64

definition stats :: "ca_state \<Rightarrow> connection_stats" where
  "stats s = \<lparr>cs_active = active s, cs_high_water = high_water s,
              cs_accepted = accepted s, cs_rejected = rejected s\<rparr>"

section \<open>The operations at their atomic steps\<close>

text \<open>Where a thread stands in \<^verbatim>\<open>try_enter\<close> and \<^verbatim>\<open>Lease::reset\<close>. The arguments are
  the local variables that are live there: \<^verbatim>\<open>value\<close>, the counter value \<^verbatim>\<open>increment\<close>
  read, \<^verbatim>\<open>high\<close>.\<close>

datatype ca_pc =
    Outside
  | Enter_load
  | Enter_loop size_t
  | Rejected_load
  | Rejected_loop u64
  | Accepted_load size_t
  | Accepted_loop size_t u64
  | High_load size_t
  | High_loop size_t size_t
  | Holding
  | Refused

definition decided :: "ca_state \<Rightarrow> size_t \<Rightarrow> admission_event list" where
  "decided s value = (if maximum s \<le> value then [Refusal] else [])"

fun ca_step :: "bool \<Rightarrow> ca_state \<Rightarrow> ca_pc \<Rightarrow> ca_state \<times> ca_pc \<times> admission_event list" where
  "ca_step c s Outside = (s, Enter_load, [])"
| "ca_step c s Enter_load = (s, Enter_loop (active s), decided s (active s))"
| "ca_step c s (Enter_loop value) =
     (if maximum s \<le> value then (s, Rejected_load, [])
      else (case cas_weak c (active s) value (value + 1) of (stored, cell, value') \<Rightarrow>
        if stored then (s\<lparr>active := cell\<rparr>, Accepted_load value, [Admitted])
        else (s\<lparr>active := cell\<rparr>, Enter_loop value', decided s value')))"
| "ca_step c s Rejected_load = (s, Rejected_loop (rejected s), [])"
| "ca_step c s (Rejected_loop n) =
     (case increment_step c (rejected s) n of (left, cell, n') \<Rightarrow>
        (s\<lparr>rejected := cell\<rparr>, if left then Refused else Rejected_loop n', []))"
| "ca_step c s (Accepted_load value) = (s, Accepted_loop value (accepted s), [])"
| "ca_step c s (Accepted_loop value n) =
     (case increment_step c (accepted s) n of (left, cell, n') \<Rightarrow>
        (s\<lparr>accepted := cell\<rparr>, if left then High_load value else Accepted_loop value n', []))"
| "ca_step c s (High_load value) = (s, High_loop value (high_water s), [])"
| "ca_step c s (High_loop value high) =
     (if high < value + 1
      then (case cas_weak c (high_water s) high (value + 1) of (stored, cell, high') \<Rightarrow>
        (s\<lparr>high_water := cell\<rparr>, if stored then Holding else High_loop value high', []))
      else (s, Holding, []))"
| "ca_step c s Holding = (lease_release s, Outside, [Released])"
| "ca_step c s Refused = (s, Outside, [])"

section \<open>Invariants of the interleaving\<close>

text \<open>Threads counted in \<^verbatim>\<open>active\<close>; admitted threads not yet counted in \<^verbatim>\<open>accepted\<close>;
  refused threads not yet counted in \<^verbatim>\<open>rejected\<close>; the high-water candidate of a
  thread still on its way to store it.\<close>

fun entered :: "ca_pc \<Rightarrow> nat" where
  "entered (Accepted_load value) = 1"
| "entered (Accepted_loop value n) = 1"
| "entered (High_load value) = 1"
| "entered (High_loop value high) = 1"
| "entered Holding = 1"
| "entered _ = 0"

fun uncounted :: "ca_pc \<Rightarrow> nat" where
  "uncounted (Accepted_load value) = 1"
| "uncounted (Accepted_loop value n) = 1"
| "uncounted _ = 0"

fun unreported :: "size_t \<Rightarrow> ca_pc \<Rightarrow> nat" where
  "unreported m (Enter_loop value) = (if m \<le> value then 1 else 0)"
| "unreported m Rejected_load = 1"
| "unreported m (Rejected_loop n) = 1"
| "unreported m _ = 0"

fun candidate :: "ca_pc \<Rightarrow> nat" where
  "candidate (Accepted_load value) = unat value + 1"
| "candidate (Accepted_loop value n) = unat value + 1"
| "candidate (High_load value) = unat value + 1"
| "candidate (High_loop value high) = unat value + 1"
| "candidate _ = 0"

text \<open>What each thread knows of the shared state: the counters it read only grow, and its
  candidate lies below the bound and the peak.\<close>

fun knows :: "ca_state \<Rightarrow> nat \<Rightarrow> ca_pc \<Rightarrow> bool" where
  "knows s p (Rejected_loop n) = (n \<le> rejected s)"
| "knows s p (Accepted_load value) = (value < maximum s \<and> unat value < p)"
| "knows s p (Accepted_loop value n) = (value < maximum s \<and> unat value < p \<and> n \<le> accepted s)"
| "knows s p (High_load value) = (value < maximum s \<and> unat value < p)"
| "knows s p (High_loop value high) = (value < maximum s \<and> unat value < p \<and> high \<le> high_water s)"
| "knows s p _ = True"

text \<open>A 64-bit counter that stops at its maximum.\<close>

definition saturated :: "nat \<Rightarrow> nat" where
  "saturated n = min (2 ^ 64 - 1) n"

definition ca_inv :: "size_t \<Rightarrow> ca_state \<Rightarrow> ca_pc list \<Rightarrow> admission_event list \<Rightarrow> bool" where
  "ca_inv m s ls es \<longleftrightarrow>
     maximum s = m
   \<and> bounded (unat m) 0 es = Some (unat (active s))
   \<and> unat (active s) = weight entered ls
   \<and> list_all (knows s (peak 0 es)) ls
   \<and> unat (high_water s) \<le> peak 0 es
   \<and> (peak 0 es \<le> unat (high_water s) \<or> (\<exists>l \<in> set ls. peak 0 es \<le> candidate l))
   \<and> weight uncounted ls \<le> count_list es Admitted
   \<and> unat (accepted s) = saturated (count_list es Admitted - weight uncounted ls)
   \<and> weight (unreported m) ls \<le> count_list es Refusal
   \<and> unat (rejected s) = saturated (count_list es Refusal - weight (unreported m) ls)"

text \<open>One step, field by field. The state afterwards differs from the one before in at
  most one field.\<close>

definition grows :: "ca_state \<Rightarrow> ca_state \<Rightarrow> bool" where
  "grows s s' \<longleftrightarrow> maximum s' = maximum s \<and> high_water s \<le> high_water s'
     \<and> accepted s \<le> accepted s' \<and> rejected s \<le> rejected s'"

lemma increment_grows: "n \<noteq> u64_max \<Longrightarrow> n \<le> n + 1"
  by (simp add: word_le_nat_alt unat_plus_one_not_max)

lemma ca_step_grows: "ca_step c s l = (s', l', fs) \<Longrightarrow> grows s s'"
  by (cases l)
     (auto simp: grows_def cas_weak_def increment_step_def lease_release_def increment_grows
           split: if_splits)

lemma knows_mono: "knows s p l \<Longrightarrow> grows s s' \<Longrightarrow> p \<le> p' \<Longrightarrow> knows s' p' l"
  by (cases l) (auto simp: grows_def)

lemma step_bounded:
  assumes "ca_step c s l = (s', l', fs)" and "entered l \<le> unat (active s)"
  shows "bounded (unat (maximum s)) (unat (active s)) fs = Some (unat (active s'))"
    and "unat (active s') + entered l = unat (active s) + entered l'"
    and "peak (unat (active s)) fs = max (unat (active s)) (unat (active s'))"
  using assms
  by (cases l; (auto simp: cas_weak_def increment_step_def decided_def lease_release_def
        word_le_nat_alt word_less_nat_alt unat_plus_one_less unat_minus_one_pos not_le
        split: if_splits; fail))+

lemma step_knows:
  assumes "ca_step c s l = (s', l', fs)" and "knows s p l"
    and "p' \<ge> p" and "p' \<ge> unat (active s')"
  shows "knows s' p' l'"
  using assms
  by (cases l)
     (auto simp: cas_weak_def increment_step_def word_less_nat_alt word_le_nat_alt unat_plus_one_less
           not_le split: if_splits)

text \<open>The candidate of a stepping thread is kept until the mark has reached it.\<close>

lemma step_covered:
  assumes "ca_step c s l = (s', l', fs)" and "knows s p l" and "q \<le> unat (high_water s) \<or> q \<le> candidate l"
  shows "q \<le> unat (high_water s') \<or> q \<le> candidate l'"
  using assms
  by (cases l)
     (auto simp: cas_weak_def increment_step_def lease_release_def word_less_nat_alt word_le_nat_alt
        unat_plus_one_less not_le split: if_splits)

lemma step_high_water:
  assumes "ca_step c s l = (s', l', fs)" and "knows s p l" and "unat (high_water s) \<le> p"
  shows "unat (high_water s') \<le> p"
  using assms
  by (cases l)
     (auto simp: cas_weak_def increment_step_def lease_release_def word_less_nat_alt word_le_nat_alt
        unat_plus_one_less not_le split: if_splits)

lemma step_admits_candidate:
  assumes "ca_step c s l = (s', l', fs)" and "unat (active s) < unat (active s')"
    and "entered l \<le> unat (active s)"
  shows "candidate l' = unat (active s')"
  using assms
  by (cases l)
     (auto simp: cas_weak_def increment_step_def lease_release_def word_less_nat_alt word_le_nat_alt
        unat_plus_one_less not_le unat_minus_one_pos split: if_splits)

text \<open>A saturating counter counts exactly the decisions already reported.\<close>

lemma saturated_counts:
  "unat v = saturated (a - Suc 0) \<Longrightarrow> 0 < a \<Longrightarrow> v \<noteq> u64_max \<Longrightarrow> unat (v + 1) = saturated a"
  using unat_not_max [of v] by (auto simp: saturated_def unat_plus_one_not_max)

lemma saturated_stays:
  "unat v = saturated (a - Suc 0) \<Longrightarrow> u64_max \<le> v \<Longrightarrow> unat v = saturated a"
  by (auto simp: saturated_def word_le_nat_alt)

lemma increment_step_counts:
  assumes "increment_step c cell n = (left, cell', n')" and "n \<le> cell"
    and "unat cell = saturated (a - Suc 0)" and "0 < a"
  shows "unat cell' = saturated (a - (if left then 0 else Suc 0))"
proof (cases "n = u64_max")
  case True
  then show ?thesis
    using assms saturated_stays [of cell a] by (simp add: increment_step_def)
next
  case False
  then show ?thesis
    using assms saturated_counts [of cell a]
    by (auto simp: increment_step_def cas_weak_def split: if_splits)
qed

lemma step_accepted:
  assumes "ca_step c s l = (s', l', fs)" and "knows s p l"
    and "uncounted l \<le> a" and "unat (accepted s) = saturated (a - uncounted l)"
  shows "uncounted l' \<le> a + count_list fs Admitted"
    and "unat (accepted s') = saturated (a + count_list fs Admitted - uncounted l')"
  using assms
  by (cases l; (auto simp: cas_weak_def lease_release_def decided_def
        dest: increment_step_counts split: if_splits prod.splits; fail))+

lemma step_rejected:
  assumes "ca_step c s l = (s', l', fs)" and "knows s p l"
    and "unreported (maximum s) l \<le> a" and "unat (rejected s) = saturated (a - unreported (maximum s) l)"
  shows "unreported (maximum s) l' \<le> a + count_list fs Refusal"
    and "unat (rejected s') = saturated (a + count_list fs Refusal - unreported (maximum s) l')"
  using assms
  by (cases l; (auto simp: cas_weak_def lease_release_def decided_def
        dest: increment_step_counts split: if_splits prod.splits; fail))+

text \<open>The same two facts over all threads.\<close>

lemma step_covers:
  assumes i: "i < length ls" and st: "ca_step c s (ls ! i) = (s', l', fs)"
    and kl: "knows s p (ls ! i)" and el: "entered (ls ! i) \<le> unat (active s)"
    and cov: "p \<le> unat (high_water s) \<or> (\<exists>l \<in> set ls. p \<le> candidate l)"
    and ap: "unat (active s) \<le> p"
  shows "max p (unat (active s')) \<le> unat (high_water s')
    \<or> (\<exists>l \<in> set (ls[i := l']). max p (unat (active s')) \<le> candidate l)"
proof (cases "p < unat (active s')")
  case True
  then have "max p (unat (active s')) \<le> candidate l'"
    using step_admits_candidate [OF st _ el] ap by simp
  then show ?thesis
    using i by (auto simp: set_update_memI)
next
  case False
  have "p \<le> unat (high_water s') \<or> (\<exists>l \<in> set (ls[i := l']). p \<le> candidate l)"
    using cov
  proof
    assume "p \<le> unat (high_water s)"
    then show ?thesis
      using ca_step_grows [OF st] by (auto simp: grows_def word_le_nat_alt)
  next
    assume "\<exists>l \<in> set ls. p \<le> candidate l"
    then obtain j where j: "j < length ls" "p \<le> candidate (ls ! j)"
      by (auto simp: in_set_conv_nth)
    show ?thesis
    proof (cases "j = i")
      case True
      then show ?thesis
        using step_covered [OF st kl, of p] j i by (auto simp: set_update_memI)
    next
      case False
      then show ?thesis
        using j by (metis length_list_update nth_list_update_neq nth_mem)
    qed
  qed
  with False show ?thesis by (simp add: max_absorb1)
qed

lemma step_weight:
  assumes i: "i < length ls" and le: "weight w ls \<le> count_list es e"
    and eq: "f s = saturated (count_list es e - weight w ls)"
    and step: "\<And>a. w (ls ! i) \<le> a \<Longrightarrow> f s = saturated (a - w (ls ! i)) \<Longrightarrow>
      w l' \<le> a + count_list fs e \<and> f s' = saturated (a + count_list fs e - w l')"
  shows "weight w (ls[i := l']) \<le> count_list (es @ fs) e
    \<and> f s' = saturated (count_list (es @ fs) e - weight w (ls[i := l']))"
proof -
  obtain n where n: "weight w ls = n + w (ls ! i)" "\<And>l. weight w (ls[i := l]) = n + w l"
    using weight_split [OF i, of w] by blast
  let ?a = "count_list es e - n"
  have "w l' \<le> ?a + count_list fs e \<and> f s' = saturated (?a + count_list fs e - w l')"
    using step [of ?a] le eq n(1) by simp
  moreover have "n \<le> count_list es e"
    using le n(1) by simp
  ultimately show ?thesis
    using n(2) by (auto simp: algebra_simps)
qed

lemma ca_step_keeps_inv:
  assumes inv: "ca_inv m s ls es" and i: "i < length ls"
    and st: "ca_step c s (ls ! i) = (s', l', fs)"
  shows "ca_inv m s' (ls[i := l']) (es @ fs)"
proof -
  let ?l = "ls ! i" and ?p = "peak 0 es" and ?p' = "peak 0 (es @ fs)"
  have m: "maximum s = m" and b: "bounded (unat m) 0 es = Some (unat (active s))"
    and act: "unat (active s) = weight entered ls" and kn: "list_all (knows s ?p) ls"
    and hw: "unat (high_water s) \<le> ?p"
    and cov: "?p \<le> unat (high_water s) \<or> (\<exists>l \<in> set ls. ?p \<le> candidate l)"
    using inv by (simp_all add: ca_inv_def)
  have el: "entered ?l \<le> unat (active s)"
    using weight_member [OF i, of entered] act by simp
  have kl: "knows s ?p ?l"
    using kn i by (rule list_all_nthD)
  have gr: "grows s s'"
    using st by (rule ca_step_grows)
  note sb = step_bounded [OF st el]
  have ap: "unat (active s) \<le> ?p"
    using peak_append [OF b, of "[]"] by simp
  have p': "?p' = max ?p (unat (active s'))"
    using peak_append [OF b, of fs] sb(3) peak_append [OF b, of "[]"] by (simp add: max.assoc [symmetric])
  have "bounded (unat m) 0 (es @ fs) = Some (unat (active s'))"
    using b sb(1) m by (simp add: bounded_append)
  moreover have "unat (active s') = weight entered (ls[i := l'])"
    using sb(2) act weight_update [OF i, of entered l'] by simp
  moreover have "list_all (knows s' ?p') (ls[i := l'])"
  proof (rule list_all_update)
    show "list_all (knows s' ?p') ls"
      using kn gr p' by (auto simp: list_all_iff elim!: knows_mono)
    show "knows s' ?p' l'"
      using step_knows [OF st kl] p' by simp
  qed
  moreover have "unat (high_water s') \<le> ?p'"
    using step_high_water [OF st kl hw] p' by simp
  moreover have "?p' \<le> unat (high_water s') \<or> (\<exists>l \<in> set (ls[i := l']). ?p' \<le> candidate l)"
    using step_covers [OF i st kl el cov] ap p' by simp
  moreover have "weight uncounted (ls[i := l']) \<le> count_list (es @ fs) Admitted"
      "unat (accepted s') = saturated (count_list (es @ fs) Admitted - weight uncounted (ls[i := l']))"
    using step_weight [OF i, of uncounted es Admitted "\<lambda>s. unat (accepted s)" s l' fs s']
      step_accepted [OF st kl] inv by (auto simp: ca_inv_def)
  moreover have "weight (unreported m) (ls[i := l']) \<le> count_list (es @ fs) Refusal"
      "unat (rejected s') = saturated (count_list (es @ fs) Refusal - weight (unreported m) (ls[i := l']))"
    using step_weight [OF i, of "unreported m" es Refusal "\<lambda>s. unat (rejected s)" s l' fs s']
      step_rejected [OF st kl] inv m by (auto simp: ca_inv_def)
  ultimately show ?thesis
    using gr m by (simp add: ca_inv_def grows_def)
qed

lemma ca_initial_inv: "ca_inv m (ca_initial m) (replicate n Outside) []"
  by (auto simp: ca_inv_def ca_initial_def saturated_def list_all_iff)

interpretation ca: interleaved_invariant ca_step "ca_inv m" for m
  by unfold_locales (rule ca_step_keeps_inv)

lemmas ca_run_inv = ca.run_keeps [OF ca_initial_inv, simplified]

section \<open>Every interleaving is a bounded counter\<close>

text \<open>C1: whatever the number of threads and their interleaving, and wherever weak
  compare-exchanges fail spuriously, the decisions taken (admissions, refusals and
  refunds, in the order of the atomic operations that decide them) are those of a
  counter bounded by \<^verbatim>\<open>maximum\<close>: nobody is admitted at the bound, nobody is refused
  below it, and \<^verbatim>\<open>active\<close> is at any time the number of threads between their
  admission and their refund.\<close>

theorem admission_linearizable:
  assumes "run ca_step sched (ca_initial m, replicate n Outside) = (s, ls, es)"
  shows "bounded (unat m) 0 es = Some (unat (active s))
    \<and> unat (active s) = weight entered ls \<and> active s \<le> m"
proof -
  have "ca_inv m s ls es"
    using assms by (rule ca_run_inv)
  then show ?thesis
    by (auto simp: ca_inv_def word_le_nat_alt dest: bounded_le)
qed

definition ca_example :: "(nat \<times> bool) list" where
  "ca_example = [(0, False), (1, False), (0, False), (1, False), (0, True), (0, False), (1, False),
     (1, False), (1, False), (0, False), (0, False), (0, False), (0, False), (0, False), (1, False)]"

lemma ca_example_run:
  "run ca_step ca_example (ca_initial 1, replicate 2 Outside) =
     (\<lparr>maximum = 1, active = 0, high_water = 1, accepted = 1, rejected = 1\<rparr>,
      [Outside, Refused], [Admitted, Refusal, Released])"
  by code_simp

theorem admission_linearizable_witness:
  "bounded 1 0 [Admitted, Refusal, Released] = Some 0"
  using admission_linearizable [OF ca_example_run] by simp

definition returned :: "ca_pc \<Rightarrow> bool" where
  "returned l \<longleftrightarrow> l \<in> {Outside, Holding, Refused}"

text \<open>C15: the statistics are exact. Once every call has returned, \<^verbatim>\<open>high_water\<close> is
  the largest number of connections ever held at once, and \<^verbatim>\<open>accepted\<close> and
  \<^verbatim>\<open>rejected\<close> are the numbers of admissions and refusals, stopping at the largest
  64-bit value instead of wrapping around.\<close>

theorem statistics_exact:
  assumes "run ca_step sched (ca_initial m, replicate n Outside) = (s, ls, es)"
    and "list_all returned ls"
  shows "unat (cs_active (stats s)) = weight entered ls
    \<and> unat (cs_high_water (stats s)) = peak 0 es \<and> peak 0 es \<le> unat m
    \<and> unat (cs_accepted (stats s)) = saturated (count_list es Admitted)
    \<and> unat (cs_rejected (stats s)) = saturated (count_list es Refusal)"
proof -
  have inv: "ca_inv m s ls es"
    using assms(1) by (rule ca_run_inv)
  have ret: "candidate l = 0" "uncounted l = 0" "unreported m l = 0" if "l \<in> set ls" for l
    using assms(2) that by (auto simp: list_all_iff returned_def)
  have "weight uncounted ls = 0" "weight (unreported m) ls = 0"
    using ret by (simp_all add: weight_zero_iff)
  moreover have "unat (high_water s) = peak 0 es"
    using inv ret by (force simp: ca_inv_def)
  moreover have "peak 0 es \<le> unat m"
    using inv by (auto simp: ca_inv_def intro: peak_le)
  ultimately show ?thesis
    using inv by (simp add: stats_def ca_inv_def)
qed

theorem statistics_exact_witness:
  "peak 0 [Admitted, Refusal, Released] \<le> 1 \<and> count_list [Admitted, Refusal, Released] Refusal = 1"
  using statistics_exact [OF ca_example_run] by (simp add: returned_def)

section \<open>Calls return\<close>

text \<open>How many steps a thread is away from returning when it runs alone.\<close>

fun ca_distance :: "ca_state \<Rightarrow> ca_pc \<Rightarrow> nat" where
  "ca_distance s Enter_load = 6"
| "ca_distance s (Enter_loop value) =
     (if maximum s \<le> value then 3 else if value = active s then 5 else 6)"
| "ca_distance s Rejected_load = 2"
| "ca_distance s (Rejected_loop n) = (if n = u64_max \<or> n = rejected s then 1 else 2)"
| "ca_distance s (Accepted_load value) = 4"
| "ca_distance s (Accepted_loop value n) = (if n = u64_max \<or> n = accepted s then 3 else 4)"
| "ca_distance s (High_load value) = 2"
| "ca_distance s (High_loop value high) = (if high < value + 1 \<and> high \<noteq> high_water s then 2 else 1)"
| "ca_distance s _ = 0"

interpretation ca_solo: solo_progress ca_step False ca_distance returned
proof unfold_locales
  fix l s s' l' es
  assume "\<not> returned l" and "ca_step False s l = (s', l', es)"
  then show "ca_distance s' l' < ca_distance s l"
    by (cases l) (auto simp: returned_def cas_weak_def increment_step_def split: if_splits)
qed

lemma ca_distance_le: "ca_distance s l \<le> 6"
  by (cases l) auto

text \<open>\<^verbatim>\<open>try_enter\<close> is obstruction free. A thread at any point of the call, in any
  state of the shared counters, that then runs without interference and without
  spurious failures has returned after at most six atomic steps, with a lease or a
  refusal, whatever the other threads are doing meanwhile in their own calls.\<close>

theorem try_enter_returns:
  assumes "i < length ls"
  shows "\<exists>k \<le> 6. case run ca_step (replicate k (i, False)) (s, ls) of
    (s', ls', es) \<Rightarrow> returned (ls' ! i)"
proof -
  obtain k where k: "k \<le> ca_distance s (ls ! i)" and
    r: "case run ca_step (replicate k (i, False)) (s, ls) of (s', ls', es) \<Rightarrow> returned (ls' ! i)"
    using ca_solo.run_reaches [OF assms, of s] by (elim exE conjE)
  have "k \<le> 6"
    using k ca_distance_le [of s "ls ! i"] by simp
  with r show ?thesis by (intro exI conjI)
qed

theorem try_enter_returns_witness:
  "\<exists>k \<le> 6. case run ca_step (replicate k (1, False)) (ca_initial 3, [Holding, Enter_loop 7]) of
    (s', ls', es) \<Rightarrow> returned (ls' ! 1)"
  by (rule try_enter_returns) simp


section \<open>Leases\<close>

text \<open>A program with several admissions and the \<^verbatim>\<open>Lease\<close> objects it created; an object is
  an index into \<open>leases\<close>, its \<^verbatim>\<open>state_\<close> an index into \<open>states\<close>.\<close>

record ca_world =
  states :: "ca_state list"
  leases :: lease_table

definition lease_reset :: "nat \<Rightarrow> ca_world \<Rightarrow> ca_world" where
  "lease_reset i w =
     (case leases w ! i of
        None \<Rightarrow> w
      | Some k \<Rightarrow> w\<lparr>states := (states w)[k := lease_release (states w ! k)],
                   leases := (leases w)[i := None]\<rparr>)"

definition lease_move_construct :: "nat \<Rightarrow> ca_world \<Rightarrow> ca_world" where
  "lease_move_construct j w = w\<lparr>leases := (leases w)[j := None] @ [leases w ! j]\<rparr>"

definition lease_move_assign :: "nat \<Rightarrow> nat \<Rightarrow> ca_world \<Rightarrow> ca_world" where
  "lease_move_assign i j w =
     (if i \<noteq> j then
        (let w' = lease_reset i w in
           w'\<lparr>leases := (leases w')[i := leases w' ! j, j := None]\<rparr>)
      else w)"

definition ca_enter :: "nat \<Rightarrow> ca_world \<Rightarrow> ca_world" where
  "ca_enter k w =
     (case try_enter (states w ! k) of
        (admitted, s) \<Rightarrow>
          w\<lparr>states := (states w)[k := s],
            leases := leases w @ (if admitted then [Some k] else [])\<rparr>)"

text \<open>What a program can do with them; \<open>Lease_destroy\<close> is \<^verbatim>\<open>~Lease\<close>. An index with no
  object is skipped.\<close>

datatype lease_op = Lease_default | Lease_enter nat | Lease_move nat | Lease_assign nat nat
  | Lease_reset nat | Lease_destroy nat

fun ca_op :: "ca_world \<Rightarrow> lease_op \<Rightarrow> ca_world" where
  "ca_op w Lease_default = w\<lparr>leases := leases w @ [None]\<rparr>"
| "ca_op w (Lease_enter k) = (if k < length (states w) then ca_enter k w else w)"
| "ca_op w (Lease_move j) = (if j < length (leases w) then lease_move_construct j w else w)"
| "ca_op w (Lease_assign i j) =
     (if i < length (leases w) \<and> j < length (leases w) then lease_move_assign i j w else w)"
| "ca_op w (Lease_reset i) = (if i < length (leases w) then lease_reset i w else w)"
| "ca_op w (Lease_destroy i) = (if i < length (leases w) then lease_reset i w else w)"

abbreviation live :: "ca_state \<Rightarrow> nat" where
  "live s \<equiv> unat (active s)"

interpretation ca_lease: refundable live lease_release
  by unfold_locales (simp add: lease_release_def unat_minus_one_pos)

definition ca_balanced :: "ca_world \<Rightarrow> bool" where
  "ca_balanced w \<longleftrightarrow> balanced live (states w) (leases w)
     \<and> (\<forall>s \<in> set (states w). active s \<le> maximum s)"

lemma try_enter_live:
  "fst (try_enter s) \<Longrightarrow> live (snd (try_enter s)) = live s + 1"
  "\<not> fst (try_enter s) \<Longrightarrow> live (snd (try_enter s)) = live s"
  by (auto simp: try_enter_def Let_def not_le unat_plus_one_less split: if_splits)

lemma try_enter_within: "active s \<le> maximum s \<Longrightarrow> active (snd (try_enter s)) \<le> maximum (snd (try_enter s))"
proof (cases "maximum s \<le> active s")
  case False
  then have "unat (active s + 1) \<le> unat (maximum s)"
    by (simp add: not_le unat_plus_one_less word_less_nat_alt)
  with False show ?thesis
    by (simp add: try_enter_def Let_def word_le_nat_alt)
qed (simp add: try_enter_def)

lemma lease_release_within:
  "active s \<le> maximum s \<Longrightarrow> 0 < live s \<Longrightarrow> active (lease_release s) \<le> maximum (lease_release s)"
  by (auto simp: lease_release_def word_le_nat_alt unat_minus_one_pos)

lemma lease_reset_balanced:
  assumes "ca_balanced w" and "i < length (leases w)"
  shows "ca_balanced (lease_reset i w)" and "leases (lease_reset i w) ! i = None"
    and "length (leases (lease_reset i w)) = length (leases w)"
proof -
  show "ca_balanced (lease_reset i w)"
  proof (cases "leases w ! i")
    case None
    then show ?thesis using assms by (simp add: lease_reset_def)
  next
    case (Some k)
    have b: "balanced live (states w) (leases w)"
      using assms by (simp add: ca_balanced_def)
    have k: "k < length (states w)"
      using b assms(2) Some by (rule balanced_pointer)
    have "live (states w ! k) = holders k (leases w)"
      using b k by (simp add: balanced_def)
    then have "active (lease_release (states w ! k)) \<le> maximum (lease_release (states w ! k))"
      using assms k holders_pos [OF assms(2) Some]
      by (intro lease_release_within) (simp_all add: ca_balanced_def)
    then show ?thesis
      using ca_lease.refund_keeps [OF b assms(2) Some] assms(1)
      by (auto simp: ca_balanced_def lease_reset_def Some dest!: set_update_subset_insert [THEN subsetD])
  qed
qed (use assms(2) in \<open>auto simp: lease_reset_def split: option.splits\<close>)

lemma lease_move_assign_balanced:
  assumes "ca_balanced w" and "i < length (leases w)" and "j < length (leases w)"
  shows "ca_balanced (lease_move_assign i j w)"
proof (cases "i = j")
  case False
  let ?w = "lease_reset i w"
  note r = lease_reset_balanced [OF assms(1,2)]
  have "balanced live (states ?w) ((leases ?w)[i := leases ?w ! j, j := None])"
    using r assms False by (intro balanced_move) (auto simp: ca_balanced_def)
  then show ?thesis
    using r(1) False by (simp add: ca_balanced_def lease_move_assign_def Let_def)
qed (use assms in \<open>simp add: lease_move_assign_def\<close>)

lemma ca_enter_balanced:
  assumes "ca_balanced w" and "k < length (states w)"
  shows "ca_balanced (ca_enter k w)"
proof -
  let ?s = "states w ! k"
  have b: "balanced live (states w) (leases w)" and le: "active ?s \<le> maximum ?s"
    using assms by (auto simp: ca_balanced_def)
  have "balanced live (states (ca_enter k w)) (leases (ca_enter k w))"
  proof (cases "fst (try_enter ?s)")
    case True
    then show ?thesis
      using ca_lease.admit_keeps [OF b assms(2) try_enter_live(1) [OF True]]
      by (simp add: ca_enter_def case_prod_beta)
  next
    case False
    then show ?thesis
      using b try_enter_live(2) [OF False] assms(2)
      by (auto simp: ca_enter_def balanced_def nth_list_update case_prod_beta)
  qed
  then show ?thesis
    using assms(1) try_enter_within [OF le]
    by (auto simp: ca_balanced_def ca_enter_def case_prod_beta dest!: set_update_subset_insert [THEN subsetD])
qed

lemma ca_op_balanced: "ca_balanced w \<Longrightarrow> ca_balanced (ca_op w x)"
proof (cases x)
  case (Lease_move j)
  assume "ca_balanced w"
  then show ?thesis
    using balanced_move_construct [of live "states w" "leases w" j] Lease_move
    by (simp add: ca_balanced_def lease_move_construct_def)
qed (simp_all add: ca_enter_balanced lease_reset_balanced lease_move_assign_balanced
       ca_balanced_def [of "w\<lparr>leases := _\<rparr>"] ca_balanced_def [of w] balanced_default)

lemma maximum_unchanged [simp]:
  "maximum (snd (try_enter s)) = maximum s" "maximum (lease_release s) = maximum s"
  by (simp_all add: try_enter_def Let_def lease_release_def)

lemma map_update_same: "f y = f (xs ! k) \<Longrightarrow> map f (xs[k := y]) = map f xs"
  by (metis list_update_id map_update)

lemma lease_reset_maximum: "map maximum (states (lease_reset i w)) = map maximum (states w)"
  by (simp add: lease_reset_def map_update_same split: option.splits)

lemma ca_op_maximum: "map maximum (states (ca_op w x)) = map maximum (states w)"
  by (cases x)
     (simp_all add: ca_enter_def lease_move_construct_def lease_move_assign_def Let_def
        lease_reset_maximum map_update_same case_prod_beta)

lemma ca_ops_keep:
  "ca_balanced w \<Longrightarrow> ca_balanced (foldl ca_op w ops)
     \<and> map maximum (states (foldl ca_op w ops)) = map maximum (states w)"
  by (induction ops arbitrary: w) (simp_all add: ca_op_balanced ca_op_maximum)

text \<open>Every connection is refunded exactly once. Starting without leases, after any
  sequence of admissions, moves (self-assignment included), resets and destructions,
  each admission counts in \<^verbatim>\<open>active\<close> exactly the lease objects that still point at
  it, never more than its bound; when no lease is left it counts zero.\<close>

theorem leases_refund_once:
  assumes "w = foldl ca_op \<lparr>states = map ca_initial bounds, leases = []\<rparr> ops"
    and "k < length bounds"
  shows "unat (active (states w ! k)) = holders k (leases w)
    \<and> active (states w ! k) \<le> maximum (states w ! k)
    \<and> maximum (states w ! k) = bounds ! k"
proof -
  let ?w = "\<lparr>states = map ca_initial bounds, leases = []\<rparr>"
  have "ca_balanced ?w"
    by (auto simp: ca_balanced_def balanced_def ca_initial_def)
  from ca_ops_keep [OF this, of ops] have b: "ca_balanced w"
    and mx: "map maximum (states w) = bounds"
    using assms(1) by (simp_all add: ca_initial_def comp_def)
  have k: "k < length (states w)"
    using mx assms(2) by (metis length_map)
  have "maximum (states w ! k) = bounds ! k"
    using mx k by (metis nth_map)
  moreover have "active (states w ! k) \<le> maximum (states w ! k)"
    using b k by (simp add: ca_balanced_def)
  moreover have "unat (active (states w ! k)) = holders k (leases w)"
    using b k by (simp add: ca_balanced_def balanced_def)
  ultimately show ?thesis by blast
qed

theorem leases_refund_once_witness:
  "holders 0 (leases (foldl ca_op \<lparr>states = map ca_initial [1], leases = []\<rparr>
     [Lease_enter 0, Lease_enter 0, Lease_move 0, Lease_assign 1 1, Lease_reset 0])) = 1"
  using leases_refund_once [OF refl, of 0 "[1]"
     "[Lease_enter 0, Lease_enter 0, Lease_move 0, Lease_assign 1 1, Lease_reset 0]"]
  by (simp add: ca_enter_def try_enter_def ca_initial_def lease_move_construct_def lease_move_assign_def
     lease_reset_def increment_def u64_max_def)

end
