(* ===== verification/Admission_Gate.thy ===== *)
theory Admission_Gate
  imports Leases Admission_Contract
begin

text \<open>
  \<^verbatim>\<open>AdmissionGate\<close> of \<^verbatim>\<open>src/reactor.h\<close>: the per-reactor window on requests in flight.
  \<open>gate_try_enter\<close> and \<open>gate_leave\<close> are the operations as one caller sees them,
  \<open>gate_step\<close> the same code cut at its atomic operations. The gate adds first and takes
  the addition back when it was too much, so its count overshoots for a moment.

  Shown: the bound is kept by every interleaving, a call is refused exactly when the
  requests held and the refusals not yet taken back reach the limit (so a refusal can
  be spurious under contention), the refusal counter is exact modulo its width, and
  the leases refund exactly once, self-assignment included.
\<close>

section \<open>State and operations\<close>

record gate =
  inflight :: c_int
  g_rejected :: u64
  limit :: c_int

definition gate_initial :: "c_int \<Rightarrow> gate" where
  "gate_initial lim = \<lparr>inflight = 0, g_rejected = 0, limit = lim\<rparr>"

text \<open>The condition of \<^verbatim>\<open>try_enter\<close> on the value \<^verbatim>\<open>fetch_add\<close> returned, a signed comparison.\<close>

definition gate_full :: "gate \<Rightarrow> c_int \<Rightarrow> bool" where
  "gate_full g old \<longleftrightarrow> sint (limit g) \<le> sint old \<and> 0 < sint (limit g)"

definition gate_leave :: "gate \<Rightarrow> gate" where
  "gate_leave g = g\<lparr>inflight := inflight g - 1\<rparr>"

definition gate_try_enter :: "gate \<Rightarrow> bool \<times> gate" where
  "gate_try_enter g =
     (let old = inflight g; g1 = g\<lparr>inflight := old + 1\<rparr> in
        if gate_full g1 old then
          (let g2 = g1\<lparr>inflight := inflight g1 - 1\<rparr> in
             (False, g2\<lparr>g_rejected := g_rejected g2 + 1\<rparr>))
        else (True, g1))"

section \<open>The operations at their atomic steps\<close>

datatype gate_pc = G_outside | G_call | G_undo | G_count | G_refused | G_holding

fun gate_step :: "unit \<Rightarrow> gate \<Rightarrow> gate_pc \<Rightarrow> gate \<times> gate_pc \<times> admission_event list" where
  "gate_step c g G_outside = (g, G_call, [])"
| "gate_step c g G_call =
     (let g' = g\<lparr>inflight := inflight g + 1\<rparr> in
        if gate_full g (inflight g) then (g', G_undo, [Refusal]) else (g', G_holding, [Admitted]))"
| "gate_step c g G_undo = (g\<lparr>inflight := inflight g - 1\<rparr>, G_count, [])"
| "gate_step c g G_count = (g\<lparr>g_rejected := g_rejected g + 1\<rparr>, G_refused, [])"
| "gate_step c g G_refused = (g, G_outside, [])"
| "gate_step c g G_holding = (gate_leave g, G_outside, [Released])"

section \<open>Invariant of the interleaving\<close>

text \<open>Threads counted in \<^verbatim>\<open>inflight\<close>: those admitted and those about to take their
  addition back. Threads refused but not yet counted in \<^verbatim>\<open>rejected\<close>.\<close>

definition counted :: "gate_pc \<Rightarrow> nat" where
  "counted l = (if l \<in> {G_undo, G_holding} then 1 else 0)"

definition holding :: "gate_pc \<Rightarrow> nat" where
  "holding l = (if l = G_holding then 1 else 0)"

definition unreported_refusal :: "gate_pc \<Rightarrow> nat" where
  "unreported_refusal l = (if l \<in> {G_undo, G_count} then 1 else 0)"

lemmas gate_weights = counted_def holding_def unreported_refusal_def

definition gate_inv :: "c_int \<Rightarrow> gate \<Rightarrow> gate_pc list \<Rightarrow> admission_event list \<Rightarrow> bool" where
  "gate_inv lim g ls es \<longleftrightarrow>
     limit g = lim \<and> length ls < 2 ^ 31
   \<and> unat (inflight g) = weight counted ls
   \<and> (0 < sint lim \<longrightarrow> never_over (unat lim) 0 es = Some (weight holding ls))
   \<and> weight unreported_refusal ls \<le> count_list es Refusal
   \<and> unat (g_rejected g) = (count_list es Refusal - weight unreported_refusal ls) mod 2 ^ 64"

lemma gate_full_iff:
  assumes "unat v < 2 ^ 31"
  shows "gate_full g v \<longleftrightarrow> 0 < sint (limit g) \<and> unat (limit g) \<le> unat v"
proof (cases "0 < sint (limit g)")
  case True
  have "sint (limit g) = int (unat (limit g))"
    using sint_pos_unat [OF True] by (rule sint_small)
  then show ?thesis
    using True sint_small [OF assms] by (simp add: gate_full_def del: of_nat_unat)
qed (simp add: gate_full_def)

lemma weight_at_most: "(\<And>l. w l \<le> 1) \<Longrightarrow> weight w ls \<le> length ls"
  by (induction ls) (auto simp: Suc_leI add_mono intro: add_le_mono [of _ 1, simplified])

lemma counted_le_length: "weight counted ls \<le> length ls"
  by (rule weight_at_most) (simp add: gate_weights)

lemma holding_le_counted: "weight holding ls \<le> weight counted ls"
  by (rule weight_mono) (simp add: gate_weights)

text \<open>One step, with the weights of all threads moved along.\<close>

lemma gate_step_inflight:
  assumes "gate_step c g l = (g', l', fs)" and "counted l \<le> unat (inflight g)" and "unat (inflight g) < 2 ^ 31"
  shows "unat (inflight g') + counted l = unat (inflight g) + counted l'" and "limit g' = limit g"
  using assms
  by (cases l; auto simp: Let_def gate_weights gate_leave_def unat_minus_one_pos unat_word_ariths
        split: if_splits)+

lemma gate_step_rejected:
  assumes "gate_step c g l = (g', l', fs)" and "unreported_refusal l \<le> a"
    and "unat (g_rejected g) = (a - unreported_refusal l) mod 2 ^ 64"
  shows "unreported_refusal l' \<le> a + count_list fs Refusal"
    and "unat (g_rejected g') = (a + count_list fs Refusal - unreported_refusal l') mod 2 ^ 64"
  using assms
  by (cases l; auto simp: Let_def gate_weights gate_leave_def unat_word_ariths mod_Suc_eq Suc_diff_le
        split: if_splits)+

lemma gate_step_never_over:
  assumes "gate_step c g l = (g', l', fs)" and "holding l \<le> h" and "h \<le> unat (inflight g)"
    and "unat (inflight g) < 2 ^ 31" and "0 < sint (limit g)"
  shows "\<exists>h'. never_over (unat (limit g)) h fs = Some h' \<and> h' + holding l = h + holding l'"
  using assms
  by (cases l) (auto simp: Let_def gate_weights gate_full_iff split: if_splits)

lemma gate_step_keeps_inv:
  assumes inv: "gate_inv lim g ls es" and i: "i < length ls"
    and st: "gate_step c g (ls ! i) = (g', l', fs)"
  shows "gate_inv lim g' (ls[i := l']) (es @ fs)"
proof -
  let ?l = "ls ! i"
  have lim: "limit g = lim" and len: "length ls < 2 ^ 31" and fl: "unat (inflight g) = weight counted ls"
    and rj: "weight unreported_refusal ls \<le> count_list es Refusal"
      "unat (g_rejected g) = (count_list es Refusal - weight unreported_refusal ls) mod 2 ^ 64"
    using inv by (simp_all add: gate_inv_def)
  have small: "unat (inflight g) < 2 ^ 31"
    using len fl counted_le_length [of ls] by simp
  have cl: "counted ?l \<le> unat (inflight g)"
    using weight_member [OF i, of counted] fl by simp
  note fs = gate_step_inflight [OF st cl small]
  have "unat (inflight g') = weight counted (ls[i := l'])"
    using fs(1) fl weight_update [OF i, of counted l'] by simp
  moreover have "never_over (unat lim) 0 (es @ fs) = Some (weight holding (ls[i := l']))" if pos: "0 < sint lim"
  proof -
    have nv: "never_over (unat lim) 0 es = Some (weight holding ls)"
      using inv pos by (simp add: gate_inv_def)
    obtain h' where "never_over (unat lim) (weight holding ls) fs = Some h'"
      and "h' + holding ?l = weight holding ls + holding l'"
      using gate_step_never_over [OF st weight_member [OF i, of holding] _ small] pos
        holding_le_counted [of ls] lim fl by auto
    then show ?thesis
      using nv weight_update [OF i, of holding l'] by (simp add: never_over_append)
  qed
  moreover
  obtain n where n: "weight unreported_refusal ls = n + unreported_refusal ?l"
    "\<And>l. weight unreported_refusal (ls[i := l]) = n + unreported_refusal l"
    using weight_split [OF i, of unreported_refusal] by blast
  have "unreported_refusal l' \<le> count_list es Refusal - n + count_list fs Refusal"
    "unat (g_rejected g') = (count_list es Refusal - n + count_list fs Refusal - unreported_refusal l') mod 2 ^ 64"
    using gate_step_rejected [OF st, of "count_list es Refusal - n"] rj n(1) by simp_all
  moreover have "n \<le> count_list es Refusal"
    using rj(1) n(1) by simp
  ultimately show ?thesis
    using fs(2) lim len n(2) by (auto simp: gate_inv_def algebra_simps)
qed

interpretation gt: interleaved_invariant gate_step "gate_inv lim" for lim
  by unfold_locales (rule gate_step_keeps_inv)

lemma gate_initial_inv: "n < 2 ^ 31 \<Longrightarrow> gate_inv lim (gate_initial lim) (replicate n G_outside) []"
  by (simp add: gate_inv_def gate_initial_def gate_weights)

lemma gate_run_inv:
  "run gate_step sched (gate_initial lim, replicate n G_outside) = (g, ls, es) \<Longrightarrow> n < 2 ^ 31 \<Longrightarrow>
     gate_inv lim g ls es"
  using gt.run_keeps [OF gate_initial_inv] by fastforce

text \<open>C16: the gate never admits more than its limit. With fewer than \<open>2 ^ 31\<close>
  threads, in every interleaving the admissions and refunds are those of a counter
  bounded by a positive \<^verbatim>\<open>limit\<close>, \<^verbatim>\<open>inflight\<close> counts the requests held and the
  refusals not yet taken back, and once every call has returned \<^verbatim>\<open>rejected\<close> is the
  number of refusals modulo \<open>2 ^ 64\<close>.\<close>

theorem gate_never_over:
  assumes "run gate_step sched (gate_initial lim, replicate n G_outside) = (g, ls, es)"
    and "n < 2 ^ 31"
  shows "(0 < sint lim \<longrightarrow> never_over (unat lim) 0 es = Some (weight holding ls)
      \<and> weight holding ls \<le> unat lim)
    \<and> unat (inflight g) = weight counted ls
    \<and> (weight unreported_refusal ls = 0 \<longrightarrow> unat (g_rejected g) = count_list es Refusal mod 2 ^ 64)"
proof -
  have "gate_inv lim g ls es"
    using assms by (rule gate_run_inv)
  then show ?thesis
    by (auto simp: gate_inv_def dest: never_over_le)
qed

definition gate_example :: "(nat \<times> unit) list" where
  "gate_example = map (\<lambda>i. (i, ())) [0, 0, 1, 1, 0, 2, 2]"

text \<open>Thread 0 enters and holds, thread 1 is refused but has not yet taken its addition
  back, thread 0 leaves, thread 2 calls: it is refused although nobody holds the gate.\<close>

lemma gate_example_run:
  "run gate_step gate_example (gate_initial 1, replicate 3 G_outside) =
     (\<lparr>inflight = 2, g_rejected = 0, limit = 1\<rparr>, [G_outside, G_undo, G_undo],
      [Admitted, Refusal, Released, Refusal])"
  by code_simp

theorem gate_never_over_witness:
  "never_over 1 0 [Admitted, Refusal, Released, Refusal] = Some 0"
  using gate_never_over [OF gate_example_run] by (simp add: gate_weights)

text \<open>C35: exactly when a call is refused. In every reachable state, the next step of a thread
  at its \<^verbatim>\<open>fetch_add\<close> is a refusal if and only if the limit is positive and the
  requests held together with the refusals not yet taken back reach it. A limit of
  zero or less never refuses.\<close>

theorem gate_refuses_iff:
  assumes "run gate_step sched (gate_initial lim, replicate n G_outside) = (g, ls, es)"
    and "n < 2 ^ 31"
  shows "fst (snd (gate_step () g G_call)) = G_undo
    \<longleftrightarrow> 0 < sint lim \<and> unat lim \<le> weight counted ls"
proof -
  have inv: "gate_inv lim g ls es"
    using assms by (rule gate_run_inv)
  then have "unat (inflight g) < 2 ^ 31"
    using counted_le_length [of ls] by (simp add: gate_inv_def)
  with inv show ?thesis
    by (simp add: gate_inv_def gate_full_iff Let_def)
qed

theorem gate_refuses_iff_witness:
  "fst (snd (gate_step () \<lparr>inflight = 2, g_rejected = 0, limit = 1\<rparr> G_call)) = G_undo"
  using gate_refuses_iff [OF gate_example_run] by (simp add: gate_weights)

text \<open>Under contention a refusal can be spurious. With a limit of one, three threads
  reach a state in which nobody holds the gate and yet the next call is refused,
  because an earlier refusal has not been taken back.\<close>

theorem gate_spurious_refusal:
  "\<exists>sched g ls es. run gate_step sched (gate_initial 1, replicate 3 G_outside) = (g, ls, es)
     \<and> weight holding ls = 0 \<and> ls ! 2 = G_call \<and> fst (snd (gate_step () g (ls ! 2))) = G_undo"
proof -
  have "run gate_step (butlast gate_example) (gate_initial 1, replicate 3 G_outside) =
     (\<lparr>inflight = 1, g_rejected = 0, limit = 1\<rparr>, [G_outside, G_undo, G_call],
      [Admitted, Refusal, Released])"
    by code_simp
  then show ?thesis
    by (intro exI conjI, assumption) (simp_all add: gate_weights gate_full_def)
qed

text \<open>A call that runs alone is \<^verbatim>\<open>try_enter\<close>: it refuses if and only if the
  requests in flight have reached a positive limit, it leaves \<^verbatim>\<open>inflight\<close> as it was
  when it refuses, and raises it by one when it admits.\<close>

theorem gate_try_enter_solo:
  "solo gate_step () (if fst (gate_try_enter g) then 1 else 3) g G_call =
     (snd (gate_try_enter g), if fst (gate_try_enter g) then G_holding else G_refused,
      if fst (gate_try_enter g) then [Admitted] else [Refusal])
   \<and> (fst (gate_try_enter g) \<longleftrightarrow> \<not> (0 < sint (limit g) \<and> sint (limit g) \<le> sint (inflight g)))
   \<and> inflight (snd (gate_try_enter g)) = inflight g + (if fst (gate_try_enter g) then 1 else 0)"
  by (auto simp: gate_try_enter_def Let_def numeral_3_eq_3 gate_full_def)

section \<open>Leases\<close>

text \<open>Several gates and the \<^verbatim>\<open>Lease\<close> objects of a program, as for the connection
  admission, except that move assignment has no check for self-assignment.\<close>

record gate_world =
  gates :: "gate list"
  g_leases :: lease_table

definition gate_reset :: "nat \<Rightarrow> gate_world \<Rightarrow> gate_world" where
  "gate_reset i w =
     (case g_leases w ! i of
        None \<Rightarrow> w
      | Some k \<Rightarrow> w\<lparr>gates := (gates w)[k := gate_leave (gates w ! k)],
                   g_leases := (g_leases w)[i := None]\<rparr>)"

definition gate_move_construct :: "nat \<Rightarrow> gate_world \<Rightarrow> gate_world" where
  "gate_move_construct j w = w\<lparr>g_leases := (g_leases w)[j := None] @ [g_leases w ! j]\<rparr>"

definition gate_move_assign :: "nat \<Rightarrow> nat \<Rightarrow> gate_world \<Rightarrow> gate_world" where
  "gate_move_assign i j w =
     (let w' = gate_reset i w; old = g_leases w' ! j in
        w'\<lparr>g_leases := (g_leases w')[j := None, i := old]\<rparr>)"

definition gate_enter :: "nat \<Rightarrow> gate_world \<Rightarrow> gate_world" where
  "gate_enter k w =
     (case gate_try_enter (gates w ! k) of (admitted, g) \<Rightarrow>
        w\<lparr>gates := (gates w)[k := g],
          g_leases := g_leases w @ [if admitted then Some k else None]\<rparr>)"

datatype gate_lease_op = Gate_default | Gate_enter nat | Gate_move nat | Gate_assign nat nat
  | Gate_reset nat | Gate_destroy nat

fun gate_op :: "gate_world \<Rightarrow> gate_lease_op \<Rightarrow> gate_world" where
  "gate_op w Gate_default = w\<lparr>g_leases := g_leases w @ [None]\<rparr>"
| "gate_op w (Gate_enter k) = (if k < length (gates w) then gate_enter k w else w)"
| "gate_op w (Gate_move j) = (if j < length (g_leases w) then gate_move_construct j w else w)"
| "gate_op w (Gate_assign i j) =
     (if i < length (g_leases w) \<and> j < length (g_leases w) then gate_move_assign i j w else w)"
| "gate_op w (Gate_reset i) = (if i < length (g_leases w) then gate_reset i w else w)"
| "gate_op w (Gate_destroy i) = (if i < length (g_leases w) then gate_reset i w else w)"

abbreviation in_flight :: "gate \<Rightarrow> nat" where
  "in_flight g \<equiv> unat (inflight g)"

interpretation gate_lease: refundable in_flight gate_leave
  by unfold_locales (simp add: gate_leave_def unat_minus_one_pos)

text \<open>Gates with a positive limit, so that the count cannot wrap around.\<close>

definition gate_ok :: "gate \<Rightarrow> bool" where
  "gate_ok g \<longleftrightarrow> 0 < sint (limit g) \<and> in_flight g \<le> unat (limit g)"

definition gate_balanced :: "gate_world \<Rightarrow> bool" where
  "gate_balanced w \<longleftrightarrow> balanced in_flight (gates w) (g_leases w) \<and> (\<forall>g \<in> set (gates w). gate_ok g)"

lemma gate_try_enter_ok:
  assumes "gate_ok g"
  shows "gate_ok (snd (gate_try_enter g))"
    and "in_flight (snd (gate_try_enter g)) = in_flight g + (if fst (gate_try_enter g) then 1 else 0)"
proof -
  have pos: "0 < sint (limit g)" and le: "in_flight g \<le> unat (limit g)" and lt: "unat (limit g) < 2 ^ 31"
    using assms sint_pos_unat by (auto simp: gate_ok_def)
  have small: "in_flight g < 2 ^ 31"
    using le lt by linarith
  have full: "gate_full (g\<lparr>inflight := v\<rparr>) (inflight g) \<longleftrightarrow> unat (limit g) \<le> in_flight g" for v
    using pos by (simp add: gate_full_iff [OF small])
  have plus: "unat (inflight g + 1) = in_flight g + 1"
    using small by (simp add: unat_word_ariths)
  show "gate_ok (snd (gate_try_enter g))"
    and "in_flight (snd (gate_try_enter g)) = in_flight g + (if fst (gate_try_enter g) then 1 else 0)"
    using pos le plus by (auto simp: gate_try_enter_def Let_def full gate_ok_def)
qed

lemma gate_reset_balanced:
  assumes "gate_balanced w" and "i < length (g_leases w)"
  shows "gate_balanced (gate_reset i w)" and "g_leases (gate_reset i w) ! i = None"
    and "length (g_leases (gate_reset i w)) = length (g_leases w)"
proof -
  show "gate_balanced (gate_reset i w)"
  proof (cases "g_leases w ! i")
    case None
    then show ?thesis using assms by (simp add: gate_reset_def)
  next
    case (Some k)
    have b: "balanced in_flight (gates w) (g_leases w)"
      using assms by (simp add: gate_balanced_def)
    have k: "k < length (gates w)"
      using b assms(2) Some by (rule balanced_pointer)
    have "0 < in_flight (gates w ! k)"
      using b k holders_pos [OF assms(2) Some] by (simp add: balanced_def)
    moreover have "gate_ok (gates w ! k)"
      using assms k by (simp add: gate_balanced_def)
    ultimately have "gate_ok (gate_leave (gates w ! k))"
      by (auto simp: gate_ok_def gate_leave_def unat_minus_one_pos)
    then show ?thesis
      using gate_lease.refund_keeps [OF b assms(2) Some] assms(1)
      by (auto simp: gate_balanced_def gate_reset_def Some dest!: set_update_subset_insert [THEN subsetD])
  qed
qed (use assms(2) in \<open>auto simp: gate_reset_def split: option.splits\<close>)

lemma gate_move_assign_balanced:
  assumes "gate_balanced w" and "i < length (g_leases w)" and "j < length (g_leases w)"
  shows "gate_balanced (gate_move_assign i j w)"
proof -
  let ?w = "gate_reset i w"
  note r = gate_reset_balanced [OF assms(1,2)]
  have "balanced in_flight (gates ?w) ((g_leases ?w)[j := None, i := g_leases ?w ! j])"
  proof (cases "i = j")
    case True
    then show ?thesis
      using r by (metis gate_balanced_def list_update_id)
  next
    case False
    then have "balanced in_flight (gates ?w) ((g_leases ?w)[i := g_leases ?w ! j, j := None])"
      using r assms by (intro balanced_move) (auto simp: gate_balanced_def)
    then show ?thesis
      using False by (simp add: list_update_swap)
  qed
  then show ?thesis
    using r(1) by (simp add: gate_balanced_def gate_move_assign_def Let_def)
qed

lemma gate_enter_balanced:
  assumes "gate_balanced w" and "k < length (gates w)"
  shows "gate_balanced (gate_enter k w)"
proof -
  have b: "balanced in_flight (gates w) (g_leases w)" and ok: "gate_ok (gates w ! k)"
    using assms by (auto simp: gate_balanced_def)
  note te = gate_try_enter_ok [OF ok]
  have "balanced in_flight (gates (gate_enter k w)) (g_leases (gate_enter k w))"
  proof (cases "fst (gate_try_enter (gates w ! k))")
    case True
    then show ?thesis
      using gate_lease.admit_keeps [OF b assms(2)] te(2) by (simp add: gate_enter_def case_prod_beta)
  next
    case False
    then show ?thesis
      using b te(2) assms(2) by (auto simp: gate_enter_def balanced_def nth_list_update case_prod_beta)
  qed
  then show ?thesis
    using assms(1) te(1)
    by (auto simp: gate_balanced_def gate_enter_def case_prod_beta dest!: set_update_subset_insert [THEN subsetD])
qed

lemma gate_op_balanced: "gate_balanced w \<Longrightarrow> gate_balanced (gate_op w x)"
proof (cases x)
  case (Gate_move j)
  assume "gate_balanced w"
  then show ?thesis
    using balanced_move_construct [of in_flight "gates w" "g_leases w" j] Gate_move
    by (simp add: gate_balanced_def gate_move_construct_def)
qed (simp_all add: gate_enter_balanced gate_reset_balanced gate_move_assign_balanced
       gate_balanced_def [of "w\<lparr>g_leases := _\<rparr>"] gate_balanced_def [of w] balanced_default)

text \<open>Gate leases refund exactly once. Starting without leases, after any sequence of
  entries, moves, self-moves, resets and destructions, \<^verbatim>\<open>inflight\<close> of every gate
  with a positive limit is the number of lease objects that hold it, at most the
  limit; a refused \<^verbatim>\<open>enter\<close> returns an empty lease.\<close>

theorem gate_leases_refund_once:
  assumes "w = foldl gate_op \<lparr>gates = map gate_initial limits, g_leases = []\<rparr> ops"
    and "\<forall>lim \<in> set limits. 0 < sint lim" and "k < length (gates w)"
  shows "unat (inflight (gates w ! k)) = holders k (g_leases w)
    \<and> unat (inflight (gates w ! k)) \<le> unat (limit (gates w ! k))"
proof -
  have "gate_balanced \<lparr>gates = map gate_initial limits, g_leases = []\<rparr>"
    using assms(2) by (auto simp: gate_balanced_def balanced_def gate_initial_def gate_ok_def)
  then have "gate_balanced (foldl gate_op \<lparr>gates = map gate_initial limits, g_leases = []\<rparr> ops)"
    by (induction ops rule: rev_induct) (simp_all add: gate_op_balanced)
  then have "gate_balanced w"
    using assms(1) by simp
  then have "unat (inflight (gates w ! k)) = holders k (g_leases w)" and "gate_ok (gates w ! k)"
    using assms(3) by (simp_all add: gate_balanced_def balanced_def)
  then show ?thesis
    by (simp add: gate_ok_def)
qed

end
