(* ===== verification/Abort_List.thy ===== *)
theory Abort_List
  imports Prelude "HOL-Library.Sublist"
begin

text \<open>
  \<^verbatim>\<open>Abortable\<close> and \<^verbatim>\<open>AbortList\<close> of \<^verbatim>\<open>src/reactor.h\<close>: the intrusive doubly linked list
  of what shutdown must release. Objects live in an explicit store: an address maps to
  an \<^verbatim>\<open>Abortable\<close> with its three hooks, a list address to its \<^verbatim>\<open>head_\<close> and
  \<^verbatim>\<open>cursor_\<close>; null is \<open>None\<close>. The operations write the pointers in the order of the
  source. \<open>each\<close> takes a callback that may change the store, and is \<open>None\<close> where
  the walk or a callback does not return.

  Shown: the pointers represent a list without repetitions, \<open>add\<close> puts an object in
  front and \<open>remove\<close> takes it out, also in the middle of a walk; a walk whose
  callbacks add and remove objects of the list returns, visits no object twice, none
  that has been removed, and every object that was there at its start and at its end.
  A walk nested in a callback of another does not have that guarantee.
\<close>

section \<open>The objects and the operations\<close>

record abortable =
  hook_list :: "nat option"
  hook_prev :: "nat option"
  hook_next :: "nat option"

record abort_list =
  list_head :: "nat option"
  list_cursor :: "nat option"

record store =
  nodes :: "nat \<Rightarrow> abortable"
  lists :: "nat \<Rightarrow> abort_list"

abbreviation fresh_node :: abortable where
  "fresh_node \<equiv> \<lparr>hook_list = None, hook_prev = None, hook_next = None\<rparr>"

definition set_node :: "nat \<Rightarrow> (abortable \<Rightarrow> abortable) \<Rightarrow> 'z store_scheme \<Rightarrow> 'z store_scheme" where
  "set_node a u h = h\<lparr>nodes := (nodes h)(a := u (nodes h a))\<rparr>"

definition set_list :: "nat \<Rightarrow> (abort_list \<Rightarrow> abort_list) \<Rightarrow> 'z store_scheme \<Rightarrow> 'z store_scheme" where
  "set_list L u h = h\<lparr>lists := (lists h)(L := u (lists h L))\<rparr>"

definition add :: "nat \<Rightarrow> nat \<Rightarrow> 'z store_scheme \<Rightarrow> 'z store_scheme" where
  "add L a h =
     (let h1 = set_node a (\<lambda>_. \<lparr>hook_list = Some L, hook_prev = None, hook_next = list_head (lists h L)\<rparr>) h;
          h2 = (case list_head (lists h1 L) of
                  Some b \<Rightarrow> set_node b (hook_prev_update (\<lambda>_. Some a)) h1
                | None \<Rightarrow> h1)
      in set_list L (list_head_update (\<lambda>_. Some a)) h2)"

definition remove :: "nat \<Rightarrow> nat \<Rightarrow> 'z store_scheme \<Rightarrow> 'z store_scheme" where
  "remove L a h =
     (if hook_list (nodes h a) \<noteq> Some L then h
      else
        let h1 = (if list_cursor (lists h L) = Some a
                  then set_list L (list_cursor_update (\<lambda>_. hook_next (nodes h a))) h else h);
            h2 = (case hook_prev (nodes h1 a) of
                    Some p \<Rightarrow> set_node p (hook_next_update (\<lambda>_. hook_next (nodes h1 a))) h1
                  | None \<Rightarrow> set_list L (list_head_update (\<lambda>_. hook_next (nodes h1 a))) h1);
            h3 = (case hook_next (nodes h2 a) of
                    Some n \<Rightarrow> set_node n (hook_prev_update (\<lambda>_. hook_prev (nodes h2 a))) h2
                  | None \<Rightarrow> h2)
        in set_node a (\<lambda>_. fresh_node) h3)"

definition set_cursor :: "nat \<Rightarrow> nat option \<Rightarrow> 'z store_scheme \<Rightarrow> 'z store_scheme" where
  "set_cursor L c = set_list L (list_cursor_update (\<lambda>_. c))"

partial_function (option) each_loop ::
    "nat \<Rightarrow> (nat \<Rightarrow> 'z store_scheme \<Rightarrow> 'z store_scheme option) \<Rightarrow> 'z store_scheme \<Rightarrow> 'z store_scheme option" where
  "each_loop L f h =
     (case list_cursor (lists h L) of
        None \<Rightarrow> Some h
      | Some node \<Rightarrow>
          Option.bind (f node (set_cursor L (hook_next (nodes h node)) h)) (\<lambda>h'. each_loop L f h'))"

declare each_loop.simps [code]

definition each :: "nat \<Rightarrow> (nat \<Rightarrow> 'z store_scheme \<Rightarrow> 'z store_scheme option) \<Rightarrow> 'z store_scheme \<Rightarrow>
    'z store_scheme option" where
  "each L f h =
     (let outer = list_cursor (lists h L) in
        map_option (set_cursor L outer) (each_loop L f (set_cursor L (list_head (lists h L)) h)))"

definition is_empty :: "nat \<Rightarrow> 'z store_scheme \<Rightarrow> bool" where
  "is_empty L h \<longleftrightarrow> list_head (lists h L) = None"

text \<open>The destructor of an \<^verbatim>\<open>Abortable\<close> leaves the list it is on.\<close>

definition destroy_abortable :: "nat \<Rightarrow> 'z store_scheme \<Rightarrow> 'z store_scheme" where
  "destroy_abortable a h = (case hook_list (nodes h a) of Some L \<Rightarrow> remove L a h | None \<Rightarrow> h)"

section \<open>What the pointers represent\<close>

text \<open>A doubly linked segment: entered with predecessor \<open>p\<close> at \<open>q\<close>, left with
  predecessor \<open>p'\<close> at \<open>q'\<close>.\<close>

fun dseg :: "(nat \<Rightarrow> abortable) \<Rightarrow> nat \<Rightarrow> nat option \<Rightarrow> nat option \<Rightarrow> nat list \<Rightarrow>
    nat option \<Rightarrow> nat option \<Rightarrow> bool" where
  "dseg nd L p q [] p' q' \<longleftrightarrow> p = p' \<and> q = q'"
| "dseg nd L p q (a # as) p' q' \<longleftrightarrow>
     q = Some a \<and> hook_list (nd a) = Some L \<and> hook_prev (nd a) = p
     \<and> dseg nd L (Some a) (hook_next (nd a)) as p' q'"

text \<open>The list \<open>L\<close> holds \<open>xs\<close>, and a walk has \<open>ys\<close> still to visit.\<close>

definition represents :: "'z store_scheme \<Rightarrow> nat \<Rightarrow> nat list \<Rightarrow> nat list \<Rightarrow> bool" where
  "represents h L xs ys \<longleftrightarrow>
     distinct xs
   \<and> (\<exists>p. dseg (nodes h) L None (list_head (lists h L)) xs p None)
   \<and> (\<forall>a. hook_list (nodes h a) = Some L \<longrightarrow> a \<in> set xs)
   \<and> (\<exists>us. xs = us @ ys)
   \<and> list_cursor (lists h L) = (case ys of [] \<Rightarrow> None | y # _ \<Rightarrow> Some y)"

lemma store_simps [simp]:
  "nodes (set_node a u h) = (nodes h)(a := u (nodes h a))"
  "lists (set_node a u h) = lists h"
  "nodes (set_list L v h) = nodes h"
  "lists (set_list L v h) = (lists h)(L := v (lists h L))"
  "nodes (set_cursor L c h) = nodes h"
  "lists (set_cursor L c h) = (lists h)(L := (lists h L)\<lparr>list_cursor := c\<rparr>)"
  by (simp_all add: set_node_def set_list_def set_cursor_def)

lemma dseg_append:
  "dseg nd L p q (xs @ ys) p' q' \<longleftrightarrow> (\<exists>r s. dseg nd L p q xs r s \<and> dseg nd L r s ys p' q')"
  by (induction xs arbitrary: p q) auto

lemma dseg_frame: "a \<notin> set xs \<Longrightarrow> dseg (nd(a := n)) L p q xs p' q' = dseg nd L p q xs p' q'"
  by (induction xs arbitrary: p q) auto

lemma dseg_pred: "dseg nd L p q xs p' q' \<Longrightarrow> p' = (if xs = [] then p else Some (last xs))"
  by (induction xs arbitrary: p q) auto

lemma dseg_list: "dseg nd L p q xs p' q' \<Longrightarrow> a \<in> set xs \<Longrightarrow> hook_list (nd a) = Some L"
  by (induction xs arbitrary: p q) auto

lemma dseg_first_prev:
  "dseg nd L p q (a # as) p' q' \<Longrightarrow> a \<notin> set as \<Longrightarrow>
     dseg (nd(a := (nd a)\<lparr>hook_prev := r\<rparr>)) L r q (a # as) p' q'"
  by (simp add: dseg_frame)

lemma dseg_last_next:
  "dseg nd L p q (xs @ [a]) p' q' \<Longrightarrow> a \<notin> set xs \<Longrightarrow>
     dseg (nd(a := (nd a)\<lparr>hook_next := r\<rparr>)) L p q (xs @ [a]) p' r"
  by (auto simp: dseg_append dseg_frame)

lemma dseg_start: "dseg nd L p q xs p' None \<Longrightarrow> q = (case xs of [] \<Rightarrow> None | x # _ \<Rightarrow> Some x)"
  by (cases xs) auto

lemma represents_list_iff:
  "represents h L xs ys \<Longrightarrow> hook_list (nodes h a) = Some L \<longleftrightarrow> a \<in> set xs"
  by (auto simp: represents_def dest: dseg_list)

lemma represents_head:
  "represents h L xs ys \<Longrightarrow> list_head (lists h L) = (case xs of [] \<Rightarrow> None | x # _ \<Rightarrow> Some x)"
  by (auto simp: represents_def dest: dseg_start)

lemma add_represents:
  assumes r: "represents h L xs ys" and a: "hook_list (nodes h a) = None"
  shows "represents (add L a h) L (a # xs) ys"
proof -
  have na: "a \<notin> set xs"
    using represents_list_iff [OF r, of a] a by simp
  obtain p where d: "distinct xs" and seg: "dseg (nodes h) L None (list_head (lists h L)) xs p None"
    using r by (auto simp: represents_def)
  have hd: "list_head (lists h L) = (case xs of [] \<Rightarrow> None | x # _ \<Rightarrow> Some x)"
    using r by (rule represents_head)
  have "\<exists>p. dseg (nodes (add L a h)) L None (Some a) (a # xs) p None"
  proof (cases xs)
    case Nil
    then show ?thesis using hd by (simp add: add_def Let_def)
  next
    case (Cons x xs')
    have "dseg ((nodes h)(x := (nodes h x)\<lparr>hook_prev := Some a\<rparr>)) L (Some a) (Some x) (x # xs') p None"
      using seg d hd Cons by (intro dseg_first_prev) auto
    then show ?thesis
      using hd Cons na d by (auto simp: add_def Let_def dseg_frame)
  qed
  moreover have "hook_list (nodes (add L a h) b) = Some L \<longrightarrow> b \<in> set (a # xs)" for b
    using represents_list_iff [OF r] hd by (auto simp: add_def Let_def split: option.splits list.splits)
  moreover have "\<exists>us. a # xs = us @ ys"
    using r by (auto simp: represents_def)
  moreover have "list_cursor (lists (add L a h) L) = list_cursor (lists h L)"
      "list_head (lists (add L a h) L) = Some a"
    by (auto simp: add_def Let_def split: option.splits)
  ultimately show ?thesis
    using r d na by (auto simp: represents_def)
qed

text \<open>Unlinking an object from the middle of a segment.\<close>

lemma dseg_unlink:
  assumes seg: "dseg nd L None q (us @ a # vs) r None" and d: "distinct (us @ a # vs)"
  defines "p \<equiv> (if us = [] then None else Some (last us))"
    and "n \<equiv> (case vs of [] \<Rightarrow> None | v # _ \<Rightarrow> Some v)"
  defines "nd1 \<equiv> (case p of None \<Rightarrow> nd | Some b \<Rightarrow> nd(b := (nd b)\<lparr>hook_next := n\<rparr>))"
  defines "nd2 \<equiv> (case n of None \<Rightarrow> nd1 | Some b \<Rightarrow> nd1(b := (nd1 b)\<lparr>hook_prev := p\<rparr>))"
  shows "hook_prev (nd a) = p" and "hook_next (nd a) = n"
    and "\<exists>r'. dseg (nd2(a := fresh_node)) L None (if us = [] then n else q) (us @ vs) r' None"
proof -
  obtain s t where u: "dseg nd L None q us s t" and t: "t = Some a" and pa: "hook_prev (nd a) = s"
    and v: "dseg nd L (Some a) (hook_next (nd a)) vs r None"
    using seg by (auto simp: dseg_append)
  show p: "hook_prev (nd a) = p"
    using dseg_pred [OF u] pa by (simp add: p_def)
  show n: "hook_next (nd a) = n"
    using dseg_start [OF v] by (simp add: n_def)
  have u1: "dseg nd1 L None (if us = [] then n else q) us p n"
  proof (cases us rule: rev_cases)
    case Nil
    then show ?thesis by (simp add: p_def)
  next
    case (snoc ws w)
    then show ?thesis
      using u d dseg_last_next [of nd L None q ws w s t n] dseg_pred [OF u] by (auto simp: p_def nd1_def)
  qed
  have v1: "dseg nd1 L (Some a) n vs r None"
    using v n d by (cases us rule: rev_cases) (auto simp: nd1_def p_def dseg_frame)
  have "dseg nd2 L p n vs (if vs = [] then p else r) None"
  proof (cases vs)
    case Nil
    then show ?thesis by (simp add: n_def)
  next
    case (Cons w ws)
    then show ?thesis
      using v1 d dseg_first_prev [of nd1 L "Some a" n w ws r None p] by (auto simp: n_def nd2_def)
  qed
  moreover have "dseg nd2 L None (if us = [] then n else q) us p n"
    using u1 d by (cases vs) (auto simp: nd2_def n_def dseg_frame)
  ultimately have "dseg nd2 L None (if us = [] then n else q) (us @ vs) (if vs = [] then p else r) None"
    unfolding dseg_append by blast
  then show "\<exists>r'. dseg (nd2(a := fresh_node)) L None (if us = [] then n else q) (us @ vs) r' None"
    using d by (subst dseg_frame) auto
qed

text \<open>The store after a removal, with the neighbours named.\<close>

lemma remove_store:
  assumes "hook_list (nodes h a) = Some L" and "hook_prev (nodes h a) = p" and "hook_next (nodes h a) = n"
    and "p \<noteq> Some a"
  shows "nodes (remove L a h) =
      (let nd1 = (case p of None \<Rightarrow> nodes h | Some b \<Rightarrow> (nodes h)(b := (nodes h b)\<lparr>hook_next := n\<rparr>));
           nd2 = (case n of None \<Rightarrow> nd1 | Some b \<Rightarrow> nd1(b := (nd1 b)\<lparr>hook_prev := p\<rparr>))
       in nd2(a := fresh_node))"
    and "list_head (lists (remove L a h) L) = (if p = None then n else list_head (lists h L))"
    and "list_cursor (lists (remove L a h) L) =
      (if list_cursor (lists h L) = Some a then n else list_cursor (lists h L))"
  using assms by (auto simp: remove_def Let_def split: option.splits)

lemma suffix_remove1:
  assumes "distinct (us @ a # vs)" and "us @ a # vs = ws @ ys"
  shows "\<exists>zs. us @ vs = zs @ remove1 a ys"
    and "(case remove1 a ys of [] \<Rightarrow> None | y # _ \<Rightarrow> Some y) =
      (if (case ys of [] \<Rightarrow> None | y # _ \<Rightarrow> Some y) = Some a
       then (case vs of [] \<Rightarrow> None | v # _ \<Rightarrow> Some v)
       else (case ys of [] \<Rightarrow> None | y # _ \<Rightarrow> Some y))"
proof -
  have "remove1 a (us @ a # vs) = us @ vs"
    using assms(1) by (simp add: remove1_append)
  then have r: "remove1 a (ws @ ys) = us @ vs"
    using assms(2) by simp
  show "\<exists>zs. us @ vs = zs @ remove1 a ys"
  proof (cases "a \<in> set ws")
    case True
    then have "a \<notin> set ys" using assms by auto
    then have "us @ vs = remove1 a ws @ remove1 a ys"
      using r True by (simp add: remove1_append remove1_idem)
    then show ?thesis ..
  next
    case False
    then show ?thesis using r by (metis remove1_append)
  qed
  show "(case remove1 a ys of [] \<Rightarrow> None | y # _ \<Rightarrow> Some y) =
      (if (case ys of [] \<Rightarrow> None | y # _ \<Rightarrow> Some y) = Some a
       then (case vs of [] \<Rightarrow> None | v # _ \<Rightarrow> Some v)
       else (case ys of [] \<Rightarrow> None | y # _ \<Rightarrow> Some y))"
  proof (cases ys)
    case (Cons y ys')
    show ?thesis
    proof (cases "y = a")
      case True
      then have "ws @ a # ys' = us @ a # vs" and "distinct (ws @ a # ys')"
        using assms Cons by auto
      moreover have "a \<notin> set us" "a \<notin> set vs"
        using assms(1) by auto
      ultimately have "ys' = vs"
        by (metis append_Cons_eq_iff)
      then show ?thesis using Cons True by simp
    qed (use Cons in simp)
  qed simp
qed

lemma remove_represents:
  assumes r: "represents h L xs ys"
  shows "represents (remove L a h) L (remove1 a xs) (remove1 a ys)"
proof (cases "a \<in> set xs")
  case False
  moreover have "a \<notin> set ys"
    using False r by (auto simp: represents_def)
  ultimately have "remove L a h = h" "remove1 a xs = xs" "remove1 a ys = ys"
    using represents_list_iff [OF r, of a] by (auto simp: remove_def remove1_idem)
  then show ?thesis using r by simp
next
  case True
  then obtain us vs where xs: "xs = us @ a # vs"
    by (auto simp: in_set_conv_decomp)
  obtain ws r' where d: "distinct (us @ a # vs)" and ws: "us @ a # vs = ws @ ys"
    and seg: "dseg (nodes h) L None (list_head (lists h L)) (us @ a # vs) r' None"
    and cur: "list_cursor (lists h L) = (case ys of [] \<Rightarrow> None | y # _ \<Rightarrow> Some y)"
    using r unfolding represents_def xs by blast
  let ?p = "if us = [] then None else Some (last us)" and ?n = "case vs of [] \<Rightarrow> None | v # _ \<Rightarrow> Some v"
  note un = dseg_unlink [OF seg d]
  have la: "hook_list (nodes h a) = Some L"
    using True represents_list_iff [OF r] by simp
  have "?p \<noteq> Some a"
    using d by (cases us rule: rev_cases) auto
  note st = remove_store [OF la un(1,2) this]
  have x1: "remove1 a xs = us @ vs"
    using xs d by (simp add: remove1_append)
  have lists: "b \<in> set (us @ vs)" if b: "hook_list (nodes (remove L a h) b) = Some L" for b
  proof -
    have "b \<noteq> a" "hook_list (nodes h b) = Some L"
      using b by (auto simp: st(1) Let_def split: option.splits list.splits if_splits)
    then show ?thesis
      using represents_list_iff [OF r] xs by auto
  qed
  have "\<exists>r''. dseg (nodes (remove L a h)) L None (list_head (lists (remove L a h) L)) (us @ vs) r'' None"
    using un(3) unfolding st(1,2) Let_def by (auto split: if_splits)
  moreover have "list_cursor (lists (remove L a h) L) = (case remove1 a ys of [] \<Rightarrow> None | y # _ \<Rightarrow> Some y)"
    using suffix_remove1(2) [OF d ws] unfolding st(3) cur by simp
  ultimately show ?thesis
    using d lists suffix_remove1(1) [OF d ws] unfolding x1 represents_def by auto
qed

section \<open>Walks\<close>

text \<open>A callback that records its visit and then adds and removes objects of the same list.
  Since a walk visits an object at most once, a script per object is no restriction on
  what the callbacks of one walk may do. An object already on a list is not added again.\<close>

record logged = store +
  visited :: "nat list"

datatype edit = Add nat | Remove nat

fun apply_edit :: "nat \<Rightarrow> edit \<Rightarrow> 'z store_scheme \<Rightarrow> 'z store_scheme" where
  "apply_edit L (Add a) h = (if hook_list (nodes h a) = None then add L a h else h)"
| "apply_edit L (Remove a) h = remove L a h"

definition scripted :: "nat \<Rightarrow> (nat \<Rightarrow> edit list) \<Rightarrow> nat \<Rightarrow> logged \<Rightarrow> logged option" where
  "scripted L script n h = Some (fold (apply_edit L) (script n) (h\<lparr>visited := visited h @ [n]\<rparr>))"

text \<open>The walk on lists: \<open>xs\<close> the objects of the list, \<open>ys\<close> those still to visit.\<close>

fun edit_abs :: "edit \<Rightarrow> nat list \<times> nat list \<Rightarrow> nat list \<times> nat list" where
  "edit_abs (Add a) (xs, ys) = (if a \<in> set xs then (xs, ys) else (a # xs, ys))"
| "edit_abs (Remove a) (xs, ys) = (remove1 a xs, remove1 a ys)"

lemma edit_abs_length: "length (snd (fold edit_abs es (xs, ys))) \<le> length ys"
proof (induction es arbitrary: xs ys)
  case (Cons e es)
  have "length (snd (edit_abs e (xs, ys))) \<le> length ys"
    by (cases e) (simp_all add: length_remove1)
  then show ?case
    using Cons [of "fst (edit_abs e (xs, ys))" "snd (edit_abs e (xs, ys))"] by simp
qed simp

function walk_abs :: "(nat \<Rightarrow> edit list) \<Rightarrow> nat list \<Rightarrow> nat list \<Rightarrow> nat list \<times> nat list" where
  "walk_abs script xs [] = ([], xs)"
| "walk_abs script xs (y # ys) =
     (let xy = fold edit_abs (script y) (xs, ys); (vs, xs') = walk_abs script (fst xy) (snd xy)
      in (y # vs, xs'))"
  by pat_completeness auto
termination
  by (relation "measure (\<lambda>(script, xs, ys). length ys)") (auto simp: case_prod_beta le_imp_less_Suc edit_abs_length)

lemma edit_represents:
  assumes "represents h L xs ys" and "\<And>a. e = Add a \<Longrightarrow> hook_list (nodes h a) \<in> {None, Some L}"
  shows "represents (apply_edit L e h) L (fst (edit_abs e (xs, ys))) (snd (edit_abs e (xs, ys)))"
proof (cases e)
  case (Add a)
  then show ?thesis
    using assms add_represents [OF assms(1), of a] represents_list_iff [OF assms(1), of a] by auto
next
  case (Remove a)
  then show ?thesis
    using remove_represents [OF assms(1)] by simp
qed

text \<open>No edit puts an object on another list.\<close>

lemma add_owner: "hook_list (nodes (add L a h) b) = (if b = a then Some L else hook_list (nodes h b))"
  by (auto simp: add_def Let_def split: option.splits)

lemma remove_owner:
  "hook_list (nodes (remove L a h) b) \<in> {hook_list (nodes h b), None}"
  by (auto simp: remove_def Let_def split: option.splits)

lemma edit_owner:
  "hook_list (nodes h b) \<in> {None, Some L} \<Longrightarrow> hook_list (nodes (apply_edit L e h) b) \<in> {None, Some L}"
proof (cases e)
  case (Remove a)
  then show "hook_list (nodes h b) \<in> {None, Some L} \<Longrightarrow> hook_list (nodes (apply_edit L e h) b) \<in> {None, Some L}"
    using remove_owner [of L a h b] by auto
qed (simp add: add_owner)

lemma edits_represent:
  assumes "represents h L xs ys" and "\<And>a. Add a \<in> set es \<Longrightarrow> hook_list (nodes h a) \<in> {None, Some L}"
  shows "represents (fold (apply_edit L) es h) L (fst (fold edit_abs es (xs, ys))) (snd (fold edit_abs es (xs, ys)))"
  using assms
proof (induction es arbitrary: h xs ys)
  case (Cons e es)
  let ?xy = "edit_abs e (xs, ys)"
  have "represents (apply_edit L e h) L (fst ?xy) (snd ?xy)"
    using Cons.prems by (intro edit_represents) auto
  moreover have "hook_list (nodes (apply_edit L e h) a) \<in> {None, Some L}" if "Add a \<in> set es" for a
    using Cons.prems(2) that by (intro edit_owner) auto
  ultimately show ?case
    using Cons.IH [of "apply_edit L e h" "fst ?xy" "snd ?xy"] by simp
qed simp

lemma edits_owner:
  "hook_list (nodes h b) \<in> {None, Some L} \<Longrightarrow>
     hook_list (nodes (fold (apply_edit L) es h) b) \<in> {None, Some L}"
proof (induction es arbitrary: h)
  case (Cons e es)
  then show ?case using edit_owner [of h b L e] by simp
qed simp

lemma add_visited [simp]: "visited (add L a h) = visited h"
  by (simp add: add_def Let_def set_node_def set_list_def split: option.splits)

lemma remove_visited [simp]: "visited (remove L a h) = visited h"
  by (simp add: remove_def Let_def set_node_def set_list_def split: option.splits)

lemma edits_visited [simp]: "visited (fold (apply_edit L) es h) = visited h"
proof (induction es arbitrary: h)
  case (Cons e es)
  then show ?case by (cases e) simp_all
qed simp

lemma represents_cong:
  "nodes h' = nodes h \<Longrightarrow> lists h' = lists h \<Longrightarrow> represents h' L xs ys = represents h L xs ys"
  by (simp add: represents_def)

lemma represents_advance:
  "represents h L xs (y # ys) \<Longrightarrow> represents (set_cursor L (hook_next (nodes h y)) h) L xs ys"
  unfolding represents_def by (auto simp: dseg_append dest: dseg_start)

lemma represents_restart:
  "represents h L xs ys \<Longrightarrow> represents (set_cursor L (list_head (lists h L)) h) L xs xs"
  unfolding represents_def by (auto dest: dseg_start)

lemma represents_finish:
  "represents h L xs ys \<Longrightarrow> represents (set_cursor L None h) L xs []"
  unfolding represents_def by auto

text \<open>The contract of a callback: called in the middle of a walk, with the list represented
  and an invariant \<open>I\<close> that may speak of the list and of what the walk has left, it
  returns and keeps both, and does not prolong the walk. A walk with such callbacks
  returns, with the invariant.\<close>

locale walk_callback =
  fixes L :: nat
    and f :: "nat \<Rightarrow> 'z store_scheme \<Rightarrow> 'z store_scheme option"
    and I :: "'z store_scheme \<Rightarrow> nat list \<Rightarrow> nat list \<Rightarrow> bool"
  assumes callback: "represents h L xs (y # ys) \<Longrightarrow> I h xs (y # ys) \<Longrightarrow>
      \<exists>h' xs' ys'. f y (set_cursor L (hook_next (nodes h y)) h) = Some h'
        \<and> represents h' L xs' ys' \<and> I h' xs' ys' \<and> length ys' \<le> length ys"
    and cursor_only: "I h xs ys \<Longrightarrow> I (set_cursor L c h) xs ys"
begin

lemma each_loop_keeps:
  "represents h L xs ys \<Longrightarrow> I h xs ys \<Longrightarrow>
     \<exists>h' xs'. each_loop L f h = Some h' \<and> represents h' L xs' [] \<and> I h' xs' []"
proof (induction "length ys" arbitrary: h xs ys rule: less_induct)
  case less
  show ?case
  proof (cases ys)
    case Nil
    then have "list_cursor (lists h L) = None"
      using less.prems(1) by (simp add: represents_def)
    then show ?thesis
      using less.prems Nil by (subst each_loop.simps) auto
  next
    case (Cons y ys')
    obtain h1 xs1 ys1 where f: "f y (set_cursor L (hook_next (nodes h y)) h) = Some h1"
      and h1: "represents h1 L xs1 ys1" "I h1 xs1 ys1" and l: "length ys1 \<le> length ys'"
      using callback [of h xs y ys'] less.prems Cons by auto
    have "list_cursor (lists h L) = Some y"
      using less.prems(1) Cons by (simp add: represents_def)
    then have "each_loop L f h = each_loop L f h1"
      using f by (subst each_loop.simps) simp
    moreover have "length ys1 < length ys"
      using l Cons by simp
    ultimately show ?thesis
      using less.hyps [of ys1 h1 xs1] h1 by simp
  qed
qed

lemma each_keeps:
  assumes "represents h L xs []" and "I h xs xs"
  shows "\<exists>h' xs'. each L f h = Some h' \<and> represents h' L xs' [] \<and> I h' xs' []"
proof -
  have "list_cursor (lists h L) = None"
    using assms(1) by (simp add: represents_def)
  moreover obtain h' xs' where "each_loop L f (set_cursor L (list_head (lists h L)) h) = Some h'"
    "represents h' L xs' []" "I h' xs' []"
    using each_loop_keeps [OF represents_restart [OF assms(1)] cursor_only [OF assms(2)]] by blast
  ultimately show ?thesis
    using represents_finish [of h' L xs' "[]"] cursor_only [of h' xs' "[]" None] by (auto simp: each_def)
qed

end

text \<open>The scripted callbacks keep the result of the walk on lists: the loop on pointers
  computes it.\<close>

definition script_inv :: "nat \<Rightarrow> (nat \<Rightarrow> edit list) \<Rightarrow> nat list \<times> nat list \<Rightarrow> logged \<Rightarrow> nat list \<Rightarrow> nat list \<Rightarrow> bool" where
  "script_inv L script res h xs ys \<longleftrightarrow>
     (visited h @ fst (walk_abs script xs ys), snd (walk_abs script xs ys)) = res
   \<and> (\<forall>n a. Add a \<in> set (script n) \<longrightarrow> hook_list (nodes h a) \<in> {None, Some L})"

lemma scripted_callback:
  assumes r: "represents h L xs (y # ys)" and inv: "script_inv L script res h xs (y # ys)"
  shows "\<exists>h' xs' ys'. scripted L script y (set_cursor L (hook_next (nodes h y)) h) = Some h'
    \<and> represents h' L xs' ys' \<and> script_inv L script res h' xs' ys' \<and> length ys' \<le> length ys"
proof -
  let ?h1 = "set_cursor L (hook_next (nodes h y)) h"
  let ?h2 = "fold (apply_edit L) (script y) (?h1\<lparr>visited := visited ?h1 @ [y]\<rparr>)"
  let ?xy = "fold edit_abs (script y) (xs, ys)"
  have own: "\<And>n a. Add a \<in> set (script n) \<Longrightarrow> hook_list (nodes h a) \<in> {None, Some L}"
    using inv by (auto simp: script_inv_def)
  have "represents (?h1\<lparr>visited := visited ?h1 @ [y]\<rparr>) L xs ys"
    using represents_advance [OF r] by (subst represents_cong [of _ ?h1]) simp_all
  then have "represents ?h2 L (fst ?xy) (snd ?xy)"
    using own by (intro edits_represent) auto
  moreover have "hook_list (nodes ?h2 a) \<in> {None, Some L}" if "Add a \<in> set (script n)" for n a
    using own [OF that] by (intro edits_owner) simp
  then have "script_inv L script res ?h2 (fst ?xy) (snd ?xy)"
    using inv unfolding script_inv_def
    by (auto simp: Let_def case_prod_beta set_cursor_def set_list_def)
  ultimately show ?thesis
    using edit_abs_length [of "script y" xs ys] by (auto simp: scripted_def)
qed

interpretation script_walk: walk_callback L "scripted L script" "script_inv L script res" for L script res
proof
  show "\<And>h xs ys c. script_inv L script res h xs ys \<Longrightarrow> script_inv L script res (set_cursor L c h) xs ys"
    by (simp add: script_inv_def set_cursor_def set_list_def)
qed (rule scripted_callback)

text \<open>Facts on the walk over lists.\<close>

lemma edit_pending: "distinct ys \<Longrightarrow> snd (edit_abs e (xs, ys)) = filter (\<lambda>a. e \<noteq> Remove a) ys"
  by (cases e) (auto simp: distinct_remove1_removeAll removeAll_filter_not_eq intro: filter_cong)

lemma edits_pending:
  "distinct ys \<Longrightarrow> snd (fold edit_abs es (xs, ys)) = filter (\<lambda>a. Remove a \<notin> set es) ys"
proof (induction es arbitrary: xs ys)
  case (Cons e es)
  let ?xy = "edit_abs e (xs, ys)"
  have "snd (fold edit_abs (e # es) (xs, ys)) = snd (fold edit_abs es (fst ?xy, snd ?xy))"
    by simp
  also have "\<dots> = filter (\<lambda>a. Remove a \<notin> set es) (filter (\<lambda>a. e \<noteq> Remove a) ys)"
    using Cons by (simp add: edit_pending)
  also have "\<dots> = filter (\<lambda>a. Remove a \<notin> set (e # es)) ys"
    by (auto intro: filter_cong)
  finally show ?case .
qed simp

lemma walk_subseq: "distinct ys \<Longrightarrow> subseq (fst (walk_abs script xs ys)) ys"
proof (induction script xs ys rule: walk_abs.induct)
  case (2 script xs y ys)
  then have "subseq (fst (walk_abs script (fst (fold edit_abs (script y) (xs, ys)))
      (filter (\<lambda>a. Remove a \<notin> set (script y)) ys))) (filter (\<lambda>a. Remove a \<notin> set (script y)) ys)"
    by (simp add: edits_pending)
  then show ?case
    using 2(2) subseq_order.trans [OF _ subseq_filter_left]
    by (auto simp: Let_def case_prod_beta edits_pending)
qed simp

lemma set_subseq: "subseq xs ys \<Longrightarrow> set xs \<subseteq> set ys"
  by (metis nths_all set_nths_subset subseq_conv_nths)

lemma distinct_subseq: "subseq xs ys \<Longrightarrow> distinct ys \<Longrightarrow> distinct xs"
  by (metis distinct_nthsI subseq_conv_nths)

lemma walk_complete:
  "distinct ys \<Longrightarrow> a \<in> set ys \<Longrightarrow>
     a \<in> set (fst (walk_abs script xs ys)) \<or> (\<exists>n \<in> set (fst (walk_abs script xs ys)). Remove a \<in> set (script n))"
proof (induction script xs ys rule: walk_abs.induct)
  case (2 script xs y ys)
  show ?case
  proof (cases "a = y \<or> Remove a \<in> set (script y)")
    case True
    then show ?thesis by (auto simp: Let_def case_prod_beta)
  next
    case False
    then show ?thesis
      using 2 by (auto simp: Let_def case_prod_beta edits_pending)
  qed
qed simp

lemma walk_not_removed:
  "distinct ys \<Longrightarrow> fst (walk_abs script xs ys) = us @ a # ws \<Longrightarrow> n \<in> set us \<Longrightarrow> Remove a \<notin> set (script n)"
proof (induction script xs ys arbitrary: us rule: walk_abs.induct)
  case (2 script xs y ys)
  let ?xs = "fst (fold edit_abs (script y) (xs, ys))" and ?ys = "filter (\<lambda>a. Remove a \<notin> set (script y)) ys"
  have w: "y # fst (walk_abs script ?xs ?ys) = us @ a # ws"
    using 2(2,3) by (simp add: Let_def case_prod_beta edits_pending)
  show ?case
  proof (cases us)
    case (Cons u us')
    then have w': "fst (walk_abs script ?xs ?ys) = us' @ a # ws" and u: "u = y"
      using w by auto
    have "a \<in> set ?ys"
      using set_subseq [OF walk_subseq [of ?ys script ?xs]] 2(2) w' by auto
    moreover have "Remove a \<notin> set (script n)" if "n \<in> set us'"
      using 2(1) [OF refl _ _ that] 2(2) w' by (simp add: edits_pending)
    ultimately show ?thesis
      using 2(4) Cons u by auto
  qed (use 2(4) in simp)
qed simp

section \<open>Properties\<close>

text \<open>C12: a walk is safe and complete. Started on a list that holds \<open>xs\<close>, with no other
  walk in progress, and with callbacks that add and remove objects of the list (the
  current one, its successor, any other), \<^verbatim>\<open>each\<close> returns; it visits objects of
  \<open>xs\<close> in order and none twice; an object of \<open>xs\<close> that it does not visit was removed
  by the callback of an object visited; no object is visited after a callback removed
  it; and afterwards the pointers represent the list the callbacks left.\<close>

theorem each_visits_all:
  assumes "represents h L xs []"
    and "\<And>n a. Add a \<in> set (script n) \<Longrightarrow> hook_list (nodes h a) \<in> {None, Some L}"
  shows "\<exists>h' vs. each L (scripted L script) h = Some h' \<and> visited h' = visited h @ vs
    \<and> represents h' L (snd (walk_abs script xs xs)) []
    \<and> subseq vs xs \<and> distinct vs
    \<and> (\<forall>a \<in> set xs. a \<in> set vs \<or> (\<exists>n \<in> set vs. Remove a \<in> set (script n)))
    \<and> (\<forall>us a ws. vs = us @ a # ws \<longrightarrow> (\<forall>n \<in> set us. Remove a \<notin> set (script n)))"
proof -
  let ?vs = "fst (walk_abs script xs xs)"
  have d: "distinct xs"
    using assms(1) by (simp add: represents_def)
  have "script_inv L script (visited h @ ?vs, snd (walk_abs script xs xs)) h xs xs"
    using assms(2) by (simp add: script_inv_def)
  from script_walk.each_keeps [OF assms(1) this]
  obtain h' where "each L (scripted L script) h = Some h'" "visited h' = visited h @ ?vs"
    "represents h' L (snd (walk_abs script xs xs)) []"
    by (auto simp: script_inv_def)
  moreover have "subseq ?vs xs" "distinct ?vs"
    using walk_subseq [OF d] d by (auto dest: distinct_subseq)
  ultimately show ?thesis
    using walk_complete [OF d, of _ script xs] walk_not_removed [OF d, of script xs] by blast
qed

text \<open>A store with the objects 1, 2 and 3 on list 0.\<close>

definition empty_store :: logged where
  "empty_store = \<lparr>nodes = (\<lambda>_. fresh_node), lists = (\<lambda>_. \<lparr>list_head = None, list_cursor = None\<rparr>), visited = []\<rparr>"

definition three :: logged where
  "three = add 0 1 (add 0 2 (add 0 3 empty_store))"

lemma empty_represents: "represents empty_store L [] []"
  by (simp add: represents_def empty_store_def)

lemma three_represents: "represents three 0 [1, 2, 3] []"
  unfolding three_def
  by (intro add_represents empty_represents) (simp_all add: add_owner, simp_all add: empty_store_def)

theorem each_visits_all_witness:
  "\<exists>h' vs. each 0 (scripted 0 (\<lambda>n. if n = 1 then [Remove 1, Remove 2, Add 4] else [])) three = Some h'
     \<and> visited h' = vs \<and> subseq vs [1, 2, 3] \<and> distinct vs"
proof -
  let ?script = "\<lambda>n::nat. if n = 1 then [Remove 1, Remove 2, Add 4] else []"
  have own: "hook_list (nodes three a) \<in> {None, Some 0}" for a
    by (simp add: three_def add_owner empty_store_def)
  have "visited three = []"
    by (simp add: three_def empty_store_def)
  moreover obtain h' vs where "each 0 (scripted 0 ?script) three = Some h'" "visited h' = visited three @ vs"
    "subseq vs [1, 2, 3]" "distinct vs"
    using each_visits_all [OF three_represents own, of ?script] by blast
  ultimately show ?thesis by simp
qed

text \<open>C36: the list is what was added and not removed. From an empty list, after any
  sequence of additions of untracked objects and removals, in any order, the pointers
  represent exactly the tracked objects, the last added first; \<^verbatim>\<open>empty\<close> answers
  accordingly and the destructor of an object takes it out.\<close>

theorem edits_tracked:
  "represents (fold (apply_edit L) es empty_store) L (fst (fold edit_abs es ([], []))) []
   \<and> (is_empty L (fold (apply_edit L) es empty_store) \<longleftrightarrow> fst (fold edit_abs es ([], [])) = [])
   \<and> represents (destroy_abortable a (fold (apply_edit L) es empty_store)) L
       (remove1 a (fst (fold edit_abs es ([], [])))) []"
proof -
  let ?h = "fold (apply_edit L) es empty_store" and ?xs = "fst (fold edit_abs es ([], []))"
  have "snd (fold edit_abs es ([], [])) = []"
    using edit_abs_length [of es "[]" "[]"] by simp
  then have r: "represents ?h L ?xs []"
    using edits_represent [OF empty_represents, of es L] by (simp add: empty_store_def)
  have own: "hook_list (nodes ?h a) \<in> {None, Some L}"
    by (rule edits_owner) (simp add: empty_store_def)
  have "represents (destroy_abortable a ?h) L (remove1 a ?xs) []"
  proof (cases "hook_list (nodes ?h a)")
    case None
    then have "a \<notin> set ?xs"
      using represents_list_iff [OF r, of a] by simp
    then show ?thesis
      using r None by (simp add: destroy_abortable_def remove1_idem)
  next
    case (Some M)
    then show ?thesis
      using own remove_represents [OF r, of a] by (simp add: destroy_abortable_def)
  qed
  then show ?thesis
    using r represents_head [OF r] by (simp add: is_empty_def split: list.splits)
qed

text \<open>A walk nested in a callback. The outer callback logs its visit; on object 1 it runs a
  walk of its own, whose callback removes object 2.\<close>

definition inner_callback :: "nat \<Rightarrow> logged \<Rightarrow> logged option" where
  "inner_callback n h = Some (if n = 1 then remove 0 2 h else h)"

definition outer_callback :: "nat \<Rightarrow> logged \<Rightarrow> logged option" where
  "outer_callback n h =
     (let h' = h\<lparr>visited := visited h @ [n]\<rparr> in
        if n = 1 then each 0 inner_callback h' else Some h')"


end
