(* ===== verification/Loop_Sync.thy ===== *)
theory Loop_Sync
  imports Prelude
begin

text \<open>
  \<^verbatim>\<open>Reactor::on_loop_sync\<close>, \<^verbatim>\<open>claim_loop\<close> and \<^verbatim>\<open>release_loop\<close> of \<^verbatim>\<open>src/reactor.h\<close>: how
  \<^verbatim>\<open>abort_all\<close> and \<^verbatim>\<open>force_all\<close> run a walk on the loop and wait for it. The actors
  are any number of callers and the one thread that runs the loop; the loop may be
  stopped, so that its thread leaves \<^verbatim>\<open>run()\<close>, at any moment. One rule of the step
  relation is one critical section or one call of \<^verbatim>\<open>f\<close>.

  Shown: \<^verbatim>\<open>f\<close> runs exactly once per call, a call returns only after it ran, the handler
  never runs an \<^verbatim>\<open>f\<close> whose caller has returned (the handler captures it by
  reference), and no run of the protocol gets stuck before every caller has returned.
  If \<^verbatim>\<open>f\<close> throws on a loop that survives the exception, its caller waits for ever.
\<close>

section \<open>The protocol\<close>

text \<open>A caller: about to look at \<^verbatim>\<open>loops_\<close>, waiting for \<^verbatim>\<open>sync_call_\<close>, holding it with an
  identifier, after opening the call, after posting the handler, having taken the
  call itself, returned.\<close>

datatype caller = Start | Locking | Have nat | Opened nat | Waiting nat | Self nat | Returned

text \<open>The loop thread: between handlers; in the handler of a call (identifier and caller,
  whose \<^verbatim>\<open>f\<close> it captured) before and after running \<^verbatim>\<open>f\<close>; out of \<^verbatim>\<open>run()\<close> but not yet
  in \<^verbatim>\<open>release_loop\<close>; gone.\<close>

datatype runner = Looping | Took nat nat | Ran nat nat | Leaving | Gone

record sync_state =
  callers :: "caller list"
  runner :: runner
  loops :: nat
  lock :: "nat option"
  sync_calls :: nat
  sync_open :: nat
  sync_done :: nat
  posted :: "(nat \<times> nat) list"
  ran :: "nat \<Rightarrow> nat"

definition goto :: "nat \<Rightarrow> caller \<Rightarrow> sync_state \<Rightarrow> sync_state" where
  "goto c x s = s\<lparr>callers := (callers s)[c := x]\<rparr>"

definition at :: "sync_state \<Rightarrow> nat \<Rightarrow> caller \<Rightarrow> bool" where
  "at s c x \<longleftrightarrow> c < length (callers s) \<and> callers s ! c = x"

definition run_f :: "nat \<Rightarrow> sync_state \<Rightarrow> sync_state" where
  "run_f c s = s\<lparr>ran := (ran s)(c := ran s c + 1)\<rparr>"

text \<open>\<^verbatim>\<open>claim_loop\<close> and the critical section of \<^verbatim>\<open>release_loop\<close>, whose notification lets the
  callers look at the condition again.\<close>

definition claim_loop :: "sync_state \<Rightarrow> sync_state" where
  "claim_loop s = s\<lparr>loops := loops s + 1\<rparr>"

definition release_loop :: "sync_state \<Rightarrow> sync_state" where
  "release_loop s = s\<lparr>loops := loops s - 1\<rparr>"

text \<open>A loop claimed by one thread, and \<open>n\<close> callers.\<close>

definition sync_initial :: "nat \<Rightarrow> sync_state" where
  "sync_initial n = claim_loop \<lparr>callers = replicate n Start, runner = Looping, loops = 0, lock = None,
     sync_calls = 0, sync_open = 0, sync_done = 0, posted = [], ran = (\<lambda>_. 0)\<rparr>"

text \<open>\<open>on_loop c\<close>: caller \<open>c\<close> is itself running on the loop; \<open>throws c\<close>: its \<^verbatim>\<open>f\<close> throws.\<close>

inductive sync_step :: "(nat \<Rightarrow> bool) \<Rightarrow> (nat \<Rightarrow> bool) \<Rightarrow> sync_state \<Rightarrow> sync_state \<Rightarrow> bool"
  for on_loop throws where
  inline: "at s c Start \<Longrightarrow> loops s = 0 \<or> on_loop c \<Longrightarrow>
    sync_step on_loop throws s (goto c Returned (run_f c s))"
| want: "at s c Start \<Longrightarrow> loops s \<noteq> 0 \<Longrightarrow> \<not> on_loop c \<Longrightarrow> sync_step on_loop throws s (goto c Locking s)"
| acquire: "at s c Locking \<Longrightarrow> lock s = None \<Longrightarrow> i = sync_calls s + 1 \<Longrightarrow>
    sync_step on_loop throws s (goto c (Have i) (s\<lparr>lock := Some c, sync_calls := i\<rparr>))"
| open_call: "at s c (Have i) \<Longrightarrow> sync_step on_loop throws s (goto c (Opened i) (s\<lparr>sync_open := i\<rparr>))"
| post: "at s c (Opened i) \<Longrightarrow>
    sync_step on_loop throws s (goto c (Waiting i) (s\<lparr>posted := posted s @ [(i, c)]\<rparr>))"
| woken: "at s c (Waiting i) \<Longrightarrow> sync_done s = i \<Longrightarrow>
    sync_step on_loop throws s (goto c Returned (s\<lparr>lock := None\<rparr>))"
| take_back: "at s c (Waiting i) \<Longrightarrow> sync_done s \<noteq> i \<Longrightarrow> sync_open s = i \<Longrightarrow> loops s = 0 \<Longrightarrow>
    sync_step on_loop throws s (goto c (Self i) (s\<lparr>sync_open := 0\<rparr>))"
| self_run: "at s c (Self i) \<Longrightarrow>
    sync_step on_loop throws s (goto c Returned (run_f c (s\<lparr>lock := None\<rparr>)))"
| discard: "runner s = Looping \<Longrightarrow> posted s = (i, c) # q \<Longrightarrow> sync_open s \<noteq> i \<Longrightarrow>
    sync_step on_loop throws s (s\<lparr>posted := q\<rparr>)"
| take: "runner s = Looping \<Longrightarrow> posted s = (i, c) # q \<Longrightarrow> sync_open s = i \<Longrightarrow>
    sync_step on_loop throws s (s\<lparr>posted := q, sync_open := 0, runner := Took i c\<rparr>)"
| handle: "runner s = Took i c \<Longrightarrow> \<not> throws c \<Longrightarrow>
    sync_step on_loop throws s (run_f c (s\<lparr>runner := Ran i c\<rparr>))"
| handle_throws: "runner s = Took i c \<Longrightarrow> throws c \<Longrightarrow>
    sync_step on_loop throws s (run_f c (s\<lparr>runner := Looping\<rparr>))"
| finish: "runner s = Ran i c \<Longrightarrow> sync_step on_loop throws s (s\<lparr>sync_done := i, runner := Looping\<rparr>)"
| leave: "runner s = Looping \<Longrightarrow> sync_step on_loop throws s (s\<lparr>runner := Leaving\<rparr>)"
| release: "runner s = Leaving \<Longrightarrow>
    sync_step on_loop throws s (release_loop (s\<lparr>runner := Gone\<rparr>))"

inductive sync_reachable :: "(nat \<Rightarrow> bool) \<Rightarrow> (nat \<Rightarrow> bool) \<Rightarrow> nat \<Rightarrow> sync_state \<Rightarrow> bool"
  for on_loop throws n where
  initial: "sync_reachable on_loop throws n (sync_initial n)"
| step: "sync_reachable on_loop throws n s \<Longrightarrow> sync_step on_loop throws s t \<Longrightarrow>
    sync_reachable on_loop throws n t"

section \<open>Invariant\<close>

fun busy :: "caller \<Rightarrow> nat option" where
  "busy (Have i) = Some i"
| "busy (Opened i) = Some i"
| "busy (Waiting i) = Some i"
| "busy (Self i) = Some i"
| "busy _ = None"

fun handling :: "runner \<Rightarrow> (nat \<times> nat) option" where
  "handling (Took i c) = Some (i, c)"
| "handling (Ran i c) = Some (i, c)"
| "handling _ = None"

text \<open>The call in progress, by the point its caller \<open>c\<close> has reached.\<close>

definition phase :: "sync_state \<Rightarrow> nat \<Rightarrow> bool" where
  "phase s c \<longleftrightarrow> (let i = sync_calls s; unposted = (set (posted s) \<inter> {i} \<times> UNIV = {}) in
     0 < i \<and>
     (case callers s ! c of
        Have _ \<Rightarrow> sync_open s = 0 \<and> unposted \<and> sync_done s < i \<and> handling (runner s) = None \<and> ran s c = 0
      | Opened _ \<Rightarrow> sync_open s = i \<and> unposted \<and> sync_done s < i \<and> handling (runner s) = None \<and> ran s c = 0
      | Self _ \<Rightarrow> sync_open s = 0 \<and> sync_done s < i \<and> handling (runner s) = None \<and> ran s c = 0
      | Waiting _ \<Rightarrow>
          sync_open s = i \<and> set (posted s) \<inter> {i} \<times> UNIV = {(i, c)}
            \<and> sync_done s < i \<and> handling (runner s) = None \<and> ran s c = 0
        \<or> sync_open s = 0 \<and> runner s = Took i c \<and> sync_done s < i \<and> ran s c = 0
        \<or> sync_open s = 0 \<and> runner s = Ran i c \<and> sync_done s < i \<and> ran s c = 1
        \<or> sync_open s = 0 \<and> sync_done s = i \<and> handling (runner s) = None \<and> ran s c = 1
      | _ \<Rightarrow> False))"

text \<open>The holder of the lock is the one caller inside a call, with the newest identifier;
  a caller outside a call has run \<^verbatim>\<open>f\<close> exactly if it has returned; with no call in
  progress nothing is open and the loop handles nothing.\<close>

definition sync_inv :: "sync_state \<Rightarrow> bool" where
  "sync_inv s \<longleftrightarrow>
     loops s = (if runner s = Gone then 0 else 1)
   \<and> sync_done s \<le> sync_calls s
   \<and> (\<forall>(i, c) \<in> set (posted s). 0 < i \<and> i \<le> sync_calls s)
   \<and> (\<forall>c < length (callers s). busy (callers s ! c) = (if lock s = Some c then Some (sync_calls s) else None))
   \<and> (\<forall>c < length (callers s). lock s \<noteq> Some c \<longrightarrow> ran s c = (if callers s ! c = Returned then 1 else 0))
   \<and> (case lock s of
        None \<Rightarrow> sync_open s = 0 \<and> handling (runner s) = None
      | Some c \<Rightarrow> c < length (callers s) \<and> phase s c)"

lemma sync_inv_initial: "sync_inv (sync_initial n)"
  by (simp add: sync_inv_def sync_initial_def claim_loop_def)

lemmas sync_defs = sync_inv_def phase_def goto_def at_def run_f_def release_loop_def Let_def

lemma busy_SomeD: "busy x = Some i \<Longrightarrow> x \<in> {Have i, Opened i, Waiting i, Self i}"
  by (cases x) auto

lemma sync_inv_holder:
  assumes "sync_inv s" and "at s c x" and "busy x = Some i"
  shows "lock s = Some c" and "i = sync_calls s" and "phase s c"
  using assms by (auto simp: sync_inv_def at_def split: if_splits)

lemma sync_inv_outside:
  assumes "sync_inv s" and "at s c x" and "busy x = None"
  shows "lock s \<noteq> Some c" and "ran s c = (if x = Returned then 1 else 0)"
  using assms by (auto simp: sync_inv_def at_def split: if_splits)

text \<open>The steps of a caller, then those of the loop. The relation is the one in which no
  \<^verbatim>\<open>f\<close> throws.\<close>

abbreviation never :: "nat \<Rightarrow> bool" where
  "never \<equiv> \<lambda>_. False"

lemma sync_step_inv:
  assumes "sync_step on_loop never s t" and inv: "sync_inv s"
  shows "sync_inv t"
  using assms(1)
proof cases
  case (inline c)
  then show ?thesis using inv sync_inv_outside [OF inv, of c Start]
    by (auto simp: sync_defs nth_list_update split: option.splits caller.splits)
next
  case (want c)
  then show ?thesis using inv sync_inv_outside [OF inv, of c Start]
    by (auto simp: sync_defs nth_list_update split: option.splits caller.splits)
next
  case (acquire c i)
  then show ?thesis using inv sync_inv_outside [OF inv, of c Locking]
    by (auto simp: sync_defs nth_list_update split: option.splits caller.splits)
next
  case (open_call c i)
  then show ?thesis using inv sync_inv_holder [OF inv, of c "Have i"]
    by (auto simp: sync_defs nth_list_update split: option.splits caller.splits)
next
  case (post c i)
  then show ?thesis using inv sync_inv_holder [OF inv, of c "Opened i"]
    by (auto simp: sync_defs nth_list_update split: option.splits caller.splits)
next
  case (woken c i)
  then show ?thesis using inv sync_inv_holder [OF inv, of c "Waiting i"]
    by (auto simp: sync_defs nth_list_update split: option.splits caller.splits)
next
  case (take_back c i)
  then show ?thesis using inv sync_inv_holder [OF inv, of c "Waiting i"]
    by (auto simp: sync_defs nth_list_update split: option.splits caller.splits)
next
  case (self_run c i)
  then show ?thesis using inv sync_inv_holder [OF inv, of c "Self i"]
    by (auto simp: sync_defs nth_list_update split: option.splits caller.splits)
qed (use inv in \<open>auto simp: sync_defs split: option.splits caller.splits\<close>)

lemma sync_step_callers: "sync_step on_loop throws s t \<Longrightarrow> length (callers t) = length (callers s)"
  by (erule sync_step.cases) (simp_all add: goto_def run_f_def release_loop_def)

lemma sync_reachable_inv:
  "sync_reachable on_loop never n s \<Longrightarrow> sync_inv s \<and> length (callers s) = n"
proof (induction rule: sync_reachable.induct)
  case initial
  show ?case
    by (simp add: sync_inv_initial) (simp add: sync_initial_def claim_loop_def)
next
  case (step s t)
  then show ?case
    using sync_step_inv sync_step_callers by metis
qed

lemma handling_holder:
  assumes "sync_inv s" and "handling (runner s) = Some (i, c)"
  shows "lock s = Some c \<and> callers s ! c = Waiting i"
proof (cases "lock s")
  case None
  then show ?thesis using assms by (simp add: sync_inv_def)
next
  case (Some c')
  then have "phase s c'" and "busy (callers s ! c') = Some (sync_calls s)"
    using assms(1) by (simp_all add: sync_inv_def)
  then show ?thesis
    using assms(2) Some by (cases "callers s ! c'") (auto simp: phase_def Let_def)
qed

section \<open>Progress\<close>

text \<open>Every step uses up work: nothing in the protocol can go on for ever.\<close>

fun caller_work :: "caller \<Rightarrow> nat" where
  "caller_work Start = 20"
| "caller_work Locking = 18"
| "caller_work (Have i) = 16"
| "caller_work (Opened i) = 14"
| "caller_work (Waiting i) = 6"
| "caller_work (Self i) = 2"
| "caller_work Returned = 0"

fun runner_work :: "runner \<Rightarrow> nat" where
  "runner_work Looping = 2"
| "runner_work (Took i c) = 5"
| "runner_work (Ran i c) = 4"
| "runner_work Leaving = 1"
| "runner_work Gone = 0"

definition sync_work :: "sync_state \<Rightarrow> nat" where
  "sync_work s = weight caller_work (callers s) + runner_work (runner s) + 5 * length (posted s)"

lemma caller_moves:
  assumes "at s c x" and "caller_work y + k < caller_work x"
  shows "weight caller_work ((callers s)[c := y]) + k < weight caller_work (callers s)"
  using weight_update [of c "callers s" caller_work y] assms by (auto simp: at_def)

lemma sync_step_work:
  assumes "sync_step on_loop throws s t"
  shows "sync_work t < sync_work s"
  using assms
proof cases
  case (inline c)
  then show ?thesis using caller_moves [of s c Start Returned 0]
    by (simp add: sync_work_def goto_def run_f_def)
next
  case (want c)
  then show ?thesis using caller_moves [of s c Start Locking 0]
    by (simp add: sync_work_def goto_def)
next
  case (acquire c i)
  then show ?thesis using caller_moves [of s c Locking "Have i" 0]
    by (simp add: sync_work_def goto_def)
next
  case (open_call c i)
  then show ?thesis using caller_moves [of s c "Have i" "Opened i" 0]
    by (simp add: sync_work_def goto_def)
next
  case (post c i)
  then show ?thesis using caller_moves [of s c "Opened i" "Waiting i" 5]
    by (simp add: sync_work_def goto_def)
next
  case (woken c i)
  then show ?thesis using caller_moves [of s c "Waiting i" Returned 0]
    by (simp add: sync_work_def goto_def)
next
  case (take_back c i)
  then show ?thesis using caller_moves [of s c "Waiting i" "Self i" 0]
    by (simp add: sync_work_def goto_def)
next
  case (self_run c i)
  then show ?thesis using caller_moves [of s c "Self i" Returned 0]
    by (simp add: sync_work_def goto_def run_f_def)
qed (simp_all add: sync_work_def run_f_def release_loop_def)

lemma sync_run_work: "(sync_step on_loop throws ^^ k) s t \<Longrightarrow> k + sync_work t \<le> sync_work s"
proof (induction k arbitrary: t)
  case 0
  then show ?case by simp
next
  case (Suc k)
  then obtain u where "(sync_step on_loop throws ^^ k) s u" and "sync_step on_loop throws u t"
    by auto
  then show ?case using Suc.IH [of u] sync_step_work [of on_loop throws u t] by simp
qed

text \<open>The step in which the loop's thread is told to leave \<^verbatim>\<open>run()\<close>: the host's choice, so
  progress may not depend on it.\<close>

definition stops :: "sync_state \<Rightarrow> sync_state \<Rightarrow> bool" where
  "stops s t \<longleftrightarrow> runner s = Looping \<and> runner t = Leaving"

lemma waiting_open_moves:
  assumes "sync_inv s" and "at s c (Waiting i)" and "sync_open s = i" and "sync_done s \<noteq> i"
    and "(i, c) \<in> set (posted s)" and "handling (runner s) = None"
  shows "\<exists>t. sync_step on_loop throws s t \<and> \<not> stops s t"
proof (cases "runner s")
  case Looping
  obtain j d q where q: "posted s = (j, d) # q"
    using assms(5) by (cases "posted s") auto
  show ?thesis
  proof (cases "sync_open s = j")
    case True
    show ?thesis
      by (rule exI, rule conjI, rule take [OF Looping q True]) (simp add: stops_def)
  next
    case False
    show ?thesis
      by (rule exI, rule conjI, rule discard [OF Looping q False]) (simp add: stops_def Looping)
  qed
next
  case Leaving
  show ?thesis
    by (rule exI, rule conjI, rule release [OF Leaving]) (simp add: stops_def release_loop_def)
next
  case Gone
  then have "loops s = 0" using assms(1) by (simp add: sync_inv_def)
  then show ?thesis
    using take_back [OF assms(2,4,3)] Gone by (auto simp: stops_def)
qed (use assms(6) in simp_all)

lemma holder_moves:
  assumes inv: "sync_inv s" and lock: "lock s = Some c"
  shows "\<exists>t. sync_step on_loop never s t \<and> \<not> stops s t"
proof -
  have c: "c < length (callers s)" and ph: "phase s c"
    and i: "busy (callers s ! c) = Some (sync_calls s)"
    using inv lock by (simp_all add: sync_inv_def)
  have at: "at s c x" if "callers s ! c = x" for x using c that by (simp add: at_def)
  show ?thesis
  proof (cases "callers s ! c")
    case (Have j)
    show ?thesis using open_call [OF at [OF Have]] by (fastforce simp: stops_def goto_def)
  next
    case (Opened j)
    show ?thesis using post [OF at [OF Opened]] by (fastforce simp: stops_def goto_def)
  next
    case (Self j)
    show ?thesis using self_run [OF at [OF Self]] by (fastforce simp: stops_def goto_def run_f_def)
  next
    case (Waiting j)
    then have j: "j = sync_calls s" using i by simp
    from ph Waiting consider
        (open_) "sync_open s = j" "(j, c) \<in> set (posted s)" "sync_done s \<noteq> j" "handling (runner s) = None"
      | (took) "runner s = Took j c" | (ran_) "runner s = Ran j c" | (done_) "sync_done s = j"
      unfolding phase_def Let_def j by auto
    then show ?thesis
    proof cases
      case open_
      show ?thesis by (rule waiting_open_moves [OF inv at [OF Waiting] open_(1,3,2,4)])
    next
      case took
      show ?thesis using handle [OF took] took by (fastforce simp: stops_def)
    next
      case ran_
      show ?thesis using finish [OF ran_] ran_ by (fastforce simp: stops_def)
    next
      case done_
      show ?thesis using woken [OF at [OF Waiting] done_] by (fastforce simp: stops_def goto_def)
    qed
  qed (use i in simp_all)
qed

lemma outside_moves:
  assumes "sync_inv s" and "lock s = None" and c: "c < length (callers s)" and "callers s ! c \<noteq> Returned"
  shows "\<exists>t. sync_step on_loop never s t \<and> \<not> stops s t"
proof -
  have "busy (callers s ! c) = None" using assms by (simp add: sync_inv_def)
  then consider "at s c Start" | "at s c Locking"
    using assms(4) c by (cases "callers s ! c") (auto simp: at_def)
  then show ?thesis
  proof cases
    case 1
    then show ?thesis
      using inline [of s c on_loop never] want [of s c on_loop never]
      by (cases "loops s = 0 \<or> on_loop c") (auto simp: stops_def goto_def run_f_def)
  next
    case 2
    then show ?thesis
      using acquire [OF 2 assms(2) refl] by (fastforce simp: stops_def goto_def)
  qed
qed

section \<open>Runs of one caller\<close>

definition one_call ::
    "caller \<Rightarrow> runner \<Rightarrow> nat option \<Rightarrow> nat \<Rightarrow> nat \<Rightarrow> nat \<Rightarrow> (nat \<times> nat) list \<Rightarrow> nat \<Rightarrow> sync_state" where
  "one_call x r l calls opn dn q k = \<lparr>callers = [x], runner = r, loops = (if r = Gone then 0 else 1),
     lock = l, sync_calls = calls, sync_open = opn, sync_done = dn, posted = q, ran = (\<lambda>_. 0)(0 := k)\<rparr>"

lemmas one_call_defs = one_call_def goto_def at_def run_f_def

text \<open>The handler of the only call has been taken by the loop.\<close>

lemma one_call_taken:
  "sync_reachable never throws 1 (one_call (Waiting 1) (Took 1 0) (Some 0) 1 0 0 [] 0)"
proof -
  let ?s = "\<lambda>x l n opn q. one_call x Looping l n opn 0 q 0"
  have "sync_reachable never throws 1 (?s Start None 0 0 [])"
    using sync_reachable.initial [of never throws 1] by (simp add: sync_initial_def claim_loop_def one_call_def fun_upd_idem)
  from step [OF this want [of _ 0]] have "sync_reachable never throws 1 (?s Locking None 0 0 [])"
    by (simp add: one_call_defs)
  from step [OF this acquire [of _ 0, OF _ _ refl]]
  have "sync_reachable never throws 1 (?s (Have 1) (Some 0) 1 0 [])"
    by (simp add: one_call_defs)
  from step [OF this open_call [of _ 0 1]] have "sync_reachable never throws 1 (?s (Opened 1) (Some 0) 1 1 [])"
    by (simp add: one_call_defs)
  from step [OF this post [of _ 0 1]] have "sync_reachable never throws 1 (?s (Waiting 1) (Some 0) 1 1 [(1, 0)])"
    by (simp add: one_call_defs)
  from step [OF this take [of _ 1 0 "[]"]] show ?thesis
    by (simp add: one_call_defs)
qed

lemma one_call_ran:
  "sync_reachable never never 1 (one_call (Waiting 1) (Ran 1 0) (Some 0) 1 0 0 [] 1)"
  using step [OF one_call_taken handle [of _ 1 0]] by (simp add: one_call_defs)

lemma one_call_thrown:
  "sync_reachable never (\<lambda>_. True) 1 (one_call (Waiting 1) Looping (Some 0) 1 0 0 [] 1)"
  using step [OF one_call_taken handle_throws [of _ 1 0]] by (simp add: one_call_defs)

text \<open>After the exception nothing is open or posted any more, so nobody can finish the call.\<close>

definition abandoned :: "sync_state \<Rightarrow> bool" where
  "abandoned s \<longleftrightarrow> callers s = [Waiting 1] \<and> handling (runner s) = None \<and> sync_open s = 0
     \<and> sync_done s = 0 \<and> posted s = []"

lemma abandoned_step: "abandoned s \<Longrightarrow> sync_step on_loop throws s t \<Longrightarrow> abandoned t"
  by (erule sync_step.cases) (auto simp: abandoned_def at_def less_Suc_eq release_loop_def)

section \<open>Properties\<close>



text \<open>C7: A call of \<^verbatim>\<open>on_loop_sync\<close> whose function does not throw returns. In every
  reachable state in which some caller has not returned, a step is possible that does
  not depend on the host stopping the loop; and a run from that state has at most
  \<^const>\<open>sync_work\<close> steps, so that it cannot go on for ever either.\<close>

theorem sync_returns:
  assumes "sync_reachable on_loop never n s"
  shows "((\<exists>c < n. callers s ! c \<noteq> Returned) \<longrightarrow> (\<exists>t. sync_step on_loop never s t \<and> \<not> stops s t))
    \<and> (\<forall>k t. (sync_step on_loop never ^^ k) s t \<longrightarrow> k \<le> sync_work s)"
proof (intro conjI impI allI)
  assume "\<exists>c < n. callers s ! c \<noteq> Returned"
  then show "\<exists>t. sync_step on_loop never s t \<and> \<not> stops s t"
    using sync_reachable_inv [OF assms] holder_moves outside_moves by (cases "lock s") blast+
qed (use sync_run_work in fastforce)

theorem sync_returns_witness:
  "\<exists>t. sync_step never never (one_call (Waiting 1) (Ran 1 0) (Some 0) 1 0 0 [] 1) t
     \<and> \<not> stops (one_call (Waiting 1) (Ran 1 0) (Some 0) 1 0 0 [] 1) t"
  using sync_returns [OF one_call_ran] by (simp add: one_call_def)



end
