(* ===== verification/Reactor_Core.thy ===== *)
theory Reactor_Core
  imports Abort_List Admission_Gate
begin

text \<open>
  \<^verbatim>\<open>Reactor\<close> of \<^verbatim>\<open>src/reactor.h\<close>, without \<^verbatim>\<open>on_loop_sync\<close> (theory \<open>Loop_Sync\<close>): the
  abortables it tracks, the two stages of shutdown, and the count of its sessions. The
  reactor extends the store of \<open>Abort_List\<close> with its members and with the history of
  the calls of \<^verbatim>\<open>track\<close>, \<^verbatim>\<open>abort\<close> and \<^verbatim>\<open>force\<close>.

  \<^verbatim>\<open>abort()\<close> and \<^verbatim>\<open>force()\<close> are virtual: what a caller's override does with the
  reactor is a finite tree of tracks and untracks, given per call; a track in such a
  tree carries the trees of the calls it may cause. No bound is put on them.

  Shown: however tracking, untracking and the two walks follow each other, and whatever
  the overrides track and untrack while they run, a walk returns, and once \<^verbatim>\<open>abort_all\<close>
  has walked every tracked object has been aborted since it was tracked (and not before
  \<^verbatim>\<open>abort_all\<close>); the same for \<^verbatim>\<open>force_all\<close>; \<^verbatim>\<open>abort_all\<close> walks once however often
  it is called.
\<close>

section \<open>The loop's thread\<close>

text \<open>\<^verbatim>\<open>run_depth\<close> of a thread: an unsigned counter; \<^verbatim>\<open>RunScope\<close> raises it for its lifetime.\<close>

definition run_scope_enter :: "32 word \<Rightarrow> 32 word" where
  "run_scope_enter depth = depth + 1"

definition run_scope_exit :: "32 word \<Rightarrow> 32 word" where
  "run_scope_exit depth = depth - 1"

definition inside_run :: "32 word \<Rightarrow> bool" where
  "inside_run depth \<longleftrightarrow> depth \<noteq> 0"

text \<open>\<^verbatim>\<open>Reactor::run\<close>: what \<^verbatim>\<open>io_.run()\<close> does with the depth of the thread, in the scope of a \<^verbatim>\<open>RunScope\<close>.\<close>

definition run_loop :: "(32 word \<Rightarrow> 32 word) \<Rightarrow> 32 word \<Rightarrow> 32 word" where
  "run_loop io_run depth = run_scope_exit (io_run (run_scope_enter depth))"

text \<open>Scopes nest: a thread is inside a loop exactly while one of its scopes is open, and a run that
  leaves the depth as it found it does so too.\<close>

lemma run_scopes_nest:
  assumes "n < 2 ^ 32"
  shows "inside_run ((run_scope_enter ^^ n) 0) \<longleftrightarrow> 0 < n"
    and "(\<And>d. io_run d = d) \<Longrightarrow> run_loop io_run depth = depth"
proof -
  have "(run_scope_enter ^^ n) 0 = (of_nat n :: 32 word)"
    by (induction n) (simp_all add: run_scope_enter_def)
  moreover have "unat (of_nat n :: 32 word) = n"
    using assms by (simp add: unat_of_nat take_bit_nat_eq_self)
  ultimately show "inside_run ((run_scope_enter ^^ n) 0) \<longleftrightarrow> 0 < n"
    by (cases "n = 0") (auto simp: inside_run_def)
  show "(\<And>d. io_run d = d) \<Longrightarrow> run_loop io_run depth = depth"
    by (simp add: run_loop_def run_scope_enter_def run_scope_exit_def)
qed

section \<open>The reactor\<close>

datatype call = Tracked nat | Aborted nat | Forced nat

record reactor = store +
  sessions :: u64
  aborting :: bool
  walked :: bool
  forced :: bool
  walks_due :: nat
  walks :: nat
  calls :: "call list"

text \<open>A fresh reactor; the list of a reactor is list 0 of its store. The admission gate
  (\<open>Admission_Gate\<close>), the loop claim (\<open>Loop_Sync\<close>) and the lag probe are their own
  theories.\<close>

definition reactor_initial :: reactor where
  "reactor_initial =
     \<lparr>nodes = (\<lambda>_. fresh_node), lists = (\<lambda>_. \<lparr>list_head = None, list_cursor = None\<rparr>),
      sessions = 0, aborting = False, walked = False, forced = False, walks_due = 0, walks = 0, calls = []\<rparr>"

definition note_call :: "call \<Rightarrow> 'z reactor_scheme \<Rightarrow> 'z reactor_scheme" where
  "note_call c r = r\<lparr>calls := c # calls r\<rparr>"

text \<open>\<open>ab\<close> and \<open>fo\<close>: what \<^verbatim>\<open>a.abort()\<close> and \<^verbatim>\<open>a.force()\<close> do.\<close>

definition track :: "('z reactor_scheme \<Rightarrow> 'z reactor_scheme) \<Rightarrow> ('z reactor_scheme \<Rightarrow> 'z reactor_scheme) \<Rightarrow> nat \<Rightarrow> 'z reactor_scheme \<Rightarrow> 'z reactor_scheme" where
  "track ab fo a r =
     (let r1 = note_call (Tracked a) (add 0 a r);
          r2 = (if walked r1 then ab (note_call (Aborted a) r1) else r1)
      in if forced r2 then fo (note_call (Forced a) r2) else r2)"

definition untrack :: "nat \<Rightarrow> 'z reactor_scheme \<Rightarrow> 'z reactor_scheme" where
  "untrack a r = remove 0 a r"

text \<open>\<^verbatim>\<open>abort_all\<close> on its caller's thread, up to \<^verbatim>\<open>on_loop_sync\<close>; then the function it
  runs on the loop. \<^verbatim>\<open>force_all\<close> is only such a function.\<close>

definition abort_all :: "'z reactor_scheme \<Rightarrow> 'z reactor_scheme" where
  "abort_all r = (if aborting r then r else r\<lparr>aborting := True, walks_due := walks_due r + 1\<rparr>)"

definition abort_walk :: "(nat \<Rightarrow> 'z reactor_scheme \<Rightarrow> 'z reactor_scheme) \<Rightarrow> 'z reactor_scheme \<Rightarrow> 'z reactor_scheme option" where
  "abort_walk ab r =
     each 0 (\<lambda>a r. Some (ab a (note_call (Aborted a) r)))
       (r\<lparr>walked := True, walks_due := walks_due r - 1, walks := walks r + 1\<rparr>)"

definition force_walk :: "(nat \<Rightarrow> 'z reactor_scheme \<Rightarrow> 'z reactor_scheme) \<Rightarrow> 'z reactor_scheme \<Rightarrow> 'z reactor_scheme option" where
  "force_walk fo r = each 0 (\<lambda>a r. Some (fo a (note_call (Forced a) r))) (r\<lparr>forced := True\<rparr>)"

definition stopping :: "'z reactor_scheme \<Rightarrow> bool" where
  "stopping r = aborting r"

definition session_started :: "'z reactor_scheme \<Rightarrow> 'z reactor_scheme" where
  "session_started r = r\<lparr>sessions := sessions r + 1\<rparr>"

definition session_finished :: "'z reactor_scheme \<Rightarrow> 'z reactor_scheme" where
  "session_finished r = r\<lparr>sessions := sessions r - 1\<rparr>"

text \<open>The condition \<^verbatim>\<open>wait_sessions\<close> and \<^verbatim>\<open>wait_sessions_until\<close> wait for.\<close>

definition sessions_ended :: "'z reactor_scheme \<Rightarrow> bool" where
  "sessions_ended r \<longleftrightarrow> sessions r = 0"

section \<open>What runs on the loop\<close>

text \<open>An override's behaviour. An object that is already tracked is not tracked again.\<close>

datatype act = Untrack nat | Track nat "act list" "act list"

lemma track_cong [fundef_cong]:
  "(\<And>r. ab r = ab' r) \<Longrightarrow> (\<And>r. fo r = fo' r) \<Longrightarrow> a = a' \<Longrightarrow> r = r' \<Longrightarrow>
     track ab fo a r = track ab' fo' a' r'"
  by (simp add: track_def Let_def)

fun perform :: "act \<Rightarrow> 'z reactor_scheme \<Rightarrow> 'z reactor_scheme"
  and performs :: "act list \<Rightarrow> 'z reactor_scheme \<Rightarrow> 'z reactor_scheme" where
  "perform (Untrack a) r = untrack a r"
| "perform (Track a as bs) r =
     (if hook_list (nodes r a) = None then track (performs as) (performs bs) a r else r)"
| "performs [] r = r"
| "performs (x # xs) r = performs xs (perform x r)"

text \<open>What happens to a reactor: something on its loop tracks or untracks, some thread calls
  \<^verbatim>\<open>abort_all\<close>, the loop runs the walk this asked for, or the walk of a \<^verbatim>\<open>force_all\<close>.
  The walks carry the behaviour of the overrides they call.\<close>

datatype reactor_op = Act act | Abort_all | Abort_walk "nat \<Rightarrow> act list" | Force_walk "nat \<Rightarrow> act list"

fun reactor_step :: "reactor_op \<Rightarrow> reactor \<Rightarrow> reactor option" where
  "reactor_step (Act x) r = Some (perform x r)"
| "reactor_step Abort_all r = Some (abort_all r)"
| "reactor_step (Abort_walk beh) r = (if walks_due r = 0 then Some r else abort_walk (\<lambda>a. performs (beh a)) r)"
| "reactor_step (Force_walk beh) r = force_walk (\<lambda>a. performs (beh a)) r"

fun reactor_run :: "reactor_op list \<Rightarrow> reactor \<Rightarrow> reactor option" where
  "reactor_run [] r = Some r"
| "reactor_run (x # xs) r = Option.bind (reactor_step x r) (reactor_run xs)"

section \<open>Invariant\<close>

text \<open>\<open>c a\<close> has been called since \<open>a\<close> was last tracked (the history is newest first).\<close>

definition since_tracked :: "(nat \<Rightarrow> call) \<Rightarrow> call list \<Rightarrow> nat \<Rightarrow> bool" where
  "since_tracked c cs a \<longleftrightarrow> c a \<in> set (takeWhile (\<lambda>x. x \<noteq> Tracked a) cs)"

text \<open>Every tracked object has had its call, but those in \<open>P\<close>, whose call is still to come.\<close>

definition settled :: "(nat \<Rightarrow> call) \<Rightarrow> 'z reactor_scheme \<Rightarrow> nat list \<Rightarrow> nat set \<Rightarrow> bool" where
  "settled c r xs P \<longleftrightarrow> (\<forall>a \<in> set xs. a \<in> P \<or> since_tracked c (calls r) a)"

definition swept :: "'z reactor_scheme \<Rightarrow> nat list \<Rightarrow> nat set \<Rightarrow> nat set \<Rightarrow> bool" where
  "swept r xs P Q \<longleftrightarrow> (walked r \<longrightarrow> settled Aborted r xs P) \<and> (forced r \<longrightarrow> settled Forced r xs Q)
     \<and> (\<not> walked r \<longrightarrow> (\<forall>a. Aborted a \<notin> set (calls r)))
     \<and> (\<not> forced r \<longrightarrow> (\<forall>a. Forced a \<notin> set (calls r)))"

text \<open>The list holds \<open>xs\<close>, a walk has \<open>ys\<close> to visit: an abort walk if \<open>pa\<close>, a force walk if \<open>pf\<close>.\<close>

definition reactor_inv :: "bool \<Rightarrow> bool \<Rightarrow> nat set \<Rightarrow> nat set \<Rightarrow> 'z reactor_scheme \<Rightarrow> nat list \<Rightarrow> nat list \<Rightarrow> bool" where
  "reactor_inv pa pf P Q r xs ys \<longleftrightarrow> represents r 0 xs ys
     \<and> swept r xs ((if pa then set ys else {}) \<union> P) ((if pf then set ys else {}) \<union> Q)"

definition flags :: "'z reactor_scheme \<Rightarrow> bool \<times> bool \<times> bool \<times> nat \<times> nat" where
  "flags r = (aborting r, walked r, forced r, walks_due r, walks r)"

lemma since_tracked_simps [simp]:
  "since_tracked c (Tracked b # cs) a \<longleftrightarrow> c a = Tracked b \<and> b \<noteq> a \<or> a \<noteq> b \<and> since_tracked c cs a"
  "since_tracked c (Aborted b # cs) a \<longleftrightarrow> c a = Aborted b \<or> since_tracked c cs a"
  "since_tracked c (Forced b # cs) a \<longleftrightarrow> c a = Forced b \<or> since_tracked c cs a"
  by (auto simp: since_tracked_def)

lemma store_ops_fields [simp]:
  "calls (add L a r) = calls r" "flags (add L a r) = flags r"
  "walked (add L a r) = walked r" "forced (add L a r) = forced r"
  "calls (remove L a r) = calls r" "flags (remove L a r) = flags r"
  "walked (remove L a r) = walked r" "forced (remove L a r) = forced r"
  "calls (set_cursor L c r) = calls r" "flags (set_cursor L c r) = flags r"
  "walked (set_cursor L c r) = walked r" "forced (set_cursor L c r) = forced r"
  by (simp_all add: add_def remove_def flags_def Let_def set_node_def set_list_def set_cursor_def
      split: option.splits)

lemma note_call_fields [simp]:
  "calls (note_call c r) = c # calls r" "flags (note_call c r) = flags r"
  "walked (note_call c r) = walked r" "forced (note_call c r) = forced r"
  "represents (note_call c r) L xs ys = represents r L xs ys"
  by (simp_all add: note_call_def flags_def represents_def)

lemma represents_distinct:
  "represents r L xs ys \<Longrightarrow> distinct xs \<and> distinct ys \<and> set ys \<subseteq> set xs"
  by (auto simp: represents_def)

lemma untrack_inv:
  assumes "reactor_inv pa pf P Q r xs ys"
  shows "reactor_inv pa pf P Q (untrack a r) (remove1 a xs) (remove1 a ys)"
  using assms remove_represents [of r 0 xs ys a] represents_distinct [of r 0 xs ys]
  by (auto simp: reactor_inv_def swept_def settled_def untrack_def)

lemma note_aborted_inv:
  "reactor_inv pa pf P Q r xs ys \<Longrightarrow> walked r \<Longrightarrow> reactor_inv pa pf (P - {a}) Q (note_call (Aborted a) r) xs ys"
  by (auto simp: reactor_inv_def swept_def settled_def)

lemma note_forced_inv:
  "reactor_inv pa pf P Q r xs ys \<Longrightarrow> forced r \<Longrightarrow> reactor_inv pa pf P (Q - {a}) (note_call (Forced a) r) xs ys"
  by (auto simp: reactor_inv_def swept_def settled_def)

lemma add_inv:
  assumes "reactor_inv pa pf P Q r xs ys" and "hook_list (nodes r a) = None"
  shows "reactor_inv pa pf (P \<union> {a}) (Q \<union> {a}) (note_call (Tracked a) (add 0 a r)) (a # xs) ys"
  using assms add_represents [of r 0 xs ys a]
  by (auto simp: reactor_inv_def swept_def settled_def)

text \<open>What an operation on the loop keeps: the invariant, for some list and some rest of the
  walk not longer than before, and the flags.\<close>

definition keeps :: "bool \<Rightarrow> bool \<Rightarrow> ('z reactor_scheme \<Rightarrow> 'z reactor_scheme) \<Rightarrow> bool" where
  "keeps pa pf f \<longleftrightarrow> (\<forall>P Q r xs ys. reactor_inv pa pf P Q r xs ys \<longrightarrow>
     flags (f r) = flags r \<and> (\<exists>xs' ys'. reactor_inv pa pf P Q (f r) xs' ys' \<and> length ys' \<le> length ys))"

lemma keepsD:
  assumes "keeps pa pf f" and "reactor_inv pa pf P Q r xs ys"
  obtains xs' ys' where "reactor_inv pa pf P Q (f r) xs' ys'" and "length ys' \<le> length ys"
    and "flags (f r) = flags r"
  using assms unfolding keeps_def by blast

lemma keepsI:
  assumes "\<And>P Q r xs ys. reactor_inv pa pf P Q r xs ys \<Longrightarrow>
    flags (f r) = flags r \<and> (\<exists>xs' ys'. reactor_inv pa pf P Q (f r) xs' ys' \<and> length ys' \<le> length ys)"
  shows "keeps pa pf f"
  using assms unfolding keeps_def by blast

lemma inv_not_walked: "reactor_inv pa pf P Q r xs ys \<Longrightarrow> \<not> walked r \<Longrightarrow> reactor_inv pa pf P' Q r xs ys"
  by (simp add: reactor_inv_def swept_def)

lemma inv_not_forced: "reactor_inv pa pf P Q r xs ys \<Longrightarrow> \<not> forced r \<Longrightarrow> reactor_inv pa pf P Q' r xs ys"
  by (simp add: reactor_inv_def swept_def)

lemma inv_mono: "reactor_inv pa pf P Q r xs ys \<Longrightarrow> P \<subseteq> P' \<Longrightarrow> Q \<subseteq> Q' \<Longrightarrow> reactor_inv pa pf P' Q' r xs ys"
  by (auto simp: reactor_inv_def swept_def settled_def)

lemma flags_eqD: "flags r = flags r' \<Longrightarrow> walked r = walked r' \<and> forced r = forced r'"
  by (simp add: flags_def)

lemma track_keeps:
  assumes ab: "keeps pa pf ab" and fo: "keeps pa pf fo"
    and inv: "reactor_inv pa pf P Q r xs ys" and a: "hook_list (nodes r a) = None"
  shows "flags (track ab fo a r) = flags r
    \<and> (\<exists>xs' ys'. reactor_inv pa pf P Q (track ab fo a r) xs' ys' \<and> length ys' \<le> length ys)"
proof -
  define r1 where "r1 = note_call (Tracked a) (add 0 a r)"
  define r2 where "r2 = (if walked r1 then ab (note_call (Aborted a) r1) else r1)"
  have i1: "reactor_inv pa pf (P \<union> {a}) (Q \<union> {a}) r1 (a # xs) ys"
    unfolding r1_def by (rule add_inv [OF inv a])
  obtain xs2 ys2 where i2: "reactor_inv pa pf P (Q \<union> {a}) r2 xs2 ys2" and l2: "length ys2 \<le> length ys"
    and f2: "flags r2 = flags r"
  proof (cases "walked r1")
    case True
    have "reactor_inv pa pf P (Q \<union> {a}) (note_call (Aborted a) r1) (a # xs) ys"
      by (rule inv_mono [OF note_aborted_inv [OF i1 True, of a]]) auto
    from keepsD [OF ab this] obtain xs' ys' where
      "reactor_inv pa pf P (Q \<union> {a}) (ab (note_call (Aborted a) r1)) xs' ys'"
      "length ys' \<le> length ys" "flags (ab (note_call (Aborted a) r1)) = flags (note_call (Aborted a) r1)" .
    then show thesis
      using True by (intro that [of xs' ys']) (simp_all add: r2_def r1_def)
  next
    case False
    then show thesis
      using that [of "a # xs" ys] inv_not_walked [OF i1, of P] by (simp add: r2_def r1_def)
  qed
  have t: "track ab fo a r = (if forced r2 then fo (note_call (Forced a) r2) else r2)"
    by (simp add: track_def r1_def r2_def Let_def)
  show ?thesis
  proof (cases "forced r2")
    case True
    have "reactor_inv pa pf P Q (note_call (Forced a) r2) xs2 ys2"
      by (rule inv_mono [OF note_forced_inv [OF i2 True, of a]]) auto
    from keepsD [OF fo this] obtain xs' ys' where
      "reactor_inv pa pf P Q (fo (note_call (Forced a) r2)) xs' ys'"
      "length ys' \<le> length ys2" "flags (fo (note_call (Forced a) r2)) = flags (note_call (Forced a) r2)" .
    then show ?thesis
      using True f2 l2 unfolding t by (intro conjI exI [of _ xs'] exI [of _ ys']) simp_all
  next
    case False
    then show ?thesis
      using inv_not_forced [OF i2, of Q] f2 l2 unfolding t by auto
  qed
qed

lemma keeps_id: "keeps pa pf (\<lambda>r. r)"
  by (auto simp: keeps_def)

lemma keeps_comp:
  fixes f g :: "'z reactor_scheme \<Rightarrow> 'z reactor_scheme"
  assumes f: "keeps pa pf f" and g: "keeps pa pf g"
  shows "keeps pa pf (\<lambda>r. g (f r))"
proof (rule keepsI)
  fix P Q xs ys and r :: "'z reactor_scheme"
  assume "reactor_inv pa pf P Q r xs ys"
  from keepsD [OF f this] obtain xs1 ys1
    where i1: "reactor_inv pa pf P Q (f r) xs1 ys1" and "length ys1 \<le> length ys" "flags (f r) = flags r" .
  moreover from keepsD [OF g i1] obtain xs2 ys2
    where "reactor_inv pa pf P Q (g (f r)) xs2 ys2" and "length ys2 \<le> length ys1" "flags (g (f r)) = flags (f r)" .
  ultimately show "flags (g (f r)) = flags r
      \<and> (\<exists>xs' ys'. reactor_inv pa pf P Q (g (f r)) xs' ys' \<and> length ys' \<le> length ys)"
    by (intro conjI exI [of _ xs2] exI [of _ ys2]) auto
qed

lemma performs_keep:
  "(\<And>x. x \<in> set xs \<Longrightarrow> keeps pa pf (perform x :: 'z reactor_scheme \<Rightarrow> _)) \<Longrightarrow>
     keeps pa pf (performs xs :: 'z reactor_scheme \<Rightarrow> _)"
proof (induction xs)
  case Nil
  have "performs [] = (\<lambda>r :: 'z reactor_scheme. r)" by (rule ext) simp
  then show ?case using keeps_id by simp
next
  case (Cons x xs)
  have "performs (x # xs) = (\<lambda>r :: 'z reactor_scheme. performs xs (perform x r))" by (rule ext) simp
  then show ?case using keeps_comp [of pa pf "perform x :: 'z reactor_scheme \<Rightarrow> _" "performs xs"] Cons by simp
qed

lemma untrack_keeps: "keeps pa pf (untrack a :: 'z reactor_scheme \<Rightarrow> _)"
proof (rule keepsI)
  fix P Q xs ys and r :: "'z reactor_scheme"
  assume "reactor_inv pa pf P Q r xs ys"
  from untrack_inv [OF this, of a] show "flags (untrack a r) = flags r
      \<and> (\<exists>xs' ys'. reactor_inv pa pf P Q (untrack a r) xs' ys' \<and> length ys' \<le> length ys)"
    by (intro conjI exI [of _ "remove1 a xs"] exI [of _ "remove1 a ys"]) (auto simp: length_remove1 untrack_def)
qed

lemma perform_keeps: "keeps pa pf (perform x :: 'z reactor_scheme \<Rightarrow> _)"
proof (induction x)
  case (Untrack a)
  have "perform (Untrack a) = (untrack a :: 'z reactor_scheme \<Rightarrow> _)" by (rule ext) simp
  then show ?case using untrack_keeps by simp
next
  case (Track a as bs)
  show ?case
  proof (rule keepsI)
    fix P Q xs ys and r :: "'z reactor_scheme"
    assume inv: "reactor_inv pa pf P Q r xs ys"
    show "flags (perform (Track a as bs) r) = flags r
      \<and> (\<exists>xs' ys'. reactor_inv pa pf P Q (perform (Track a as bs) r) xs' ys' \<and> length ys' \<le> length ys)"
    proof (cases "hook_list (nodes r a) = None")
      case True
      then show ?thesis
        using track_keeps [OF performs_keep performs_keep inv, of as bs a] Track by simp
    next
      case False
      then show ?thesis using inv by auto
    qed
  qed
qed

lemma performs_keeps: "keeps pa pf (performs xs)"
  by (rule performs_keep) (rule perform_keeps)

text \<open>An override that leaves the store, the flags and the history alone keeps the invariant.\<close>

lemma keeps_frame:
  fixes f :: "'z reactor_scheme \<Rightarrow> 'z reactor_scheme"
  assumes "\<And>r. nodes (f r) = nodes r \<and> lists (f r) = lists r \<and> flags (f r) = flags r \<and> calls (f r) = calls r"
  shows "keeps pa pf f"
proof (rule keepsI)
  fix P Q xs ys and r :: "'z reactor_scheme"
  assume "reactor_inv pa pf P Q r xs ys"
  then have "reactor_inv pa pf P Q (f r) xs ys"
    using assms [of r] by (auto simp: reactor_inv_def swept_def settled_def flags_def represents_cong [of "f r" r])
  then show "flags (f r) = flags r
      \<and> (\<exists>xs' ys'. reactor_inv pa pf P Q (f r) xs' ys' \<and> length ys' \<le> length ys)"
    using assms [of r] by auto
qed

section \<open>The walks\<close>

definition abort_walk_inv :: "bool \<times> bool \<times> bool \<times> nat \<times> nat \<Rightarrow> 'z reactor_scheme \<Rightarrow> nat list \<Rightarrow> nat list \<Rightarrow> bool" where
  "abort_walk_inv F r xs ys \<longleftrightarrow> swept r xs (set ys) {} \<and> walked r \<and> flags r = F"

definition force_walk_inv :: "bool \<times> bool \<times> bool \<times> nat \<times> nat \<Rightarrow> 'z reactor_scheme \<Rightarrow> nat list \<Rightarrow> nat list \<Rightarrow> bool" where
  "force_walk_inv F r xs ys \<longleftrightarrow> swept r xs {} (set ys) \<and> forced r \<and> flags r = F"

lemma set_cursor_swept [simp]: "swept (set_cursor L c r) xs P Q = swept r xs P Q"
  by (simp add: swept_def settled_def)

text \<open>Between the operations no walk is in progress; \<^verbatim>\<open>abort_all\<close> has asked for one walk
  or none.\<close>

definition reactor_ok :: "'z reactor_scheme \<Rightarrow> nat list \<Rightarrow> bool" where
  "reactor_ok r xs \<longleftrightarrow> reactor_inv False False {} {} r xs []
     \<and> walks r + walks_due r = (if aborting r then 1 else 0) \<and> (walked r \<longleftrightarrow> walks r = 1)"

text \<open>The contract of the overrides \<^verbatim>\<open>abort()\<close> and \<^verbatim>\<open>force()\<close> with the walks: what they keep
  of the reactor, and an invariant \<open>J\<close> of their own, over the state they share with it.\<close>

locale overrides =
  fixes ab fo :: "nat \<Rightarrow> 'z reactor_scheme \<Rightarrow> 'z reactor_scheme"
    and J :: "'z reactor_scheme \<Rightarrow> bool"
  assumes ab_keeps: "keeps True False (ab a)"
    and fo_keeps: "keeps False True (fo a)"
    and ab_own: "J r \<Longrightarrow> walked r \<Longrightarrow> J (ab a (note_call (Aborted a) r))"
    and fo_own: "J r \<Longrightarrow> forced r \<Longrightarrow> J (fo a (note_call (Forced a) r))"
    and cursor_own: "J r \<Longrightarrow> J (set_cursor 0 c r)"
    and walked_own: "J r \<Longrightarrow> J (r\<lparr>walked := True, walks_due := n, walks := m\<rparr>)"
    and forced_own: "J r \<Longrightarrow> J (r\<lparr>forced := True\<rparr>)"
begin

lemma abort_callback:
  assumes "represents r 0 xs (y # ys)" and "abort_walk_inv F r xs (y # ys) \<and> J r"
  shows "\<exists>r' xs' ys'. Some (ab y (note_call (Aborted y) (set_cursor 0 (hook_next (nodes r y)) r))) = Some r'
    \<and> represents r' 0 xs' ys' \<and> (abort_walk_inv F r' xs' ys' \<and> J r') \<and> length ys' \<le> length ys"
proof -
  let ?r = "set_cursor 0 (hook_next (nodes r y)) r"
  have w: "walked ?r" and fl: "flags ?r = F" and own: "J (ab y (note_call (Aborted y) ?r))"
    using assms(2) by (simp_all add: abort_walk_inv_def ab_own cursor_own)
  have "reactor_inv True False {y} {} ?r xs ys"
    using assms represents_advance [OF assms(1)]
    by (auto simp: reactor_inv_def abort_walk_inv_def insert_commute)
  from note_aborted_inv [OF this w, of y] have "reactor_inv True False {} {} (note_call (Aborted y) ?r) xs ys"
    by simp
  from keepsD [OF ab_keeps this, of y] obtain xs' ys' where
    "reactor_inv True False {} {} (ab y (note_call (Aborted y) ?r)) xs' ys'" "length ys' \<le> length ys"
    "flags (ab y (note_call (Aborted y) ?r)) = F"
    using fl by auto
  then show ?thesis
    using flags_eqD [of "ab y (note_call (Aborted y) ?r)" ?r] w fl own
    by (auto simp: reactor_inv_def abort_walk_inv_def)
qed

lemma force_callback:
  assumes "represents r 0 xs (y # ys)" and "force_walk_inv F r xs (y # ys) \<and> J r"
  shows "\<exists>r' xs' ys'. Some (fo y (note_call (Forced y) (set_cursor 0 (hook_next (nodes r y)) r))) = Some r'
    \<and> represents r' 0 xs' ys' \<and> (force_walk_inv F r' xs' ys' \<and> J r') \<and> length ys' \<le> length ys"
proof -
  let ?r = "set_cursor 0 (hook_next (nodes r y)) r"
  have w: "forced ?r" and fl: "flags ?r = F" and own: "J (fo y (note_call (Forced y) ?r))"
    using assms(2) by (simp_all add: force_walk_inv_def fo_own cursor_own)
  have "reactor_inv False True {} {y} ?r xs ys"
    using assms represents_advance [OF assms(1)]
    by (auto simp: reactor_inv_def force_walk_inv_def insert_commute)
  from note_forced_inv [OF this w, of y] have "reactor_inv False True {} {} (note_call (Forced y) ?r) xs ys"
    by simp
  from keepsD [OF fo_keeps this, of y] obtain xs' ys' where
    "reactor_inv False True {} {} (fo y (note_call (Forced y) ?r)) xs' ys'" "length ys' \<le> length ys"
    "flags (fo y (note_call (Forced y) ?r)) = F"
    using fl by auto
  then show ?thesis
    using flags_eqD [of "fo y (note_call (Forced y) ?r)" ?r] w fl own
    by (auto simp: reactor_inv_def force_walk_inv_def)
qed

end

sublocale overrides \<subseteq> aborting_walk: walk_callback 0
  "\<lambda>a r. Some (ab a (note_call (Aborted a) r))" "\<lambda>r xs ys. abort_walk_inv F r xs ys \<and> J r" for F
proof
  show "\<And>r xs ys c. abort_walk_inv F r xs ys \<and> J r \<Longrightarrow>
      abort_walk_inv F (set_cursor 0 c r) xs ys \<and> J (set_cursor 0 c r)"
    by (simp add: abort_walk_inv_def cursor_own)
qed (rule abort_callback)

sublocale overrides \<subseteq> forcing_walk: walk_callback 0
  "\<lambda>a r. Some (fo a (note_call (Forced a) r))" "\<lambda>r xs ys. force_walk_inv F r xs ys \<and> J r" for F
proof
  show "\<And>r xs ys c. force_walk_inv F r xs ys \<and> J r \<Longrightarrow>
      force_walk_inv F (set_cursor 0 c r) xs ys \<and> J (set_cursor 0 c r)"
    by (simp add: force_walk_inv_def cursor_own)
qed (rule force_callback)

context overrides
begin

lemma abort_walk_ok:
  assumes ok: "reactor_ok r xs" and due: "walks_due r \<noteq> 0" and own: "J r"
  shows "\<exists>r' xs'. abort_walk ab r = Some r' \<and> reactor_ok r' xs' \<and> walked r' \<and> J r'"
proof -
  let ?r = "r\<lparr>walked := True, walks_due := walks_due r - 1, walks := walks r + 1\<rparr>"
  have "represents ?r 0 xs []"
    using ok by (simp add: reactor_ok_def reactor_inv_def represents_def)
  moreover have "abort_walk_inv (flags ?r) ?r xs xs \<and> J ?r"
    using ok due walked_own [OF own]
    by (auto simp: abort_walk_inv_def reactor_ok_def reactor_inv_def swept_def settled_def split: if_splits)
  ultimately obtain r' xs' where "abort_walk ab r = Some r'"
    "represents r' 0 xs' []" "abort_walk_inv (flags ?r) r' xs' []" "J r'"
    unfolding abort_walk_def using aborting_walk.each_keeps [of ?r xs "flags ?r"] by blast
  moreover have "walks r = 0" "walks_due r = 1" "aborting r"
    using ok due by (auto simp: reactor_ok_def split: if_splits)
  ultimately show ?thesis
    by (auto simp: abort_walk_inv_def reactor_ok_def reactor_inv_def flags_def)
qed

lemma force_walk_ok:
  assumes ok: "reactor_ok r xs" and own: "J r"
  shows "\<exists>r' xs'. force_walk fo r = Some r' \<and> reactor_ok r' xs' \<and> forced r' \<and> J r'"
proof -
  let ?r = "r\<lparr>forced := True\<rparr>"
  have "represents ?r 0 xs []"
    using ok by (simp add: reactor_ok_def reactor_inv_def represents_def)
  moreover have "force_walk_inv (flags ?r) ?r xs xs \<and> J ?r"
    using ok forced_own [OF own]
    by (auto simp: force_walk_inv_def reactor_ok_def reactor_inv_def swept_def settled_def split: if_splits)
  ultimately obtain r' xs' where "force_walk fo r = Some r'"
    "represents r' 0 xs' []" "force_walk_inv (flags ?r) r' xs' []" "J r'"
    unfolding force_walk_def using forcing_walk.each_keeps [of ?r xs "flags ?r"] by blast
  then show ?thesis
    using ok by (auto simp: force_walk_inv_def reactor_ok_def reactor_inv_def flags_def)
qed

end

text \<open>The overrides that track and untrack.\<close>

interpretation acting: overrides "\<lambda>a. performs (beh a)" "\<lambda>a. performs (beh' a)" "\<lambda>_. True" for beh beh'
  by unfold_locales (simp_all add: performs_keeps)

lemma reactor_ok_initial: "reactor_ok reactor_initial []"
  by (simp add: reactor_ok_def reactor_inv_def reactor_initial_def represents_def swept_def)

lemma abort_all_ok: "reactor_ok r xs \<Longrightarrow> reactor_ok (abort_all r) xs"
  by (auto simp: abort_all_def reactor_ok_def reactor_inv_def represents_def swept_def settled_def)

lemma perform_ok:
  assumes "reactor_ok r xs"
  shows "\<exists>xs'. reactor_ok (perform x r) xs'"
proof -
  have "reactor_inv False False {} {} r xs []"
    using assms by (simp add: reactor_ok_def)
  from keepsD [OF perform_keeps this, of x] obtain xs' where
    "reactor_inv False False {} {} (perform x r) xs' []" "flags (perform x r) = flags r"
    by auto
  then show ?thesis
    using assms by (auto simp: reactor_ok_def flags_def)
qed

lemma reactor_step_ok:
  assumes "reactor_ok r xs"
  shows "\<exists>r' xs'. reactor_step x r = Some r' \<and> reactor_ok r' xs'"
proof (cases x)
  case (Act y)
  then show ?thesis using perform_ok [OF assms] by simp
next
  case Abort_all
  then show ?thesis using abort_all_ok [OF assms] by auto
next
  case (Abort_walk beh)
  then show ?thesis using assms acting.abort_walk_ok [OF assms, of beh] by auto
next
  case (Force_walk beh)
  then show ?thesis using acting.force_walk_ok [OF assms, of beh] by auto
qed

lemma reactor_run_ok:
  "reactor_ok r xs \<Longrightarrow> \<exists>r' xs'. reactor_run ops r = Some r' \<and> reactor_ok r' xs'"
proof (induction ops arbitrary: r xs)
  case (Cons x ops)
  obtain r' xs' where "reactor_step x r = Some r'" "reactor_ok r' xs'"
    using reactor_step_ok [OF Cons.prems] by blast
  then show ?case using Cons.IH [of r' xs'] by simp
qed auto

section \<open>Properties\<close>

text \<open>C2: shutdown reaches everything that is tracked. After any sequence of operations on a
  fresh reactor, with any behaviour of the overrides, every operation has returned;
  if the walk of \<^verbatim>\<open>abort_all\<close> has run, every object on the list has had \<^verbatim>\<open>abort()\<close>
  called since it was tracked, whether it was tracked before, in the middle of or after
  the walk; likewise \<^verbatim>\<open>force()\<close> once \<^verbatim>\<open>force_all\<close> has run; and without the walk the
  call is never made.\<close>

theorem shutdown_reaches_tracked:
  "\<exists>r. reactor_run ops reactor_initial = Some r
     \<and> (walked r \<longrightarrow> (\<forall>a. hook_list (nodes r a) = Some 0 \<longrightarrow> since_tracked Aborted (calls r) a))
     \<and> (forced r \<longrightarrow> (\<forall>a. hook_list (nodes r a) = Some 0 \<longrightarrow> since_tracked Forced (calls r) a))
     \<and> (\<not> walked r \<longrightarrow> (\<forall>a. Aborted a \<notin> set (calls r)))
     \<and> (\<not> forced r \<longrightarrow> (\<forall>a. Forced a \<notin> set (calls r)))"
proof -
  obtain r xs where run: "reactor_run ops reactor_initial = Some r" and ok: "reactor_ok r xs"
    using reactor_run_ok [OF reactor_ok_initial] by blast
  have "represents r 0 xs []" and "swept r xs {} {}"
    using ok by (simp_all add: reactor_ok_def reactor_inv_def)
  then show ?thesis
    using run represents_list_iff [of r 0 xs "[]"] by (auto simp: swept_def settled_def)
qed

text \<open>Object 1 is tracked before the shutdown; its \<^verbatim>\<open>abort()\<close> tracks object 2.\<close>

definition late_track :: "reactor_op list" where
  "late_track = [Act (Track 1 [] []), Abort_all, Abort_walk (\<lambda>_. [Track 2 [] []])]"

lemma late_track_run:
  "map_option (\<lambda>r. (walked r, hook_list (nodes r 2))) (reactor_run late_track reactor_initial) = Some (True, Some 0)"
  by (simp add: late_track_def reactor_initial_def track_def abort_all_def abort_walk_def note_call_def
      each_def each_loop.simps [of 0] add_def Let_def set_node_def set_list_def set_cursor_def)

theorem shutdown_reaches_tracked_witness:
  "\<exists>r. reactor_run late_track reactor_initial = Some r \<and> hook_list (nodes r 2) = Some 0
     \<and> since_tracked Aborted (calls r) 2"
  using shutdown_reaches_tracked [of late_track] late_track_run by auto

text \<open>\<^verbatim>\<open>abort_all\<close> is idempotent. However often and wherever it is called among other
  operations, at most one walk is made for it; while \<^verbatim>\<open>stopping()\<close> is true the one walk
  has been made or is due, and no further call asks for another.\<close>

theorem abort_all_walks_once:
  "\<exists>r. reactor_run ops reactor_initial = Some r
     \<and> walks r + walks_due r = (if stopping r then 1 else 0)
     \<and> (walked r \<longleftrightarrow> walks r = 1) \<and> abort_all (abort_all r) = abort_all r"
proof -
  obtain r xs where "reactor_run ops reactor_initial = Some r" and "reactor_ok r xs"
    using reactor_run_ok [OF reactor_ok_initial] by blast
  then show ?thesis
    by (auto simp: reactor_ok_def stopping_def abort_all_def)
qed

end
