(* ===== verification/Lag.thy ===== *)
theory Lag
  imports Prelude Complex_Main "HOL-Library.Log_Nat"
begin

text \<open>
  \<^verbatim>\<open>src/reactor_lag.h\<close>: the probe that measures how late a loop runs. The first section has
  the buckets of \<^verbatim>\<open>LagSnapshot\<close> over 64-bit words, the second \<^verbatim>\<open>quantile_upper_us\<close>
  with its double arithmetic, the third the state of the probe with one definition per
  operation (the clock readings are arguments), the fourth the allocator of its one slot.

  Shown: every lateness falls in the bucket whose edges enclose it, and the buckets tile
  the range with the documented resolution; the counters are the histogram, number, sum
  and maximum of the recorded latenesses and \<^verbatim>\<open>since\<close> gives those between two
  snapshots; a quantile is the upper edge of the bucket of the wake of that rank; one
  timer operation at most is in flight, the slot has one owner at most; the interval is
  the busy one exactly while activity was noticed within the last second.
\<close>

unbundle bit_operations_syntax

section \<open>Buckets\<close>

definition buckets :: nat where
  "buckets = 4 + 30 * 4"

text \<open>\<^verbatim>\<open>__builtin_clzll\<close>: the zero bits above the highest one bit.\<close>

definition clzll :: "u64 \<Rightarrow> nat" where
  "clzll w = length (takeWhile (\<lambda>n. \<not> bit w n) (rev [0..<64]))"

definition index_of :: "u64 \<Rightarrow> nat" where
  "index_of us =
     (if us < 4 then unat us
      else if push_bit 32 1 \<le> us then buckets - 1
      else let e = 63 - clzll us; sub = drop_bit (e - 2) us AND 3
           in 4 + (e - 2) * 4 + unat sub)"

definition upper_us :: "nat \<Rightarrow> u64" where
  "upper_us i =
     (if i < 4 then of_nat (i + 1)
      else let k = i - 4; e = k div 4 + 2 in push_bit (e - 2) (5 + of_nat (k mod 4)))"

definition lower_us :: "nat \<Rightarrow> u64" where
  "lower_us i = (if i = 0 then 0 else upper_us (i - 1))"

section \<open>Quantiles\<close>

text \<open>Doubles as the rationals they denote, for positive values in the normal range:
  rounding to nearest, ties to even, with 53 significant bits.\<close>

definition round_half_even :: "rat \<Rightarrow> int" where
  "round_half_even x =
     (let n = \<lfloor>x\<rfloor>; r = x - of_int n in
        if r < 1 / 2 \<or> r = 1 / 2 \<and> even n then n else n + 1)"

definition exponent :: "rat \<Rightarrow> int" where
  "exponent x =
     (let (p, d) = quotient_of x; e = int (floorlog 2 (nat p)) - int (floorlog 2 (nat d))
      in if 2 powi e \<le> x then e else e - 1)"

definition double_round :: "rat \<Rightarrow> rat" where
  "double_round x =
     (if x \<le> 0 then 0
      else let ulp = 2 powi (exponent x - 52) in of_int (round_half_even (x / ulp)) * ulp)"

definition to_double :: "u64 \<Rightarrow> rat" where
  "to_double w = double_round (of_nat (unat w))"

definition quantile_need :: "rat \<Rightarrow> u64 \<Rightarrow> u64" where
  "quantile_need q t =
     (let x = double_round (q * to_double t);
          need = of_int \<lfloor>x\<rfloor>;
          need = (if to_double need < x then need + 1 else need)
      in if need = 0 then 1 else need)"

fun quantile_scan :: "u64 list \<Rightarrow> nat \<Rightarrow> u64 \<Rightarrow> u64 \<Rightarrow> u64" where
  "quantile_scan [] i seen need = upper_us (buckets - 1)"
| "quantile_scan (c # cs) i seen need =
     (let seen = seen + c in if need \<le> seen then upper_us i else quantile_scan cs (i + 1) seen need)"

definition quantile_upper_us :: "u64 list \<Rightarrow> rat \<Rightarrow> u64" where
  "quantile_upper_us cnt q =
     (let t = fold (\<lambda>c t. t + c) cnt 0 in
        if t = 0 then 0 else quantile_scan cnt 0 0 (quantile_need q t))"

section \<open>Facts on the buckets\<close>

lemma takeWhile_rev_upt:
  assumes "m < n" and "P m" and "\<And>k. m < k \<Longrightarrow> k < n \<Longrightarrow> \<not> P k"
  shows "length (takeWhile (\<lambda>k. \<not> P k) (rev [0..<n])) = n - 1 - m"
  using assms
proof (induction n)
  case (Suc n)
  then show ?case by (cases "m = n") auto
qed simp

lemma bit_unat: "bit (w :: 'a::len word) n \<longleftrightarrow> odd (unat w div 2 ^ n)"
  using bit_unsigned_iff [where 'a = nat, of w n] by (simp add: bit_iff_odd)

lemma clzll_log:
  assumes "2 ^ e \<le> unat (w :: u64)" and "unat w < 2 ^ Suc e"
  shows "63 - clzll w = e"
proof -
  have "(2 :: nat) ^ e < 2 ^ 64"
    using assms(1) unat_bound [of w] by simp
  then have e: "e < 64"
    by (simp only: power_strict_increasing_iff)
  have one: "unat w div 2 ^ e = 1"
    using assms by (intro div_nat_eqI) simp_all
  have "unat w div 2 ^ k = 0" if "e < k" for k
    using assms(2) power_increasing [of "Suc e" k "2 :: nat"] that by simp
  then have "clzll w = 64 - 1 - e"
    unfolding clzll_def using e one
    by (intro takeWhile_rev_upt) (auto simp: bit_unat)
  then show ?thesis using e by simp
qed

text \<open>The edges as natural numbers.\<close>

definition edge :: "nat \<Rightarrow> nat" where
  "edge i = (if i < 4 then i + 1 else (5 + (i - 4) mod 4) * 2 ^ ((i - 4) div 4))"

lemma edge_bound: "i < buckets \<Longrightarrow> edge i \<le> 2 ^ 32"
proof (cases "i < 4")
  case False
  assume "i < buckets"
  then have "(i - 4) div 4 \<le> 29"
    using False by (simp add: buckets_def)
  then have "(2 :: nat) ^ ((i - 4) div 4) \<le> 2 ^ 29"
    by (rule power_increasing) simp
  moreover have "5 + (i - 4) mod 4 \<le> (8 :: nat)"
    using mod_less_divisor [of 4 "i - 4"] by linarith
  ultimately have "(5 + (i - 4) mod 4) * 2 ^ ((i - 4) div 4) \<le> 8 * 2 ^ 29"
    by (intro mult_mono) simp_all
  then show ?thesis using False by (simp add: edge_def)
qed (simp add: edge_def)

lemma unat_upper_us: "i < buckets \<Longrightarrow> unat (upper_us i) = edge i"
proof -
  assume i: "i < buckets"
  have "upper_us i = of_nat (edge i)"
    by (simp add: upper_us_def edge_def Let_def push_bit_eq_mult)
  moreover have "edge i < 2 ^ 64"
    using edge_bound [OF i] by simp
  ultimately show ?thesis
    by (simp add: unat_of_nat take_bit_eq_mod)
qed

lemma unat_lower_us: "i < buckets \<Longrightarrow> unat (lower_us i) = (if i = 0 then 0 else edge (i - 1))"
  by (simp add: lower_us_def unat_upper_us)

lemma edge_split:
  assumes "m < 4"
  shows "edge (4 + e * 4 + m) = (5 + m) * 2 ^ e"
    and "edge (4 + e * 4 + m - 1) = (4 + m) * 2 ^ e"
proof -
  show "edge (4 + e * 4 + m) = (5 + m) * 2 ^ e"
    using assms by (simp add: edge_def)
  show "edge (4 + e * 4 + m - 1) = (4 + m) * 2 ^ e"
  proof (cases m)
    case 0
    show ?thesis
    proof (cases e)
      case 0
      then show ?thesis using \<open>m = 0\<close> by (simp add: edge_def)
    next
      case (Suc d)
      then have "4 + e * 4 + m - 1 - 4 = 3 + d * 4" using \<open>m = 0\<close> by simp
      moreover have "\<not> 4 + e * 4 + m - 1 < 4" using Suc by simp
      ultimately show ?thesis using Suc \<open>m = 0\<close> unfolding edge_def by simp
    qed
  next
    case (Suc n)
    then have "4 + e * 4 + m - 1 - 4 = n + e * 4" "\<not> 4 + e * 4 + m - 1 < 4" by simp_all
    then show ?thesis using Suc assms unfolding edge_def by simp
  qed
qed

text \<open>A value between 4 and \<^verbatim>\<open>2^32\<close> by its exponent.\<close>

lemma log_exists: "0 < (n :: nat) \<Longrightarrow> \<exists>e. 2 ^ e \<le> n \<and> n < 2 ^ Suc e"
  using ex_power_ivl1 [of 2 n] by auto

lemma unat_mod_4: "unat (w AND 3 :: u64) = unat w mod 4"
proof -
  have "w AND 3 = take_bit 2 w"
    by (simp add: take_bit_eq_mask mask_eq_exp_minus_1)
  then show ?thesis
    by (simp add: take_bit_eq_mod unat_mod)
qed

lemma index_of_log:
  assumes e: "2 ^ (e + 2) \<le> unat us" "unat us < 2 ^ (e + 3)" and lt: "unat us < 2 ^ 32"
  shows "index_of us = 4 + e * 4 + (unat us div 2 ^ e - 4)" and "unat us div 2 ^ e < 8" and "e \<le> 29"
proof -
  have "(2 :: nat) ^ (e + 2) < 2 ^ 32"
    using e(1) lt by linarith
  then have "e + 2 < 32" by (simp only: power_strict_increasing_iff)
  then show "e \<le> 29" by simp
  have c: "63 - clzll us = e + 2"
    using e by (intro clzll_log) (simp_all add: numeral_3_eq_3)
  have "(4 :: nat) \<le> 2 ^ (e + 2)"
    by simp
  then have "4 \<le> unat us"
    using e(1) by linarith
  then have ge: "\<not> us < 4" by (simp add: word_less_nat_alt)
  have lt': "\<not> push_bit 32 1 \<le> us"
    using lt by (simp add: word_le_nat_alt push_bit_eq_mult unat_word_ariths)
  show l8: "unat us div 2 ^ e < 8"
    using e(2) by (simp add: less_mult_imp_div_less power_add mult.commute)
  have l4: "4 \<le> unat us div 2 ^ e"
    using e(1) by (simp add: less_eq_div_iff_mult_less_eq power_add mult.commute)
  have "unat (drop_bit e us AND 3) = unat us div 2 ^ e mod 4"
    by (simp add: unat_mod_4 unat_drop_bit_eq) (simp add: drop_bit_eq_div)
  moreover have "unat us div 2 ^ e mod 4 = unat us div 2 ^ e - 4"
    using l4 l8 by (simp add: le_mod_geq)
  ultimately show "index_of us = 4 + e * 4 + (unat us div 2 ^ e - 4)"
    using ge lt' c by (simp add: index_of_def Let_def)
qed


lemma index_of_between:
  assumes "4 \<le> unat us" and "unat us < 2 ^ 32"
  shows "index_of us < buckets \<and> unat (lower_us (index_of us)) \<le> unat us \<and> unat us < unat (upper_us (index_of us))"
proof -
  obtain d where d: "2 ^ d \<le> unat us" "unat us < 2 ^ Suc d"
    using log_exists [of "unat us"] assms(1) by auto
  have "(2 :: nat) ^ 2 < 2 ^ Suc d"
    using d(2) assms(1) by simp
  then have "2 < Suc d" by (simp only: power_strict_increasing_iff)
  then obtain e where "d = e + 2"
    by (metis add.commute less_Suc_eq_le le_Suc_ex)
  with d have e: "2 ^ (e + 2) \<le> unat us" "unat us < 2 ^ (e + 3)"
    by (simp_all add: numeral_3_eq_3)
  define m where "m = unat us div 2 ^ e - 4"
  note i = index_of_log [OF e assms(2)]
  have "4 \<le> unat us div 2 ^ e"
    using e(1) by (simp add: less_eq_div_iff_mult_less_eq power_add mult.commute)
  then have q: "unat us div 2 ^ e = 4 + m" and m: "m < 4"
    using i(2) by (simp_all add: m_def)
  have idx: "index_of us = 4 + e * 4 + m"
    using i(1) by (simp add: m_def)
  have b: "index_of us < buckets"
    using idx i(3) m by (simp add: buckets_def)
  have "(4 + m) * 2 ^ e \<le> unat us"
    using div_times_less_eq_dividend [of "unat us" "2 ^ e"] q by simp
  moreover have "unat us < (5 + m) * 2 ^ e"
    using dividend_less_div_times [of "2 ^ e" "unat us"] q by (simp add: algebra_simps)
  ultimately show ?thesis
    using b unat_upper_us [OF b] unat_lower_us [OF b] edge_split [OF m, of e] unfolding idx by simp
qed

lemma index_of_small: "unat us < 4 \<Longrightarrow> index_of us = unat us"
  by (simp add: index_of_def word_less_nat_alt)

lemma index_of_large: "2 ^ 32 \<le> unat us \<Longrightarrow> index_of us = buckets - 1"
  by (simp add: index_of_def word_less_nat_alt word_le_nat_alt push_bit_eq_mult)

lemma index_of_bound [simp]: "index_of us < buckets"
proof -
  consider "unat us < 4" | "4 \<le> unat us" "unat us < 2 ^ 32" | "2 ^ 32 \<le> unat us" by linarith
  then show ?thesis
    by cases (simp_all add: index_of_small index_of_large index_of_between, simp_all add: buckets_def)
qed

section \<open>The probe\<close>

text \<open>Time is in nanoseconds of the steady clock.\<close>

definition busy_interval :: int where "busy_interval = 1000000"
definition idle_interval :: int where "idle_interval = 100000000"
definition busy_window :: int where "busy_window = 1000000000"

text \<open>\<open>waits\<close> counts the timer operations in flight.\<close>

record lag =
  l_count :: "u64 list"
  l_wakes :: u64
  l_sum :: u64
  l_max :: u64
  activity :: u64
  last_activity :: u64
  due :: int
  busy_until :: int
  started :: bool
  stopped :: bool
  waits :: nat

definition lag_initial :: lag where
  "lag_initial = \<lparr>l_count = replicate buckets 0, l_wakes = 0, l_sum = 0, l_max = 0, activity = 0,
     last_activity = 0, due = 0, busy_until = 0, started = False, stopped = False, waits = 0\<rparr>"

text \<open>\<open>now\<close> is what the clock shows in \<^verbatim>\<open>arm\<close>.\<close>

definition arm :: "int \<Rightarrow> int \<Rightarrow> lag \<Rightarrow> lag" where
  "arm interval now s = s\<lparr>due := now + interval, waits := waits s + 1\<rparr>"

definition lateness :: "int \<Rightarrow> int \<Rightarrow> u64" where
  "lateness now d = (if d < now then of_int ((now - d) div 1000) else 0)"

definition tick :: "bool \<Rightarrow> int \<Rightarrow> int \<Rightarrow> lag \<Rightarrow> lag" where
  "tick error now now' s =
     (let s = s\<lparr>waits := waits s - 1\<rparr> in
      if error \<or> stopped s then s
      else
        let us = lateness now (due s);
            i = index_of us;
            s = s\<lparr>l_count := (l_count s)[i := l_count s ! i + 1]\<rparr>;
            s = s\<lparr>l_wakes := l_wakes s + 1\<rparr>;
            s = s\<lparr>l_sum := l_sum s + us\<rparr>;
            s = (if l_max s < us then s\<lparr>l_max := us\<rparr> else s);
            seen = activity s;
            s = (if seen \<noteq> last_activity s
                 then s\<lparr>last_activity := seen, busy_until := now + busy_window\<rparr> else s)
        in arm (if now < busy_until s then busy_interval else idle_interval) now' s)"

definition start :: "int \<Rightarrow> lag \<Rightarrow> lag" where
  "start now s = (if started s then s else arm idle_interval now (s\<lparr>started := True\<rparr>))"

definition stop :: "lag \<Rightarrow> lag" where
  "stop s = (if \<not> started s \<or> stopped s then s else s\<lparr>stopped := True\<rparr>)"

definition note_activity :: "lag \<Rightarrow> lag" where
  "note_activity s = s\<lparr>activity := activity s + 1\<rparr>"

record lag_snapshot =
  s_count :: "u64 list"
  s_wakes :: u64
  s_sum :: u64
  s_max :: u64

definition snapshot :: "lag \<Rightarrow> lag_snapshot" where
  "snapshot s = \<lparr>s_count = l_count s, s_wakes = l_wakes s, s_sum = l_sum s, s_max = l_max s\<rparr>"

definition since :: "lag_snapshot \<Rightarrow> lag_snapshot \<Rightarrow> lag_snapshot" where
  "since later earlier =
     \<lparr>s_count = map (\<lambda>i. s_count later ! i - s_count earlier ! i) [0..<buckets],
      s_wakes = s_wakes later - s_wakes earlier, s_sum = s_sum later - s_sum earlier, s_max = s_max later\<rparr>"

text \<open>What happens to a probe. A tick needs a timer operation in flight; \<^verbatim>\<open>stop\<close> makes asio
  complete it with an error, which the tick carries.\<close>

datatype lag_op = Start int | Stop | Note_activity | Tick bool int int

fun lag_step :: "lag_op \<Rightarrow> lag \<Rightarrow> lag" where
  "lag_step (Start now) s = start now s"
| "lag_step Stop s = stop s"
| "lag_step Note_activity s = note_activity s"
| "lag_step (Tick error now now') s = (if waits s = 0 then s else tick error now now' s)"

text \<open>The lateness an operation records.\<close>

fun recorded :: "lag_op \<Rightarrow> lag \<Rightarrow> u64 list" where
  "recorded (Tick error now now') s =
     (if waits s = 0 \<or> error \<or> stopped s then [] else [lateness now (due s)])"
| "recorded _ s = []"

fun lag_run :: "lag_op list \<Rightarrow> lag \<Rightarrow> lag" where
  "lag_run [] s = s"
| "lag_run (x # xs) s = lag_run xs (lag_step x s)"

fun lag_recorded :: "lag_op list \<Rightarrow> lag \<Rightarrow> u64 list" where
  "lag_recorded [] s = []"
| "lag_recorded (x # xs) s = recorded x s @ lag_recorded xs (lag_step x s)"

section \<open>The slot\<close>

text \<open>\<^verbatim>\<open>SlotAllocator\<close>: the slot of 512 bytes if it is free and the request fits, otherwise the
  heap, whose \<^verbatim>\<open>operator new\<close> gives an address or throws.\<close>

datatype pointer = Slot | Heap nat

definition allocate :: "u64 \<Rightarrow> nat option \<Rightarrow> u64 \<Rightarrow> u64 \<Rightarrow> u64 \<Rightarrow> bool \<Rightarrow> exn + pointer \<times> bool" where
  "allocate max_align new n sz align slot_used =
     (if \<not> slot_used \<and> n * sz \<le> 512 \<and> align \<le> max_align then Inr (Slot, True)
      else case new of Some a \<Rightarrow> Inr (Heap a, slot_used) | None \<Rightarrow> Inl Bad_alloc)"

definition deallocate :: "pointer \<Rightarrow> bool \<Rightarrow> bool" where
  "deallocate p slot_used = (if p = Slot then False else slot_used)"

text \<open>Requests, and releases of the \<open>i\<close>th pointer in use.\<close>

datatype slot_op = Allocate "nat option" u64 u64 u64 | Deallocate nat

fun slot_step :: "u64 \<Rightarrow> slot_op \<Rightarrow> bool \<times> pointer list \<Rightarrow> bool \<times> pointer list" where
  "slot_step max_align (Allocate new n sz align) (used, ps) =
     (case allocate max_align new n sz align used of
        Inl _ \<Rightarrow> (used, ps)
      | Inr (p, used') \<Rightarrow> (used', p # ps))"
| "slot_step max_align (Deallocate i) (used, ps) =
     (if i < length ps then (deallocate (ps ! i) used, take i ps @ drop (Suc i) ps) else (used, ps))"

text \<open>The slot has one owner while it is marked as used, and none otherwise.\<close>

definition slot_inv :: "bool \<times> pointer list \<Rightarrow> bool" where
  "slot_inv s \<longleftrightarrow> length (filter (\<lambda>p. p = Slot) (snd s)) = (if fst s then 1 else 0)"

lemma filter_drop_one:
  assumes "i < length xs"
  shows "length (filter P xs) =
     length (filter P (take i xs @ drop (Suc i) xs)) + (if P (xs ! i) then 1 else 0)"
proof -
  have "filter P xs = filter P (take i xs @ xs ! i # drop (Suc i) xs)"
    using id_take_nth_drop [OF assms] by (rule arg_cong)
  then show ?thesis by simp
qed

lemma deallocate_inv:
  assumes "slot_inv (used, ps)" and "i < length ps"
  shows "slot_inv (deallocate (ps ! i) used, take i ps @ drop (Suc i) ps)"
proof -
  have "(if used then 1 else 0) =
      length (filter (\<lambda>p. p = Slot) (take i ps @ drop (Suc i) ps)) + (if ps ! i = Slot then 1 else 0)"
    using assms(1) filter_drop_one [OF assms(2), of "\<lambda>p. p = Slot"]
    unfolding slot_inv_def by (simp only: fst_conv snd_conv)
  then show ?thesis
    unfolding slot_inv_def deallocate_def fst_conv snd_conv
    by (cases used; cases "ps ! i = Slot") (simp_all only: if_True if_False, simp_all)
qed

lemma allocate_inv:
  assumes "slot_inv (used, ps)" and "allocate al new n sz algn used = Inr (p, used')"
  shows "slot_inv (used', p # ps)"
  using assms(1) assms(2) [unfolded allocate_def]
  by (auto simp: slot_inv_def split: option.splits if_split_asm)

lemma slot_step_inv:
  assumes "slot_inv (used, ps)"
  shows "slot_inv (slot_step al x (used, ps))"
proof (cases x)
  case (Deallocate i)
  then show ?thesis using assms deallocate_inv [OF assms, of i] by simp
next
  case (Allocate new n sz algn)
  then show ?thesis
    using assms allocate_inv [OF assms, of al new n sz algn] by (auto split: sum.splits)
qed

lemma slot_run_inv: "slot_inv s \<Longrightarrow> slot_inv (fold (slot_step al) xs s)"
proof (induction xs arbitrary: s)
  case (Cons x xs)
  then show ?case using slot_step_inv [of "fst s" "snd s" al x] by simp
qed simp

section \<open>The histogram\<close>

definition histogram :: "u64 list \<Rightarrow> u64 list" where
  "histogram us = map (\<lambda>i. of_nat (length (filter (\<lambda>u. index_of u = i) us))) [0..<buckets]"

definition maximum :: "u64 list \<Rightarrow> u64" where
  "maximum us = fold max us 0"

definition adds :: "u64 list \<Rightarrow> lag \<Rightarrow> lag \<Rightarrow> bool" where
  "adds us s t \<longleftrightarrow> length (l_count t) = buckets
     \<and> (\<forall>i < buckets. l_count t ! i = l_count s ! i + histogram us ! i)
     \<and> l_wakes t = l_wakes s + of_nat (length us) \<and> l_sum t = l_sum s + sum_list us
     \<and> l_max t = fold max us (l_max s)"

lemma histogram_append: "i < buckets \<Longrightarrow> histogram (us @ vs) ! i = histogram us ! i + histogram vs ! i"
  by (simp add: histogram_def)

lemma adds_trans: "adds us s t \<Longrightarrow> adds vs t u \<Longrightarrow> adds (us @ vs) s u"
  by (simp add: adds_def histogram_append add.assoc)

lemma adds_nothing: "length (l_count t) = buckets \<Longrightarrow> l_count t = l_count s \<Longrightarrow> l_wakes t = l_wakes s \<Longrightarrow>
    l_sum t = l_sum s \<Longrightarrow> l_max t = l_max s \<Longrightarrow> adds [] s t"
  by (simp add: adds_def histogram_def)

lemma tick_ended: "error \<or> stopped s \<Longrightarrow> tick error now now' s = s\<lparr>waits := waits s - 1\<rparr>"
  by (simp add: tick_def)

lemma tick_adds:
  assumes "length (l_count s) = buckets" and "\<not> error" and "\<not> stopped s"
  shows "adds [lateness now (due s)] s (tick error now now' s)"
  using assms
  by (auto simp: adds_def tick_def arm_def Let_def histogram_def nth_list_update max_def)

lemma lag_step_adds: "length (l_count s) = buckets \<Longrightarrow> adds (recorded x s) s (lag_step x s)"
proof (cases x)
  case (Tick error now now')
  assume l: "length (l_count s) = buckets"
  show ?thesis
  proof (cases "waits s = 0 \<or> error \<or> stopped s")
    case True
    then show ?thesis
      using l Tick tick_ended [of error s now now'] by (cases "waits s = 0") (auto intro!: adds_nothing)
  next
    case False
    then show ?thesis
      using l Tick tick_adds [of s error now now'] by simp
  qed
qed (auto simp: start_def arm_def stop_def note_activity_def adds_nothing)

lemma lag_run_adds: "length (l_count s) = buckets \<Longrightarrow> adds (lag_recorded xs s) s (lag_run xs s)"
proof (induction xs arbitrary: s)
  case Nil
  then show ?case by (simp add: adds_nothing)
next
  case (Cons x xs)
  have a: "adds (recorded x s) s (lag_step x s)"
    by (rule lag_step_adds [OF Cons.prems])
  then have "length (l_count (lag_step x s)) = buckets"
    by (simp add: adds_def)
  from adds_trans [OF a Cons.IH [OF this]] show ?case by simp
qed

lemma lag_run_append: "lag_run (xs @ ys) s = lag_run ys (lag_run xs s)"
  by (induction xs arbitrary: s) simp_all

lemma lag_initial_simps [simp]:
  "length (l_count lag_initial) = buckets" "i < buckets \<Longrightarrow> l_count lag_initial ! i = 0"
  "l_wakes lag_initial = 0" "l_sum lag_initial = 0" "l_max lag_initial = 0"
  by (simp_all add: lag_initial_def)

section \<open>Ranks\<close>

lemma exponent_le:
  assumes "0 < x"
  shows "2 powi (exponent x) \<le> x"
proof -
  obtain p d where q: "quotient_of x = (p, d)" by (cases "quotient_of x")
  have x: "x = of_int p / of_int d" and d: "0 < d"
    using q by (simp_all add: quotient_of_div quotient_of_denom_pos)
  have p: "0 < p"
    using assms x d by (simp add: zero_less_divide_iff)
  define m n where "m = floorlog 2 (nat p)" and "n = floorlog 2 (nat d)"
  have "2 ^ (m - 1) \<le> nat p" and "nat d < 2 ^ n"
    using floorlog_bounds [of "nat p" 2] floorlog_bounds [of "nat d" 2] p d
    by (simp_all add: m_def n_def)
  moreover have "0 < m"
    using p by (simp add: m_def floorlog_def)
  ultimately have "int (2 ^ (m - 1)) \<le> p" and "d < int (2 ^ n)"
    using p d by linarith+
  then have "(of_int (int (2 ^ (m - 1))) :: rat) \<le> of_int p" and "(of_int d :: rat) < of_int (int (2 ^ n))"
    by (simp_all only: of_int_le_iff of_int_less_iff)
  then have "(2 :: rat) ^ (m - 1) / 2 ^ n \<le> of_int p / of_int d"
    using d p by (intro frac_le) simp_all
  moreover have "(2 :: rat) ^ (m - 1) / 2 ^ n = 2 powi (int m - int n - 1)"
  proof -
    have e: "int m - int n - 1 = int (m - 1) - int n" using \<open>0 < m\<close> by simp
    show ?thesis unfolding e by (subst power_int_diff) simp_all
  qed
  ultimately show ?thesis
    using q x by (simp add: exponent_def Let_def m_def n_def)
qed

lemma round_integer [simp]: "round_half_even (of_int n) = n"
  by (simp add: round_half_even_def)

lemma round_le: "x \<le> of_int n \<Longrightarrow> round_half_even x \<le> n"
proof -
  assume le: "x \<le> of_int n"
  show ?thesis
  proof (cases "x = of_int \<lfloor>x\<rfloor>")
    case True
    then show ?thesis using le by (simp add: round_half_even_def Let_def)
  next
    case False
    then have "of_int \<lfloor>x\<rfloor> < (of_int n :: rat)"
      using le of_int_floor_le [of x] by linarith
    then show ?thesis by (simp add: round_half_even_def Let_def)
  qed
qed

lemma round_nonneg: "0 \<le> x \<Longrightarrow> 0 \<le> round_half_even x"
  by (simp add: round_half_even_def Let_def)

text \<open>Below \<^verbatim>\<open>2^53\<close> the unit in the last place is the inverse of a natural number.\<close>

lemma small_ulp:
  assumes "0 < x" and "x < 2 ^ 53"
  obtains k where "2 powi (exponent x - 52) = 1 / (2 ^ k :: rat)"
proof -
  have "(2 :: rat) powi exponent x < 2 powi 53"
    using exponent_le [OF assms(1)] assms(2) by (simp add: power_int_def)
  then have "exponent x < 53"
    by (metis linorder_not_less one_less_numeral_iff power_int_increasing less_imp_le semiring_norm(76))
  then have "exponent x - 52 = - int (nat (52 - exponent x))" by simp
  moreover define k where "k = nat (52 - exponent x)"
  ultimately have "2 powi (exponent x - 52) = 1 / (2 ^ k :: rat)"
    by (simp only: power_int_minus power_int_of_nat inverse_eq_divide k_def)
  then show thesis by (rule that)
qed

lemma double_round_nonneg: "0 \<le> double_round x"
  by (auto simp: double_round_def Let_def intro!: mult_nonneg_nonneg round_nonneg)

lemma double_round_le:
  assumes "x \<le> of_nat n" and "n < 2 ^ 53"
  shows "double_round x \<le> of_nat n"
proof (cases "0 < x")
  case True
  have "x < 2 ^ 53"
  proof -
    have "(of_nat n :: rat) < of_nat (2 ^ 53)" using assms(2) by (simp only: of_nat_less_iff)
    then show ?thesis using assms(1) by simp
  qed
  then obtain k where k: "2 powi (exponent x - 52) = 1 / (2 ^ k :: rat)"
    using small_ulp True by blast
  have "x * 2 ^ k \<le> of_int (int n * 2 ^ k)"
    using assms(1) by simp
  then have "round_half_even (x * 2 ^ k) \<le> int n * 2 ^ k"
    by (rule round_le)
  then have "(of_int (round_half_even (x * 2 ^ k)) :: rat) \<le> of_int (int n * 2 ^ k)"
    by (simp only: of_int_le_iff)
  then show ?thesis
    using True k by (simp add: double_round_def divide_le_eq)
qed (simp add: double_round_def)

lemma double_round_exact: "n < 2 ^ 53 \<Longrightarrow> double_round (of_nat n) = of_nat n"
proof (cases "n = 0")
  case False
  assume n: "n < 2 ^ 53"
  then have "(of_nat n :: rat) < of_nat (2 ^ 53)" by (simp only: of_nat_less_iff)
  then obtain k where k: "2 powi (exponent (of_nat n) - 52) = 1 / (2 ^ k :: rat)"
    using small_ulp [of "of_nat n"] False by auto
  have "round_half_even (of_nat n * 2 ^ k) = int n * 2 ^ k"
    using round_integer [of "int n * 2 ^ k"] by simp
  then show ?thesis
    using False k by (simp add: double_round_def)
qed (simp add: double_round_def)

lemma at_least_one: "(if n = 0 then 1 else n) = max 1 (n :: nat)"
  by auto

lemma need_bounds:
  assumes t: "0 < unat t" "unat t < 2 ^ 53" and q: "q \<le> 1"
  shows "1 \<le> unat (quantile_need q t)" and "unat (quantile_need q t) \<le> unat t"
    and "unat (quantile_need q t) = max 1 (nat \<lceil>double_round (q * of_nat (unat t))\<rceil>)"
proof -
  define x where "x = double_round (q * of_nat (unat t))"
  have "q * of_nat (unat t) \<le> 1 * of_nat (unat t)"
    using q by (rule mult_right_mono) (rule of_nat_0_le_iff)
  then have x: "0 \<le> x" "x \<le> of_nat (unat t)"
    using double_round_le [OF _ t(2), of "q * of_nat (unat t)"] by (simp_all add: x_def double_round_nonneg)
  define n where "n = nat \<lfloor>x\<rfloor>"
  have nx: "\<lfloor>x\<rfloor> = int n" and n: "n \<le> unat t"
    using x by (simp_all add: n_def nat_le_iff floor_le_iff)
  define w :: u64 where "w = of_int \<lfloor>x\<rfloor>"
  have w: "unat w = n"
    using n t(2) by (simp add: w_def nx unat_of_nat take_bit_eq_mod)
  have dw: "to_double w = of_nat n"
    using n t(2) by (simp add: to_double_def w double_round_exact)
  have dt: "to_double t = of_nat (unat t)"
    unfolding to_double_def by (rule double_round_exact [OF t(2)])
  define v where "v = (if of_nat n < x then w + 1 else w)"
  have v: "unat v = nat \<lceil>x\<rceil>" 
  proof (cases "of_nat n < x")
    case True
    then have "\<lceil>x\<rceil> = int n + 1"
      using nx by (simp add: ceiling_altdef)
    moreover have "unat (w + 1) = n + 1"
      using w n t(2) by (simp add: unat_word_ariths)
    ultimately show ?thesis using True by (simp add: v_def)
  next
    case False
    then have "x = of_int (int n)" using nx of_int_floor_le [of x] by simp
    then have "\<lceil>x\<rceil> = int n" by (metis ceiling_of_int)
    then show ?thesis using False w by (simp add: v_def)
  qed
  have need: "quantile_need q t = (if v = 0 then 1 else v)"
    unfolding quantile_need_def Let_def dt x_def [symmetric] w_def [symmetric] dw v_def ..
  then have "unat (quantile_need q t) = (if unat v = 0 then 1 else unat v)"
    by (simp add: unat_eq_0)
  also have "\<dots> = max 1 (nat \<lceil>x\<rceil>)"
    unfolding v by (rule at_least_one)
  finally show eq: "unat (quantile_need q t) = max 1 (nat \<lceil>double_round (q * of_nat (unat t))\<rceil>)"
    unfolding x_def .
  have "\<lceil>x\<rceil> \<le> int (unat t)" using x(2) by (simp add: ceiling_le_iff)
  then have "nat \<lceil>x\<rceil> \<le> unat t" unfolding nat_le_iff .
  then show "1 \<le> unat (quantile_need q t)" "unat (quantile_need q t) \<le> unat t"
    using t(1) unfolding eq x_def [symmetric] by auto
qed

lemma round_error: "\<bar>of_int (round_half_even x) - x\<bar> \<le> 1 / 2"
proof -
  have "of_int \<lfloor>x\<rfloor> \<le> x" "x < of_int \<lfloor>x\<rfloor> + 1" by linarith+
  then show ?thesis by (auto simp: round_half_even_def Let_def)
qed

lemma double_round_error:
  assumes "0 < x"
  shows "\<bar>double_round x - x\<bar> \<le> x / 2 ^ 53"
proof -
  define u :: rat where "u = 2 powi (exponent x - 52)"
  have u: "0 < u" by (simp add: u_def)
  have "u = 2 powi exponent x / 2 ^ 52"
    by (simp add: u_def power_int_diff)
  then have le: "u / 2 \<le> x / 2 ^ 53"
    using exponent_le [OF assms] by (simp add: field_simps)
  have "double_round x - x = (of_int (round_half_even (x / u)) - x / u) * u"
    using assms u by (simp add: double_round_def u_def [symmetric] field_simps)
  then have "\<bar>double_round x - x\<bar> = \<bar>of_int (round_half_even (x / u)) - x / u\<bar> * u"
    using u by (simp add: abs_mult)
  also have "\<dots> \<le> 1 / 2 * u"
    using round_error u by (intro mult_right_mono) simp_all
  finally show ?thesis using le by simp
qed

lemma total_unat:
  "unat t + sum_list (map unat cs) < 2 ^ 64 \<Longrightarrow> unat (fold (\<lambda>c t. t + c) cs (t :: u64)) = unat t + sum_list (map unat cs)"
proof (induction cs arbitrary: t)
  case (Cons c cs)
  then have "unat (t + c) = unat t + unat c"
    by (simp add: unat_word_ariths)
  then show ?case using Cons by simp
qed simp

lemma quantile_scan_rank:
  assumes "unat seen < unat need" and "unat need \<le> unat seen + sum_list (map unat cs)"
    and "unat seen + sum_list (map unat cs) < 2 ^ 64"
  shows "\<exists>j < length cs. quantile_scan cs i seen need = upper_us (i + j)
    \<and> unat seen + sum_list (map unat (take j cs)) < unat need
    \<and> unat need \<le> unat seen + sum_list (map unat (take (Suc j) cs))"
  using assms
proof (induction cs arbitrary: i seen)
  case (Cons c cs)
  have s: "unat (seen + c) = unat seen + unat c"
    using Cons.prems(3) by (simp add: unat_word_ariths)
  show ?case
  proof (cases "need \<le> seen + c")
    case True
    then show ?thesis
      using Cons.prems(1) s by (intro exI [of _ 0]) (simp add: word_le_nat_alt)
  next
    case False
    then obtain j where "j < length cs" "quantile_scan cs (i + 1) (seen + c) need = upper_us (i + 1 + j)"
      "unat (seen + c) + sum_list (map unat (take j cs)) < unat need"
      "unat need \<le> unat (seen + c) + sum_list (map unat (take (Suc j) cs))"
      using Cons.IH [of "seen + c" "i + 1"] Cons.prems s by (auto simp: word_le_nat_alt)
    then show ?thesis
      using False s by (intro exI [of _ "Suc j"]) (simp add: add.assoc)
  qed
qed simp

lemma rank_near:
  assumes "0 \<le> (x :: rat)"
  shows "x \<le> of_nat (max 1 (nat \<lceil>x\<rceil>)) \<and> of_nat (max 1 (nat \<lceil>x\<rceil>)) \<le> x + 1"
proof -
  obtain n where n: "\<lceil>x\<rceil> = int n"
    using assms zero_le_imp_eq_int [of "\<lceil>x\<rceil>"] by auto
  have "x \<le> of_int \<lceil>x\<rceil>" "of_int \<lceil>x\<rceil> < x + 1" by linarith+
  then show ?thesis
    using assms unfolding n by (cases n) auto
qed

section \<open>The timer\<close>

text \<open>One timer operation at most is in flight: the one slot of the probe is enough.\<close>

definition timer_inv :: "lag \<Rightarrow> bool" where
  "timer_inv s \<longleftrightarrow> waits s \<le> 1 \<and> (\<not> started s \<longrightarrow> waits s = 0 \<and> \<not> stopped s)"

lemma lag_step_timer: "timer_inv s \<Longrightarrow> timer_inv (lag_step x s)"
  by (cases x) (auto simp: timer_inv_def tick_def start_def stop_def arm_def note_activity_def Let_def)

lemma lag_run_timer: "timer_inv s \<Longrightarrow> timer_inv (lag_run xs s)"
  by (induction xs arbitrary: s) (simp_all add: lag_step_timer)

lemma timer_inv_initial: "timer_inv lag_initial"
  by (simp add: timer_inv_def lag_initial_def)

text \<open>After \<^verbatim>\<open>stop\<close> on a started probe nothing is recorded and no timer armed.\<close>

lemma lag_step_stopped:
  "started s \<Longrightarrow> stopped s \<Longrightarrow> recorded x s = [] \<and> started (lag_step x s) \<and> stopped (lag_step x s)
     \<and> waits (lag_step x s) \<le> waits s"
  by (cases x) (auto simp: tick_def start_def stop_def note_activity_def Let_def)

lemma lag_run_stopped:
  "started s \<Longrightarrow> stopped s \<Longrightarrow> lag_recorded xs s = [] \<and> waits (lag_run xs s) \<le> waits s"
proof (induction xs arbitrary: s)
  case (Cons x xs)
  then show ?case using lag_step_stopped [of s x] Cons.IH [of "lag_step x s"] by (auto intro: le_trans)
qed simp

text \<open>The times of the wakes that noticed activity.\<close>

fun noticed :: "lag_op \<Rightarrow> lag \<Rightarrow> int list" where
  "noticed (Tick error now now') s =
     (if waits s = 0 \<or> error \<or> stopped s \<or> activity s = last_activity s then [] else [now])"
| "noticed _ s = []"

fun lag_noticed :: "lag_op list \<Rightarrow> lag \<Rightarrow> int list" where
  "lag_noticed [] s = []"
| "lag_noticed (x # xs) s = noticed x s @ lag_noticed xs (lag_step x s)"

definition window_end :: "int \<Rightarrow> int list \<Rightarrow> int" where
  "window_end b ts = (if ts = [] then b else last ts + busy_window)"

lemma lag_step_busy: "busy_until (lag_step x s) = window_end (busy_until s) (noticed x s)"
  by (cases x) (simp_all add: window_end_def start_def stop_def note_activity_def arm_def tick_def Let_def)

lemma lag_run_busy: "busy_until (lag_run xs s) = window_end (busy_until s) (lag_noticed xs s)"
  by (induction xs arbitrary: s) (auto simp: lag_step_busy window_end_def)

section \<open>Properties\<close>

text \<open>C28: the bucket of a lateness holds it. \<^verbatim>\<open>index_of\<close> is within the array, and the
  lateness lies between the edges \<^verbatim>\<open>lower_us\<close> (inclusive) and \<^verbatim>\<open>upper_us\<close> (exclusive)
  of its bucket; only from \<^verbatim>\<open>2^32\<close> on it goes to the last bucket, which is open.\<close>

theorem bucket_holds_lateness:
  "index_of us < buckets \<and> lower_us (index_of us) \<le> us
   \<and> (us < upper_us (index_of us) \<or> index_of us = buckets - 1 \<and> push_bit 32 1 \<le> us)"
proof -
  consider "unat us < 4" | "4 \<le> unat us" "unat us < 2 ^ 32" | "2 ^ 32 \<le> unat us" by linarith
  then show ?thesis
  proof cases
    case 1
    then have b: "index_of us < buckets" and i: "index_of us = unat us"
      by (simp_all add: index_of_small buckets_def)
    show ?thesis
      using 1 b unat_upper_us [OF b] unat_lower_us [OF b] unfolding i
      by (auto simp: word_less_nat_alt word_le_nat_alt edge_def)
  next
    case 2
    then show ?thesis
      using index_of_between by (simp add: word_less_nat_alt word_le_nat_alt)
  next
    case 3
    then show ?thesis
      using unat_lower_us [of "buckets - 1"]
      by (simp add: index_of_large word_le_nat_alt push_bit_eq_mult buckets_def edge_def)
  qed
qed

text \<open>The buckets tile the range with the documented resolution. Each bucket begins
  where the one before it ends, the last ends at \<^verbatim>\<open>2^32\<close>; the first four are one
  microsecond wide, and from there on a bucket is at most a quarter of its lower edge
  and at least an eighth of its upper edge wide.\<close>

theorem buckets_tile:
  assumes "i < buckets"
  shows "lower_us i < upper_us i \<and> (i + 1 < buckets \<longrightarrow> lower_us (i + 1) = upper_us i)
    \<and> lower_us 0 = 0 \<and> upper_us (buckets - 1) = push_bit 32 1
    \<and> (i < 4 \<longrightarrow> upper_us i = lower_us i + 1)
    \<and> (4 \<le> i \<longrightarrow> 4 * (unat (upper_us i) - unat (lower_us i)) \<le> unat (lower_us i)
        \<and> unat (upper_us i) \<le> 8 * (unat (upper_us i) - unat (lower_us i)))"
proof -
  have ends: "lower_us 0 = 0" "upper_us (buckets - 1) = push_bit 32 1" "lower_us (i + 1) = upper_us i"
    by (simp_all add: lower_us_def upper_us_def buckets_def push_bit_eq_mult)
  show ?thesis
  proof (cases "i < 4")
    case True
    then have "upper_us i = of_nat i + 1" "lower_us i = of_nat i"
      by (auto simp: upper_us_def lower_us_def)
    then show ?thesis
      using True ends unat_upper_us [OF assms] unat_lower_us [OF assms]
      by (auto simp: word_less_nat_alt edge_def)
  next
    case False
    define e m where "e = (i - 4) div 4" and "m = (i - 4) mod 4"
    have i: "i = 4 + e * 4 + m" and m: "m < 4"
      using False by (simp_all add: e_def m_def)
    show ?thesis
      using False ends unat_upper_us [OF assms] unat_lower_us [OF assms] edge_split [OF m, of e] m
      unfolding i by (auto simp: word_less_nat_alt algebra_simps)
  qed
qed

text \<open>C26: a snapshot is the histogram of the latenesses recorded so far. After any sequence
  of starts, stops, activity and wakes: bucket \<open>i\<close> counts the wakes whose lateness
  belongs to it, \<^verbatim>\<open>wakes\<close>, \<^verbatim>\<open>sum_us\<close> and \<^verbatim>\<open>max_us\<close> their number, sum and maximum, in
  64-bit arithmetic.\<close>

theorem snapshot_is_histogram:
  "snapshot (lag_run xs lag_initial) =
     (let us = lag_recorded xs lag_initial in
        \<lparr>s_count = histogram us, s_wakes = of_nat (length us), s_sum = sum_list us, s_max = maximum us\<rparr>)"
proof -
  have a: "adds (lag_recorded xs lag_initial) lag_initial (lag_run xs lag_initial)"
    by (rule lag_run_adds) simp
  then have "l_count (lag_run xs lag_initial) = histogram (lag_recorded xs lag_initial)"
    by (intro nth_equalityI) (simp_all add: adds_def, simp add: histogram_def)
  with a show ?thesis
    by (simp add: snapshot_def adds_def maximum_def Let_def)
qed

text \<open>\<^verbatim>\<open>since\<close> gives the wakes between two snapshots: subtracting the snapshot taken
  after \<open>xs\<close> from the one taken after \<open>xs\<close> and \<open>ys\<close> leaves the histogram, number and
  sum of the latenesses recorded during \<open>ys\<close>, also when a counter has wrapped, and keeps
  the later maximum.\<close>

theorem since_is_difference:
  "since (snapshot (lag_run (xs @ ys) lag_initial)) (snapshot (lag_run xs lag_initial)) =
     (let us = lag_recorded ys (lag_run xs lag_initial) in
        \<lparr>s_count = histogram us, s_wakes = of_nat (length us), s_sum = sum_list us,
         s_max = l_max (lag_run (xs @ ys) lag_initial)\<rparr>)"
proof -
  have "length (l_count (lag_run xs lag_initial)) = buckets"
    using lag_run_adds [of lag_initial xs] by (simp add: adds_def)
  then have a: "adds (lag_recorded ys (lag_run xs lag_initial)) (lag_run xs lag_initial) (lag_run (xs @ ys) lag_initial)"
    by (simp add: lag_run_append lag_run_adds)
  have "map (\<lambda>i. l_count (lag_run (xs @ ys) lag_initial) ! i - l_count (lag_run xs lag_initial) ! i) [0..<buckets]
      = histogram (lag_recorded ys (lag_run xs lag_initial))"
    using a by (intro nth_equalityI) (simp_all add: adds_def, simp add: histogram_def)
  with a show ?thesis
    by (simp add: since_def snapshot_def adds_def Let_def)
qed

text \<open>The probe's timer. However \<^verbatim>\<open>start\<close> and \<^verbatim>\<open>stop\<close> are called, at most one timer
  operation is in flight, so that the one slot of the probe serves every allocation;
  after a \<^verbatim>\<open>stop\<close> of a started probe nothing more is recorded and no timer is armed
  again; and \<^verbatim>\<open>stop\<close> before \<^verbatim>\<open>start\<close> does nothing.\<close>

theorem one_timer_in_flight:
  assumes "s = lag_run xs lag_initial"
  shows "waits s \<le> 1 \<and> (\<not> started s \<longrightarrow> stop s = s)
    \<and> (started s \<longrightarrow> lag_recorded ys (stop s) = [] \<and> waits (lag_run ys (stop s)) \<le> waits s)"
  using lag_run_timer [OF timer_inv_initial, of xs] lag_run_stopped [of "stop s" ys] assms
  by (auto simp: timer_inv_def stop_def)

theorem one_timer_in_flight_witness:
  "waits (lag_run [Start 0, Tick False 100000500 100000600] lag_initial) \<le> 1
   \<and> lag_recorded [Tick False 0 0] (stop (lag_run [Start 0, Tick False 100000500 100000600] lag_initial)) = []"
proof -
  let ?s = "lag_run [Start 0, Tick False 100000500 100000600] lag_initial"
  have "started ?s"
    by (simp add: start_def arm_def lag_initial_def tick_def Let_def)
  then show ?thesis
    using one_timer_in_flight [OF refl, of "[Start 0, Tick False 100000500 100000600]" "[Tick False 0 0]"]
    by blast
qed

text \<open>The interval follows the activity. At a wake of the running probe the timer is
  armed 1 ms ahead if the latest wake that noticed new activity (this one included) was
  less than a second ago, and 100 ms ahead otherwise.\<close>

theorem interval_follows_activity:
  assumes "s = lag_run xs lag_initial" and "waits s \<noteq> 0" and "\<not> stopped s" and "0 \<le> now"
    and "ts = lag_noticed (xs @ [Tick False now now']) lag_initial"
  shows "due (tick False now now' s) =
    now' + (if ts \<noteq> [] \<and> now < last ts + busy_window then busy_interval else idle_interval)"
proof -
  have "busy_until (tick False now now' s) = window_end 0 ts"
    using lag_run_busy [of "xs @ [Tick False now now']" lag_initial] assms(1,2,5)
    by (simp add: lag_run_append lag_initial_def)
  moreover have "due (tick False now now' s) =
      now' + (if now < busy_until (tick False now now' s) then busy_interval else idle_interval)"
    using assms(3) by (simp add: tick_def arm_def Let_def)
  ultimately show ?thesis
    using assms(4) by (auto simp: window_end_def)
qed

text \<open>C27: a quantile is the upper edge of the bucket that holds the wake of its rank. For
  counters with \<open>T\<close> wakes in total (less than \<^verbatim>\<open>2^53\<close>) and \<open>0 < q \<le> 1\<close>, there is a rank
  between 1 and \<open>T\<close>, within 1 of \<open>q T\<close> up to the rounding of doubles, and the result is
  the upper edge of the first bucket with that many wakes in it and the buckets before.\<close>

theorem quantile_of_rank:
  assumes "length cnt = buckets" and "sum_list (map unat cnt) = T" and "0 < T" and "T < 2 ^ 53"
    and "0 < q" and "q \<le> 1"
  shows "\<exists>i r. i < buckets \<and> 1 \<le> r \<and> r \<le> T \<and> \<bar>of_nat r - q * of_nat T\<bar> \<le> 1 + q * of_nat T / 2 ^ 53
    \<and> quantile_upper_us cnt q = upper_us i
    \<and> sum_list (map unat (take i cnt)) < r \<and> r \<le> sum_list (map unat (take (Suc i) cnt))"
proof -
  define t :: u64 where "t = fold (\<lambda>c t. t + c) cnt 0"
  have t: "unat t = T"
    using total_unat [of 0 cnt] assms(2,4) by (simp add: t_def)
  define r where "r = unat (quantile_need q t)"
  have T: "0 < unat t" "unat t < 2 ^ 53" using t assms(3,4) by simp_all
  have r: "1 \<le> r" "r \<le> T" "r = max 1 (nat \<lceil>double_round (q * of_nat T)\<rceil>)"
    using need_bounds [OF T assms(6)] unfolding r_def t by simp_all
  have "0 < q * of_nat T" using assms(3,5) by simp
  moreover have "double_round (q * of_nat T) \<le> of_nat r" "of_nat r \<le> double_round (q * of_nat T) + 1"
    using rank_near [OF double_round_nonneg [of "q * of_nat T"]] r(3) by simp_all
  ultimately have err: "\<bar>of_nat r - q * of_nat T\<bar> \<le> 1 + q * of_nat T / 2 ^ 53"
    using double_round_error [of "q * of_nat T"] by linarith
  obtain i where "i < buckets" "quantile_scan cnt 0 0 (quantile_need q t) = upper_us i"
    "sum_list (map unat (take i cnt)) < r" "r \<le> sum_list (map unat (take (Suc i) cnt))"
    using quantile_scan_rank [of 0 "quantile_need q t" cnt 0] r assms(1,2,4) by (auto simp: r_def)
  moreover have "quantile_upper_us cnt q = quantile_scan cnt 0 0 (quantile_need q t)"
    using T(1) by (auto simp: quantile_upper_us_def t_def [symmetric] Let_def)
  ultimately show ?thesis using r(1,2) err by (intro exI [of _ i] exI [of _ r]) simp
qed

theorem quantile_of_rank_witness:
  "\<exists>i r. i < buckets \<and> 1 \<le> r \<and> r \<le> (100 :: nat)
     \<and> quantile_upper_us (90 # 10 # replicate (buckets - 2) 0) (1 / 2) = upper_us i"
  using quantile_of_rank [of "90 # 10 # replicate (buckets - 2) 0" 100 "1 / 2"]
  by (auto simp: buckets_def sum_list_replicate)

text \<open>The slot is never handed out twice. After any requests and releases, the number of
  users of the slot is one while it is marked as used and zero otherwise, and a request
  that fits gets the free slot without the heap.\<close>

theorem slot_has_one_owner:
  "\<exists>used ps. fold (slot_step al) xs (False, []) = (used, ps)
     \<and> length (filter (\<lambda>p. p = Slot) ps) = (if used then 1 else 0)
     \<and> (n * sz \<le> 512 \<and> algn \<le> al \<and> \<not> used \<longleftrightarrow>
          allocate al None n sz algn used = Inr (Slot, True))"
proof -
  have "slot_inv (fold (slot_step al) xs (False, []))"
    by (rule slot_run_inv) (simp add: slot_inv_def)
  then show ?thesis
    by (cases "fold (slot_step al) xs (False, [])") (auto simp: slot_inv_def allocate_def)
qed

end
