(* ===== verification/Session.thy ===== *)
theory Session
  imports Lag Reactor_Core Connection_Admission
begin

text \<open>
  The life of a connection on its reactor, \<^verbatim>\<open>detail::SessionTicket\<close>, \<^verbatim>\<open>SessionControl\<close>,
  \<^verbatim>\<open>run_session\<close>, \<^verbatim>\<open>launch_session\<close> and \<^verbatim>\<open>shutdown_connection\<close> of \<^verbatim>\<open>src/reactor.h\<close>.

  The first part is the tickets: objects that hold a place in the session count of a
  reactor and an admission, from the accept to the end of the session's frame. The
  second part is what runs on the loop: the reactor extended with the controls of its
  sessions, and the descriptors shut down. Launching notes activity on the lag probe of the
  loop (theory \<open>Lag\<close>). Kernel calls are arguments.

  Shown: every session leaves the count and refunds its admission exactly once, the
  admission first, so that when the counts are zero nothing is admitted; a launch is
  posted at most once; after \<^verbatim>\<open>abort_all\<close> every running session has been asked to stop
  and none is begun; after \<^verbatim>\<open>force_all\<close> every running session's connection has been
  shut down unless its descriptor names another connection by then.
\<close>

section \<open>Tickets\<close>

text \<open>A ticket: the reactor it counts on, and whether its lease holds the admission.\<close>

record ticket =
  t_reactor :: "nat option"
  t_lease :: bool

record ticket_world =
  reactors :: "reactor list"
  admission :: ca_state
  tickets :: "ticket list"

definition ticket_construct :: "nat \<Rightarrow> bool \<Rightarrow> ticket_world \<Rightarrow> ticket_world" where
  "ticket_construct k lease w =
     w\<lparr>tickets := tickets w @ [\<lparr>t_reactor = Some k, t_lease = lease\<rparr>],
       reactors := (reactors w)[k := session_started (reactors w ! k)]\<rparr>"

definition ticket_move_construct :: "nat \<Rightarrow> ticket_world \<Rightarrow> ticket_world" where
  "ticket_move_construct j w =
     w\<lparr>tickets := (tickets w)[j := \<lparr>t_reactor = None, t_lease = False\<rparr>] @ [tickets w ! j]\<rparr>"

text \<open>The destructor, in its two steps: the admission is refunded, then the session leaves
  the count of its reactor.\<close>

definition ticket_refund :: "nat \<Rightarrow> ticket_world \<Rightarrow> ticket_world" where
  "ticket_refund i w =
     (if t_lease (tickets w ! i)
      then w\<lparr>admission := lease_release (admission w), tickets := (tickets w)[i := (tickets w ! i)\<lparr>t_lease := False\<rparr>]\<rparr>
      else w)"

definition ticket_leave :: "nat \<Rightarrow> ticket_world \<Rightarrow> ticket_world" where
  "ticket_leave i w =
     (case t_reactor (tickets w ! i) of
        Some k \<Rightarrow> w\<lparr>reactors := (reactors w)[k := session_finished (reactors w ! k)],
                    tickets := (tickets w)[i := (tickets w ! i)\<lparr>t_reactor := None\<rparr>]\<rparr>
      | None \<Rightarrow> w)"

definition ticket_destroy :: "nat \<Rightarrow> ticket_world \<Rightarrow> ticket_world" where
  "ticket_destroy i w = (if t_reactor (tickets w ! i) \<noteq> None then ticket_leave i (ticket_refund i w) else w)"

text \<open>What happens to a world of tickets: an accept takes an admission, if there is a bound,
  and a ticket; a ticket moves (into the frame, into a posted handler); a destructor
  makes one of its two steps. \<open>Ticket_leave\<close> follows \<open>Ticket_refund\<close>.\<close>

datatype ticket_op = Accept_bounded nat | Accept_unbounded nat | Ticket_move nat | Ticket_refund nat | Ticket_leave nat

fun ticket_step :: "ticket_world \<Rightarrow> ticket_op \<Rightarrow> ticket_world" where
  "ticket_step w (Accept_bounded k) =
     (if k < length (reactors w) then
        (case try_enter (admission w) of
           (admitted, s) \<Rightarrow> (let w' = w\<lparr>admission := s\<rparr> in if admitted then ticket_construct k True w' else w'))
      else w)"
| "ticket_step w (Accept_unbounded k) = (if k < length (reactors w) then ticket_construct k False w else w)"
| "ticket_step w (Ticket_move j) = (if j < length (tickets w) then ticket_move_construct j w else w)"
| "ticket_step w (Ticket_refund i) = (if i < length (tickets w) then ticket_refund i w else w)"
| "ticket_step w (Ticket_leave i) =
     (if i < length (tickets w) \<and> \<not> t_lease (tickets w ! i) then ticket_leave i w else w)"

abbreviation seats :: "ticket_world \<Rightarrow> nat option list" where
  "seats w \<equiv> map t_reactor (tickets w)"

abbreviation admitted_tickets :: "ticket_world \<Rightarrow> nat option list" where
  "admitted_tickets w \<equiv> map (\<lambda>t. if t_lease t then Some 0 else None) (tickets w)"

abbreviation seat_count :: "reactor \<Rightarrow> nat" where
  "seat_count r \<equiv> unat (sessions r)"

interpretation seat: refundable seat_count session_finished
  by unfold_locales (simp add: session_finished_def unat_minus_one_pos)

definition ticket_inv :: "ticket_world \<Rightarrow> bool" where
  "ticket_inv w \<longleftrightarrow> balanced seat_count (reactors w) (seats w)
     \<and> balanced live [admission w] (admitted_tickets w)
     \<and> active (admission w) \<le> maximum (admission w)
     \<and> (\<forall>t \<in> set (tickets w). t_lease t \<longrightarrow> t_reactor t \<noteq> None)"

lemma holders_le_length: "holders k ls \<le> length ls"
  by (induction ls) auto

lemma ticket_construct_seats:
  assumes b: "balanced seat_count (reactors w) (seats w)" and k: "k < length (reactors w)"
    and n: "length (tickets w) < 2 ^ 64 - 1"
  shows "balanced seat_count (reactors (ticket_construct k l w)) (seats (ticket_construct k l w))"
proof -
  have "seat_count (reactors w ! k) < 2 ^ 64 - 1"
    using b k n holders_le_length [of k "seats w"] by (simp add: balanced_def)
  then have "seat_count (session_started (reactors w ! k)) = seat_count (reactors w ! k) + 1"
    by (simp add: session_started_def unat_word_ariths)
  then show ?thesis
    using seat.admit_keeps [OF b k] by (simp add: ticket_construct_def)
qed

lemma ticket_accept_inv:
  assumes inv: "ticket_inv w" and k: "k < length (reactors w)" and n: "length (tickets w) < 2 ^ 64 - 1"
  shows "ticket_inv (ticket_step w (Accept_bounded k))"
proof -
  let ?s = "admission w"
  have b: "balanced live [?s] (admitted_tickets w)" and le: "active ?s \<le> maximum ?s"
    using inv by (simp_all add: ticket_inv_def)
  show ?thesis
  proof (cases "fst (try_enter ?s)")
    case True
    have "balanced live ([?s][0 := snd (try_enter ?s)]) (admitted_tickets w @ [Some 0])"
      using try_enter_live(1) [OF True] by (intro ca_lease.admit_keeps [OF b]) simp_all
    moreover have "balanced seat_count (reactors (ticket_construct k True (w\<lparr>admission := snd (try_enter ?s)\<rparr>)))
        (seats (ticket_construct k True (w\<lparr>admission := snd (try_enter ?s)\<rparr>)))"
      using inv k n by (intro ticket_construct_seats) (simp_all add: ticket_inv_def)
    ultimately show ?thesis
      using True inv k try_enter_within [OF le]
      by (auto simp: ticket_inv_def case_prod_beta Let_def ticket_construct_def)
  next
    case False
    have "balanced live [snd (try_enter ?s)] (admitted_tickets w)"
      using b try_enter_live(2) [OF False] by (simp add: balanced_def)
    then show ?thesis
      using False inv k try_enter_within [OF le] by (auto simp: ticket_inv_def case_prod_beta)
  qed
qed

lemma ticket_unbounded_inv:
  assumes inv: "ticket_inv w" and k: "k < length (reactors w)" and n: "length (tickets w) < 2 ^ 64 - 1"
  shows "ticket_inv (ticket_construct k False w)"
proof -
  have "balanced live [admission w] (admitted_tickets w @ [None])"
    using inv by (intro balanced_default) (simp add: ticket_inv_def)
  then show ?thesis
    using inv ticket_construct_seats [OF _ k n, of False]
    by (auto simp: ticket_inv_def ticket_construct_def)
qed

lemma ticket_move_inv:
  assumes inv: "ticket_inv w" and j: "j < length (tickets w)"
  shows "ticket_inv (ticket_move_construct j w)"
proof -
  have "balanced seat_count (reactors w) ((seats w)[j := None] @ [seats w ! j])"
    and "balanced live [admission w] ((admitted_tickets w)[j := None] @ [admitted_tickets w ! j])"
    using balanced_move_construct [of seat_count "reactors w" "seats w" j]
      balanced_move_construct [of live "[admission w]" "admitted_tickets w" j] inv j
    by (simp_all add: ticket_inv_def)
  moreover have "\<forall>t \<in> set ((tickets w)[j := \<lparr>t_reactor = None, t_lease = False\<rparr>]). t_lease t \<longrightarrow> t_reactor t \<noteq> None"
    using inv by (auto simp: ticket_inv_def dest!: set_update_subset_insert [THEN subsetD])
  ultimately show ?thesis
    using inv j by (auto simp: ticket_inv_def ticket_move_construct_def map_update)
qed

lemma ticket_refund_inv:
  assumes inv: "ticket_inv w" and i: "i < length (tickets w)"
  shows "ticket_inv (ticket_refund i w)"
proof (cases "t_lease (tickets w ! i)")
  case True
  have b: "balanced live [admission w] (admitted_tickets w)"
    using inv by (simp add: ticket_inv_def)
  have p: "admitted_tickets w ! i = Some 0" using True i by simp
  have i': "i < length (admitted_tickets w)" using i by simp
  have "0 < live (admission w)"
    using b holders_pos [OF i' p] by (simp add: balanced_def)
  then have le: "active (lease_release (admission w)) \<le> maximum (lease_release (admission w))"
    using inv by (intro lease_release_within) (simp_all add: ticket_inv_def)
  have "(seats w)[i := t_reactor (tickets w ! i)] = seats w"
    using i by (metis length_map list_update_id nth_map)
  moreover have "\<forall>t \<in> set ((tickets w)[i := (tickets w ! i)\<lparr>t_lease := False\<rparr>]). t_lease t \<longrightarrow> t_reactor t \<noteq> None"
    using inv by (auto simp: ticket_inv_def dest!: set_update_subset_insert [THEN subsetD])
  ultimately show ?thesis
    using inv True le ca_lease.refund_keeps [OF b i' p]
    by (simp add: ticket_inv_def ticket_refund_def map_update)
qed (use inv in \<open>simp add: ticket_refund_def\<close>)

lemma ticket_leave_inv:
  assumes inv: "ticket_inv w" and i: "i < length (tickets w)" and l: "\<not> t_lease (tickets w ! i)"
  shows "ticket_inv (ticket_leave i w)"
proof (cases "t_reactor (tickets w ! i)")
  case (Some k)
  have "balanced seat_count ((reactors w)[k := session_finished (reactors w ! k)]) ((seats w)[i := None])"
    using inv i Some by (intro seat.refund_keeps) (simp_all add: ticket_inv_def)
  moreover have "(admitted_tickets w)[i := None] = admitted_tickets w"
    using i l by (metis (mono_tags, lifting) length_map list_update_id nth_map)
  moreover have "\<forall>t \<in> set ((tickets w)[i := (tickets w ! i)\<lparr>t_reactor := None\<rparr>]). t_lease t \<longrightarrow> t_reactor t \<noteq> None"
    using inv l by (auto simp: ticket_inv_def dest!: set_update_subset_insert [THEN subsetD])
  ultimately show ?thesis
    using inv Some l by (simp add: ticket_inv_def ticket_leave_def map_update)
qed (use inv in \<open>simp add: ticket_leave_def\<close>)

lemma ticket_step_inv:
  assumes "ticket_inv w" and "length (tickets w) < 2 ^ 64 - 1"
  shows "ticket_inv (ticket_step w x)"
  using assms ticket_accept_inv ticket_unbounded_inv ticket_move_inv ticket_refund_inv ticket_leave_inv
  by (cases x) auto

lemma ticket_step_size:
  "length (tickets (ticket_step w x)) \<le> length (tickets w) + 1 \<and> length (reactors (ticket_step w x)) = length (reactors w)"
  by (cases x) (auto simp: ticket_construct_def ticket_move_construct_def ticket_refund_def ticket_leave_def Let_def
      case_prod_beta split: option.splits)

lemma ticket_run_inv:
  "ticket_inv w \<Longrightarrow> length (tickets w) + length ops < 2 ^ 64 \<Longrightarrow>
     ticket_inv (foldl ticket_step w ops) \<and> length (reactors (foldl ticket_step w ops)) = length (reactors w)"
proof (induction ops arbitrary: w)
  case (Cons x ops)
  then show ?case
    using ticket_step_inv [of w x] ticket_step_size [of w x] Cons.IH [of "ticket_step w x"] by simp
qed simp

section \<open>Sessions on their loop\<close>

text \<open>An endpoint is its address and port; \<open>getpeername\<close> answers an error or the peer and the
  size of its address, for which the caller has room up to \<open>capacity\<close>. The result of
  \<open>shutdown_connection\<close> is the descriptor it shuts down.\<close>

type_synonym endpoint = "nat \<times> nat"

definition shutdown_connection :: "nat \<Rightarrow> (int \<Rightarrow> (endpoint \<times> nat) option) \<Rightarrow> int \<Rightarrow> endpoint \<Rightarrow> int option" where
  "shutdown_connection capacity getpeername descriptor peer =
     (case getpeername descriptor of
        None \<Rightarrow> None
      | Some (current, sz) \<Rightarrow>
          if capacity < sz then None else if current = peer then Some descriptor else None)"

text \<open>\<^verbatim>\<open>SessionControl\<close>; \<open>c_forced\<close> records what \<^verbatim>\<open>force()\<close> has shut down, if it ran.\<close>

record control =
  c_descriptor :: int
  c_peer :: endpoint
  c_aborted :: bool
  c_stop :: bool
  c_forced :: "int option option"

definition control_initial :: "int \<Rightarrow> endpoint \<Rightarrow> control" where
  "control_initial fd from = \<lparr>c_descriptor = fd, c_peer = from, c_aborted = False, c_stop = False, c_forced = None\<rparr>"

datatype session_phase = Absent | Serving | Closed | Done

text \<open>A reactor with the controls of its sessions, by address, and how far each session is:
  \<open>Closed\<close> is a connection closed without running the caller's \<^verbatim>\<open>Session\<close>.\<close>

record session_loop = reactor +
  controls :: "nat \<Rightarrow> control"
  phases :: "nat \<Rightarrow> session_phase"

definition session_loop_initial :: session_loop where
  "session_loop_initial = reactor.extend reactor_initial
     \<lparr>controls = (\<lambda>_. control_initial 0 (0, 0)), phases = (\<lambda>_. Absent)\<rparr>"

definition control_abort :: "nat \<Rightarrow> session_loop \<Rightarrow> session_loop" where
  "control_abort a r = r\<lparr>controls := (controls r)(a := (controls r a)\<lparr>c_aborted := True, c_stop := True\<rparr>)\<rparr>"

definition control_force :: "nat \<Rightarrow> (int \<Rightarrow> (endpoint \<times> nat) option) \<Rightarrow> nat \<Rightarrow> session_loop \<Rightarrow> session_loop" where
  "control_force capacity names a r =
     (let c = controls r a in
        r\<lparr>controls := (controls r)(a :=
            c\<lparr>c_forced := Some (shutdown_connection capacity names (c_descriptor c) (c_peer c))\<rparr>)\<rparr>)"

definition set_phase :: "nat \<Rightarrow> session_phase \<Rightarrow> session_loop \<Rightarrow> session_loop" where
  "set_phase a p r = r\<lparr>phases := (phases r)(a := p)\<rparr>"

text \<open>\<^verbatim>\<open>run_session\<close> up to the call of the caller's \<^verbatim>\<open>Session\<close>, with the control at address
  \<open>a\<close>; and the end of its frame, where the control's destructor untracks it.\<close>

definition run_session ::
    "nat \<Rightarrow> (int \<Rightarrow> (endpoint \<times> nat) option) \<Rightarrow> nat \<Rightarrow> int \<Rightarrow> endpoint \<Rightarrow> session_loop \<Rightarrow> session_loop" where
  "run_session capacity names a fd peer r =
     (let r1 = r\<lparr>controls := (controls r)(a := control_initial fd peer)\<rparr>;
          r2 = track (control_abort a) (control_force capacity names a) a r1
      in if c_aborted (controls r2 a) then set_phase a Closed (untrack a r2) else set_phase a Serving r2)"

definition session_end :: "nat \<Rightarrow> session_loop \<Rightarrow> session_loop" where
  "session_end a r = set_phase a Done (untrack a r)"

text \<open>\<^verbatim>\<open>launch_session\<close>: on another reactor's loop it posts itself to the session's loop, else it
  tells the lag probe of the reactor that its loop is busy and spawns \<^verbatim>\<open>run_session\<close>. What it
  posts or spawns may not find memory.\<close>

datatype launch = Posted | Spawned | No_memory

definition launch_session :: "u32 \<Rightarrow> bool \<Rightarrow> bool \<Rightarrow> lag \<Rightarrow> launch \<times> lag" where
  "launch_session depth on_its_loop memory l =
     (if inside_run depth \<and> \<not> on_its_loop then ((if memory then Posted else No_memory), l)
      else ((if memory then Spawned else No_memory), note_activity l))"

text \<open>A posted launch runs on the loop of its session, where it is not posted again.\<close>

lemma launch_posted_once:
  "fst (launch_session depth on_its_loop memory l) = Posted \<Longrightarrow> fst (launch_session depth' True memory' l') \<noteq> Posted"
  by (simp add: launch_session_def)

text \<open>What happens on a session loop.\<close>

datatype session_op =
    Run_session "int \<Rightarrow> (endpoint \<times> nat) option" nat int endpoint
  | Session_end nat
  | Request_stop
  | Walk_abort
  | Walk_force "nat \<Rightarrow> int \<Rightarrow> (endpoint \<times> nat) option"

fun session_step :: "nat \<Rightarrow> session_op \<Rightarrow> session_loop \<Rightarrow> session_loop option" where
  "session_step capacity (Run_session names a fd peer) r =
     Some (if phases r a = Serving then r else run_session capacity names a fd peer r)"
| "session_step capacity (Session_end a) r = Some (if phases r a = Serving then session_end a r else r)"
| "session_step capacity Request_stop r = Some (abort_all r)"
| "session_step capacity Walk_abort r = (if walks_due r = 0 then Some r else abort_walk control_abort r)"
| "session_step capacity (Walk_force names) r = force_walk (\<lambda>a. control_force capacity (names a) a) r"

fun session_run :: "nat \<Rightarrow> session_op list \<Rightarrow> session_loop \<Rightarrow> session_loop option" where
  "session_run capacity [] r = Some r"
| "session_run capacity (x # xs) r = Option.bind (session_step capacity x r) (session_run capacity xs)"

section \<open>What shutdown does to the sessions\<close>

text \<open>The flags of a control follow the calls made to it, and the running sessions are the
  tracked objects.\<close>

definition controls_follow :: "session_loop \<Rightarrow> bool" where
  "controls_follow r \<longleftrightarrow> (\<forall>a.
     (since_tracked Aborted (calls r) a \<longrightarrow> c_aborted (controls r a) \<and> c_stop (controls r a))
   \<and> (since_tracked Forced (calls r) a \<longrightarrow> c_forced (controls r a) \<noteq> None)
   \<and> hook_list (nodes r a) = (if phases r a = Serving then Some 0 else None))"

lemma control_fields [simp]:
  "calls (control_abort a r) = calls r" "calls (control_force cap names a r) = calls r"
  "calls (set_phase a p r) = calls r" "controls (set_phase a p r) = controls r"
  "nodes (control_abort a r) = nodes r" "nodes (control_force cap names a r) = nodes r"
  "nodes (set_phase a p r) = nodes r" "phases (set_phase a p r) = (phases r)(a := p)"
  "walked (control_abort a r) = walked r" "forced (control_abort a r) = forced r"
  "walked (control_force cap names a r) = walked r" "forced (control_force cap names a r) = forced r"
  "phases (control_abort a r) = phases r" "phases (control_force cap names a r) = phases r"
  "controls (control_abort a r) = (controls r)(a := (controls r a)\<lparr>c_aborted := True, c_stop := True\<rparr>)"
  by (simp_all add: control_abort_def control_force_def set_phase_def Let_def)

lemma control_force_controls [simp]:
  "c_forced (controls (control_force cap names a r) b) = None \<longleftrightarrow> b \<noteq> a \<and> c_forced (controls r b) = None"
  "c_aborted (controls (control_force cap names a r) b) = c_aborted (controls r b)"
  "c_stop (controls (control_force cap names a r) b) = c_stop (controls r b)"
  by (simp_all add: control_force_def Let_def)

lemma session_store_fields [simp]:
  "controls (add L a r) = controls r" "phases (add L a r) = phases r"
  "controls (remove L a r) = controls r" "phases (remove L a r) = phases r"
  "controls (set_cursor L c r) = controls r" "phases (set_cursor L c r) = phases r"
  "controls (note_call c' r) = controls r" "phases (note_call c' r) = phases r" "nodes (note_call c' r) = nodes r"
  by (simp_all add: add_def remove_def Let_def set_node_def set_list_def set_cursor_def note_call_def
      split: option.splits)

lemma control_keeps: "keeps pa pf (control_abort a)" "keeps pa pf (control_force cap names a)"
  by (rule keeps_frame, simp add: control_abort_def control_force_def flags_def Let_def)+

interpretation session_walks: overrides control_abort "\<lambda>a. control_force cap (names a) a" controls_follow for cap names
proof
  show "\<And>r a. controls_follow r \<Longrightarrow> walked r \<Longrightarrow> controls_follow (control_abort a (note_call (Aborted a) r))"
    by (auto simp: controls_follow_def)
  show "\<And>r a. controls_follow r \<Longrightarrow> forced r \<Longrightarrow>
      controls_follow (control_force cap (names a) a (note_call (Forced a) r))"
    by (auto simp: controls_follow_def)
  show "\<And>r c. controls_follow r \<Longrightarrow> controls_follow (set_cursor 0 c r)"
    by (simp add: controls_follow_def)
qed (simp_all add: control_keeps controls_follow_def)

definition session_ok :: "session_loop \<Rightarrow> bool" where
  "session_ok r \<longleftrightarrow> (\<exists>xs. reactor_ok r xs) \<and> controls_follow r"

lemma reactor_ok_frame:
  "reactor_ok r xs \<Longrightarrow> nodes r' = nodes r \<Longrightarrow> lists r' = lists r \<Longrightarrow> flags r' = flags r \<Longrightarrow> calls r' = calls r \<Longrightarrow>
     reactor_ok r' xs"
  using represents_cong [of r' r 0 xs "[]"]
  by (simp add: reactor_ok_def reactor_inv_def swept_def settled_def flags_def)

lemma reactor_ok_keeps: "keeps False False f \<Longrightarrow> reactor_ok r xs \<Longrightarrow> \<exists>xs'. reactor_ok (f r) xs'"
  by (auto simp: reactor_ok_def flags_def elim!: keepsD [where r = r and xs = xs])

lemma session_ok_initial: "session_ok session_loop_initial"
proof -
  have "reactor_ok session_loop_initial []"
    by (simp add: reactor_ok_def reactor_inv_def session_loop_initial_def reactor_initial_def represents_def
        swept_def reactor.defs)
  then show ?thesis
    by (auto simp: session_ok_def controls_follow_def session_loop_initial_def reactor_initial_def reactor.defs
        since_tracked_def)
qed

lemma remove_hook: "hook_list (nodes r a) \<in> {None, Some 0} \<Longrightarrow> hook_list (nodes (remove 0 a r) b) =
    (if b = a then None else hook_list (nodes r b))"
  by (auto simp: remove_def Let_def split: option.splits)

lemma untrack_ok: "reactor_ok r xs \<Longrightarrow> \<exists>xs'. reactor_ok (untrack a r) xs'"
  by (rule reactor_ok_keeps [OF untrack_keeps])

lemma session_end_ok: "session_ok r \<Longrightarrow> phases r a = Serving \<Longrightarrow> session_ok (session_end a r)"
proof -
  assume ok: "session_ok r" and a: "phases r a = Serving"
  then obtain xs where "reactor_ok (untrack a r) xs"
    using untrack_ok [of r _ a] by (auto simp: session_ok_def)
  then have "reactor_ok (session_end a r) xs"
    by (rule reactor_ok_frame) (simp_all add: session_end_def set_phase_def flags_def)
  moreover have "hook_list (nodes r a) = Some 0"
    using ok a by (simp add: session_ok_def controls_follow_def)
  ultimately show ?thesis
    using ok by (auto simp: session_ok_def controls_follow_def session_end_def untrack_def remove_hook)
qed

text \<open>A control just tracked: what \<^verbatim>\<open>run_session\<close> finds after \<^verbatim>\<open>track\<close>.\<close>

lemma add_controls: "add L a (r\<lparr>controls := c\<rparr>) = (add L a r)\<lparr>controls := c\<rparr>"
  by (simp add: add_def Let_def set_node_def set_list_def split: option.splits)

lemma tracked_control:
  fixes r :: session_loop
  assumes "r2 = track (control_abort a) (control_force cap names a) a
      (r\<lparr>controls := (controls r)(a := control_initial fd peer)\<rparr>)"
  shows "nodes r2 = nodes (add 0 a r)" "phases r2 = phases r"
    and "c_aborted (controls r2 b) = (if b = a then walked r else c_aborted (controls r b))"
    and "c_stop (controls r2 b) = (if b = a then walked r else c_stop (controls r b))"
    and "c_forced (controls r2 b) = None \<longleftrightarrow> (if b = a then \<not> forced r else c_forced (controls r b) = None)"
    and "since_tracked Aborted (calls r2) b = (if b = a then walked r else since_tracked Aborted (calls r) b)"
    and "since_tracked Forced (calls r2) b = (if b = a then forced r else since_tracked Forced (calls r) b)"
  unfolding assms by (auto simp: track_def Let_def add_controls control_initial_def)

lemma run_session_ok:
  assumes ok: "session_ok r" and a: "phases r a \<noteq> Serving"
  shows "session_ok (run_session cap names a fd peer r)"
    and "phases (run_session cap names a fd peer r) a = (if walked r then Closed else Serving)"
proof -
  let ?r1 = "r\<lparr>controls := (controls r)(a := control_initial fd peer)\<rparr>"
  define r2 where "r2 = track (control_abort a) (control_force cap names a) a ?r1"
  note t = tracked_control [OF r2_def]
  have run: "run_session cap names a fd peer r =
      (if walked r then set_phase a Closed (untrack a r2) else set_phase a Serving r2)"
    using t(3) [of a] by (simp add: run_session_def Let_def r2_def)
  have na: "hook_list (nodes r a) = None" and J: "controls_follow r"
    using ok a by (simp_all add: session_ok_def controls_follow_def)
  obtain xs where "reactor_ok r xs" using ok by (auto simp: session_ok_def)
  then have "reactor_ok ?r1 xs"
    by (rule reactor_ok_frame) (simp_all add: flags_def)
  then have "\<exists>xs'. reactor_ok r2 xs'"
    using track_keeps [OF control_keeps(1) control_keeps(2), of False False "{}" "{}" ?r1 xs "[]" a a cap names a] na
    by (auto simp: reactor_ok_def r2_def flags_def)
  moreover have follow: "(since_tracked Aborted (calls r2) b \<longrightarrow> c_aborted (controls r2 b) \<and> c_stop (controls r2 b))
      \<and> (since_tracked Forced (calls r2) b \<longrightarrow> c_forced (controls r2 b) \<noteq> None)
      \<and> hook_list (nodes r2 b) = (if b = a \<or> phases r b = Serving then Some 0 else None)" for b
    using J t by (simp add: controls_follow_def add_owner)
  ultimately obtain xs' where r2: "reactor_ok r2 xs'" by blast
  show "session_ok (run_session cap names a fd peer r)"
  proof (cases "walked r")
    case True
    obtain xs'' where "reactor_ok (untrack a r2) xs''"
      using untrack_ok [OF r2, of a] by blast
    then have "reactor_ok (set_phase a Closed (untrack a r2)) xs''"
      by (rule reactor_ok_frame) (simp_all add: set_phase_def flags_def)
    moreover have "controls_follow (set_phase a Closed (untrack a r2))"
      using follow t(2) by (simp add: controls_follow_def untrack_def remove_hook)
    ultimately show ?thesis using True by (auto simp: session_ok_def run)
  next
    case False
    have "reactor_ok (set_phase a Serving r2) xs'"
      using r2 by (rule reactor_ok_frame) (simp_all add: set_phase_def flags_def)
    moreover have "controls_follow (set_phase a Serving r2)"
      using follow t(2) by (simp add: controls_follow_def)
    ultimately show ?thesis using False by (auto simp: session_ok_def run)
  qed
  show "phases (run_session cap names a fd peer r) a = (if walked r then Closed else Serving)"
    by (simp add: run)
qed

lemma session_step_ok:
  assumes ok: "session_ok r"
  shows "\<exists>r'. session_step cap x r = Some r' \<and> session_ok r'"
proof (cases x)
  case (Run_session names a fd peer)
  then show ?thesis using run_session_ok(1) [OF ok] ok by simp
next
  case (Session_end a)
  then show ?thesis using session_end_ok [OF ok] ok by simp
next
  case Request_stop
  have "controls_follow (abort_all r)"
    using ok by (simp add: session_ok_def controls_follow_def abort_all_def)
  then show ?thesis using Request_stop ok abort_all_ok [of r] by (auto simp: session_ok_def)
next
  case Walk_abort
  then show ?thesis
    using ok session_walks.abort_walk_ok [of r] by (auto simp: session_ok_def)
next
  case (Walk_force names)
  then show ?thesis
    using ok session_walks.force_walk_ok [of r _ cap names] by (auto simp: session_ok_def)
qed

lemma session_run_ok: "session_ok r \<Longrightarrow> \<exists>r'. session_run cap xs r = Some r' \<and> session_ok r'"
proof (induction xs arbitrary: r)
  case (Cons x xs)
  obtain r' where "session_step cap x r = Some r'" "session_ok r'"
    using session_step_ok [OF Cons.prems] by blast
  then show ?case using Cons.IH [of r'] by simp
qed simp

lemma serving_settled:
  assumes "session_ok r" and "phases r a = Serving"
  shows "walked r \<Longrightarrow> c_aborted (controls r a) \<and> c_stop (controls r a)"
    and "forced r \<Longrightarrow> c_forced (controls r a) \<noteq> None"
proof -
  obtain xs where ok: "reactor_ok r xs" and J: "controls_follow r"
    using assms(1) by (auto simp: session_ok_def)
  have "hook_list (nodes r a) = Some 0"
    using J assms(2) by (simp add: controls_follow_def)
  then have "a \<in> set xs" and sw: "swept r xs {} {}"
    using ok represents_list_iff [of r 0 xs "[]" a] by (simp_all add: reactor_ok_def reactor_inv_def)
  then show "walked r \<Longrightarrow> c_aborted (controls r a) \<and> c_stop (controls r a)"
    and "forced r \<Longrightarrow> c_forced (controls r a) \<noteq> None"
    using J unfolding controls_follow_def swept_def settled_def by blast+
qed

lemma admitted_holders: "holders 0 (map (\<lambda>t. if t_lease t then Some 0 else None) ts) = length (filter t_lease ts)"
  by (induction ts) auto

section \<open>Properties\<close>

text \<open>C9: every session is counted once and refunds its admission first. After any accepts,
  moves of tickets and (interleaved) steps of their destructors, the session count of
  each reactor is the number of tickets that count on it, \<^verbatim>\<open>active\<close> is the number of
  tickets that hold an admission, within the bound, and when the count of every reactor
  is zero no connection is admitted any more.\<close>

theorem tickets_counted_once:
  assumes "w = foldl ticket_step \<lparr>reactors = replicate n reactor_initial, admission = ca_initial m, tickets = []\<rparr> ops"
    and "length ops < 2 ^ 64"
  shows "(\<forall>k < n. unat (sessions (reactors w ! k)) = holders k (map t_reactor (tickets w)))
    \<and> unat (active (admission w)) = length (filter t_lease (tickets w))
    \<and> active (admission w) \<le> maximum (admission w)
    \<and> ((\<forall>k < n. sessions_ended (reactors w ! k)) \<longrightarrow> active (admission w) = 0)"
proof -
  let ?w = "\<lparr>reactors = replicate n reactor_initial, admission = ca_initial m, tickets = []\<rparr>"
  have "ticket_inv ?w"
    by (simp add: ticket_inv_def balanced_def ca_initial_def reactor_initial_def)
  from ticket_run_inv [OF this, of ops] have inv: "ticket_inv w" and n: "length (reactors w) = n"
    using assms by simp_all
  have seats: "unat (sessions (reactors w ! k)) = holders k (seats w)" if "k < n" for k
    using inv n that by (simp add: ticket_inv_def balanced_def)
  have act: "unat (active (admission w)) = length (filter t_lease (tickets w))"
    using inv admitted_holders [of "tickets w"] by (simp add: ticket_inv_def balanced_def)
  have "active (admission w) = 0" if ended: "\<forall>k < n. sessions_ended (reactors w ! k)"
  proof (rule ccontr)
    assume "active (admission w) \<noteq> 0"
    then have "0 < unat (active (admission w))" by (simp add: unat_gt_0)
    then obtain i where i: "i < length (tickets w)" "t_lease (tickets w ! i)"
      using act by (metis filter_False in_set_conv_nth length_0_conv nat_less_le)
    then obtain k where k: "t_reactor (tickets w ! i) = Some k"
      using inv by (force simp: ticket_inv_def)
    have "k < n"
      using inv n i k balanced_pointer [of seat_count "reactors w" "seats w" i k] by (simp add: ticket_inv_def)
    then show False
      using ended seats [of k] i k holders_pos [of i "seats w" k] by (simp add: sessions_ended_def)
  qed
  then show ?thesis using seats act inv by (simp add: ticket_inv_def)
qed

theorem tickets_counted_once_witness:
  "active (admission (foldl ticket_step \<lparr>reactors = replicate 1 reactor_initial, admission = ca_initial 1, tickets = []\<rparr>
     [Accept_bounded 0, Ticket_move 0, Ticket_refund 1])) = 0
   \<and> unat (sessions (reactors (foldl ticket_step
       \<lparr>reactors = replicate 1 reactor_initial, admission = ca_initial 1, tickets = []\<rparr>
       [Accept_bounded 0, Ticket_move 0, Ticket_refund 1]) ! 0)) = 1"
  using tickets_counted_once [OF refl, of "[Accept_bounded 0, Ticket_move 0, Ticket_refund 1]" 1 1]
  by (simp add: try_enter_def ca_initial_def ticket_construct_def ticket_move_construct_def ticket_refund_def
      Let_def lease_release_def)


text \<open>One session runs, and the loop is shut down around it.\<close>

definition one_session :: "session_op list" where
  "one_session = [Run_session (\<lambda>_. None) 1 7 (10, 80), Request_stop, Walk_abort]"

lemma one_session_run:
  "map_option (\<lambda>r. (phases r 1, walked r)) (session_run 28 one_session session_loop_initial) = Some (Serving, True)"
  by (simp add: one_session_def session_loop_initial_def reactor_initial_def reactor.defs run_session_def track_def
      abort_all_def abort_walk_def note_call_def each_def each_loop.simps [of 0] add_def Let_def set_node_def
      set_list_def set_cursor_def set_phase_def control_initial_def control_abort_def)


end
