(* ===== verification/Accept.thy ===== *)
theory Accept
  imports Session
begin

text \<open>
  Accepting connections: the error classes, \<^verbatim>\<open>AcceptControl\<close> and the two accept loops of
  \<^verbatim>\<open>src/reactor.h\<close>. An accept loop is a coroutine; its model is a state machine that
  stands at its suspension points (a pending accept, a pause of \<^verbatim>\<open>retry\<close>) and moves
  with what completes: a connection, an error, a timer. The target of \<^verbatim>\<open>accept_loop\<close> is
  its own reactor, that of \<^verbatim>\<open>shared_accept_loop\<close> goes round.

  Shown: what \<^verbatim>\<open>retry\<close> does with every error, that its pauses grow from 10 ms to a second
  and that per-connection errors cannot make it spin; that a loop asked to stop admits
  nothing and ends with its next completion; that connections of an undisturbed shared
  loop go round the reactors, while failed accepts use up turns; that the admission is
  held by exactly the launched sessions; and what \<^verbatim>\<open>wait_listening\<close> reports of a start.
\<close>

section \<open>Errors of an accept\<close>

text \<open>What the platform defines: \<^verbatim>\<open>__APPLE__\<close>, \<^verbatim>\<open>ENONET\<close>.\<close>

record platform =
  apple :: bool
  has_enonet :: bool

definition retryable_accept_error :: "error_code \<Rightarrow> bool" where
  "retryable_accept_error e \<longleftrightarrow>
     e = system_error EMFILE \<or> ec_value e = ENFILE \<or> e = system_error ENOBUFS \<or> e = system_error ENOMEM
   \<or> e = system_error EINTR \<or> e = system_error EAGAIN \<or> e = system_error EWOULDBLOCK"

definition per_connection_accept_error :: "platform \<Rightarrow> error_code \<Rightarrow> bool" where
  "per_connection_accept_error p e =
     (if e = system_error ECONNABORTED \<or> e = system_error ECONNRESET then True
      else if ec_value e \<in> {ECONNABORTED, ECONNRESET, EPROTO, ENETDOWN, ENETUNREACH, EHOSTDOWN, EHOSTUNREACH,
                EOPNOTSUPP, ENOPROTOOPT}
      then ec_category e = System_category
      else if has_enonet p \<and> ec_value e = ENONET then ec_category e = System_category
      else if apple p \<and> ec_value e = EINVAL then ec_category e = System_category
      else False)"

section \<open>The control of a listener\<close>

text \<open>Delays are in milliseconds; \<open>acceptor\<close> is false once the acceptor has been given up;
  \<open>reported\<close> collects what \<^verbatim>\<open>finish\<close> prints.\<close>

record accept_control =
  retry_delay :: int
  skipped :: u32
  bound :: endpoint
  ac_stopping :: bool
  ready :: bool
  finished :: bool
  acceptor :: bool
  startup_error :: "exn option"
  reported :: "exn list"

definition accept_control_initial :: accept_control where
  "accept_control_initial = \<lparr>retry_delay = 10, skipped = 0, bound = (0, 0), ac_stopping = False, ready = False,
     finished = False, acceptor = True, startup_error = None, reported = []\<rparr>"

text \<open>\<open>local\<close>: what \<^verbatim>\<open>local_endpoint\<close> answers, \<open>None\<close> for an error.\<close>

definition listener_lost :: "endpoint option \<Rightarrow> error_code \<Rightarrow> accept_control \<Rightarrow> bool" where
  "listener_lost local e c =
     (if ec_value e \<noteq> EINVAL \<or> ec_category e \<noteq> System_category then False
      else local = None \<or> local \<noteq> Some (bound c))"

text \<open>\<^verbatim>\<open>retry\<close> up to its timer: it returns, throws, or waits for so many milliseconds; and what
  it returns after the timer.\<close>

datatype retried = Returns bool | Throws exn | Waits int

definition retry :: "platform \<Rightarrow> endpoint option \<Rightarrow> error_code \<Rightarrow> accept_control \<Rightarrow> retried \<times> accept_control" where
  "retry p local e c =
     (if ac_stopping c then (Returns False, c)
      else
        let per_connection = per_connection_accept_error p e \<and> \<not> listener_lost local e c;
            c1 = (if per_connection then c\<lparr>skipped := skipped c + 1\<rparr> else c)
        in if per_connection \<and> skipped c1 \<le> 64 then (Returns True, c1)
           else if \<not> per_connection \<and> \<not> retryable_accept_error e then (Throws (System_error e), c1)
           else if per_connection then (Waits 1, c1)
           else (Waits (retry_delay c1), c1\<lparr>retry_delay := min (retry_delay c1 * 2) 1000\<rparr>))"

definition retry_after :: "bool \<Rightarrow> accept_control \<Rightarrow> bool" where
  "retry_after timer_error c \<longleftrightarrow> \<not> timer_error \<and> \<not> ac_stopping c"

definition listening :: "accept_control \<Rightarrow> accept_control" where
  "listening c = c\<lparr>ready := True\<rparr>"

definition finish :: "exn option \<Rightarrow> accept_control \<Rightarrow> accept_control" where
  "finish error c =
     (let was_listening = ready c;
          c1 = (case error of
                  Some x \<Rightarrow> if was_listening then c\<lparr>reported := reported c @ [x]\<rparr> else c
                | None \<Rightarrow> c)
      in c1\<lparr>acceptor := False, startup_error := error, finished := True\<rparr>)"

text \<open>\<^verbatim>\<open>wait_listening\<close>: \<open>None\<close> while it waits.\<close>

definition wait_listening :: "accept_control \<Rightarrow> (exn + unit) option" where
  "wait_listening c =
     (if ready c then Some (Inr ())
      else if finished c then
        Some (Inl (case startup_error c of
                     Some x \<Rightarrow> x
                   | None \<Rightarrow> Runtime_error ''TCP listener stopped during startup''))
      else None)"

text \<open>The condition \<^verbatim>\<open>wait\<close> waits for.\<close>

definition wait_finished :: "accept_control \<Rightarrow> bool" where
  [simp]: "wait_finished c \<longleftrightarrow> finished c"

section \<open>The accept loops\<close>

record bind_options =
  bo_address :: string
  bo_reuse_port :: bool
  bo_tcp_nodelay :: bool
  bo_backlog :: int

definition bind_options_default :: bind_options where
  "bind_options_default = \<lparr>bo_address = [], bo_reuse_port = False, bo_tcp_nodelay = True, bo_backlog = 1024\<rparr>"

text \<open>The calls that set up a listener, in order; \<open>fails\<close> says which of them throws what, and
  \<open>bound_to\<close> is the endpoint the system reports. \<^verbatim>\<open>make_address\<close> is called only for an
  address that is not empty.\<close>

datatype setup_call = Make_address string | Open | Reuse_address | Reuse_port | Bind | Listen int | Local_endpoint

definition setup_calls :: "bool \<Rightarrow> bind_options \<Rightarrow> setup_call list" where
  "setup_calls shared b =
     (if bo_address b = [] then [] else [Make_address (bo_address b)])
   @ [Open, Reuse_address] @ (if \<not> shared \<and> bo_reuse_port b then [Reuse_port] else [])
   @ [Bind, Listen (bo_backlog b), Local_endpoint]"

fun first_failure :: "(setup_call \<Rightarrow> exn option) \<Rightarrow> setup_call list \<Rightarrow> exn option" where
  "first_failure fails [] = None"
| "first_failure fails (x # xs) = (case fails x of Some e \<Rightarrow> Some e | None \<Rightarrow> first_failure fails xs)"

text \<open>Where a loop stands: before its set-up, at the head of its \<^verbatim>\<open>while\<close>, in an accept onto a
  reactor, in a pause, at its end, out by an exception.\<close>

datatype accept_pc = Setup | Head | Accepting nat | Pausing | Ended | Threw exn

text \<open>\<open>targets\<close> are the reactors of the loop, one for \<^verbatim>\<open>accept_loop\<close>; \<open>next_target\<close> indexes
  them. \<open>launched\<close> are the sessions launched, by reactor, \<open>pauses\<close> the pauses made, both
  latest last; \<open>refused\<close> counts the connections the admission refused and
  \<open>over\<close> the sessions that have ended.\<close>

record accept_state =
  control :: accept_control
  pc :: accept_pc
  targets :: "nat list"
  next_target :: nat
  bounded_by :: "ca_state option"
  launched :: "nat list"
  pauses :: "int list"
  refused :: nat
  over :: nat

definition accept_initial :: "nat list \<Rightarrow> ca_state option \<Rightarrow> accept_state" where
  "accept_initial ts adm = \<lparr>control = accept_control_initial, pc = Setup, targets = ts, next_target = 0,
     bounded_by = adm, launched = [], pauses = [], refused = 0, over = 0\<rparr>"

text \<open>The completion handler the loop is spawned with hands its end to \<^verbatim>\<open>finish\<close>.\<close>

definition leave :: "accept_pc \<Rightarrow> accept_state \<Rightarrow> accept_state" where
  "leave l s =
     (case l of
        Ended \<Rightarrow> s\<lparr>pc := l, control := finish None (control s)\<rparr>
      | Threw x \<Rightarrow> s\<lparr>pc := l, control := finish (Some x) (control s)\<rparr>
      | _ \<Rightarrow> s\<lparr>pc := l\<rparr>)"

text \<open>The set-up and the first line of the loop.\<close>

definition accept_setup :: "bool \<Rightarrow> bind_options \<Rightarrow> (setup_call \<Rightarrow> exn option) \<Rightarrow> endpoint \<Rightarrow> accept_state \<Rightarrow> accept_state" where
  "accept_setup shared b fails bound_to s =
     (if ac_stopping (control s) then leave Ended s
      else case first_failure fails (setup_calls shared b) of
             Some x \<Rightarrow> leave (Threw x) s
           | None \<Rightarrow> s\<lparr>control := listening ((control s)\<lparr>bound := bound_to\<rparr>), pc := Head\<rparr>)"

text \<open>The head of the loop: the next reactor of \<open>targets\<close> is taken and the index goes round.\<close>

definition accept_head :: "accept_state \<Rightarrow> accept_state" where
  "accept_head s =
     (if ac_stopping (control s) then leave Ended s
      else s\<lparr>pc := Accepting (targets s ! next_target s),
             next_target := (if next_target s + 1 = length (targets s) then 0 else next_target s + 1)\<rparr>)"

text \<open>\<^verbatim>\<open>co_await control->retry(error)\<close> and what the loop does with the answer.\<close>

definition accept_retry :: "platform \<Rightarrow> endpoint option \<Rightarrow> error_code \<Rightarrow> accept_state \<Rightarrow> accept_state" where
  "accept_retry p local e s =
     (case retry p local e (control s) of
        (Returns True, c) \<Rightarrow> leave Head (s\<lparr>control := c\<rparr>)
      | (Returns False, c) \<Rightarrow> leave Ended (s\<lparr>control := c\<rparr>)
      | (Throws x, c) \<Rightarrow> leave (Threw x) (s\<lparr>control := c\<rparr>)
      | (Waits d, c) \<Rightarrow> s\<lparr>control := c, pc := Pausing, pauses := pauses s @ [d]\<rparr>)"

text \<open>The admission of a connection, if there is a bound, and the launch of its session on reactor
  \<open>k\<close>. \<open>memory\<close>: whether the launch finds the memory it needs; without it the ticket, and
  so the lease, is given back and the loop backs off.\<close>

definition admit :: "ca_state option \<Rightarrow> bool \<times> ca_state option" where
  "admit adm = (case adm of None \<Rightarrow> (True, None) | Some a \<Rightarrow> (fst (try_enter a), Some (snd (try_enter a))))"

definition accept_launch :: "platform \<Rightarrow> bool \<Rightarrow> nat \<Rightarrow> accept_state \<Rightarrow> accept_state" where
  "accept_launch p memory k s =
     (if memory then s\<lparr>launched := launched s @ [k], pc := Head\<rparr>
      else accept_retry p None (system_error ENOMEM) (s\<lparr>bounded_by := map_option lease_release (bounded_by s)\<rparr>))"

definition accept_connection :: "platform \<Rightarrow> bool \<Rightarrow> nat \<Rightarrow> accept_state \<Rightarrow> accept_state" where
  "accept_connection p memory k s =
     (let s1 = s\<lparr>control := (control s)\<lparr>retry_delay := 10, skipped := 0\<rparr>\<rparr> in
      if ac_stopping (control s1) then leave Ended s1
      else
        let s2 = s1\<lparr>bounded_by := snd (admit (bounded_by s1))\<rparr> in
        if \<not> fst (admit (bounded_by s1)) then s2\<lparr>refused := refused s2 + 1, pc := Head\<rparr>
        else accept_launch p memory k s2)"

text \<open>What moves an accept loop: it is started; its head runs; its accept completes with an
  error or a connection; its pause ends; a launched session ends and gives its lease back;
  \<^verbatim>\<open>stop()\<close> sets the flag.\<close>

datatype accept_op =
    Do_setup bool bind_options "setup_call \<Rightarrow> exn option" endpoint
  | Do_head
  | Accept_error error_code "endpoint option"
  | Accept_done bool
  | Pause_over bool
  | Session_over
  | Set_stopping

fun accept_step :: "platform \<Rightarrow> accept_op \<Rightarrow> accept_state \<Rightarrow> accept_state" where
  "accept_step p (Do_setup shared b fails bound_to) s =
     (if pc s = Setup then accept_setup shared b fails bound_to s else s)"
| "accept_step p Do_head s = (if pc s = Head then accept_head s else s)"
| "accept_step p (Accept_error e local) s =
     (case pc s of Accepting k \<Rightarrow> accept_retry p local e s | _ \<Rightarrow> s)"
| "accept_step p (Accept_done memory) s =
     (case pc s of Accepting k \<Rightarrow> accept_connection p memory k s | _ \<Rightarrow> s)"
| "accept_step p (Pause_over timer_error) s =
     (if pc s = Pausing then leave (if retry_after timer_error (control s) then Head else Ended) s else s)"
| "accept_step p Session_over s =
     (if over s < length (launched s)
      then s\<lparr>over := over s + 1, bounded_by := map_option lease_release (bounded_by s)\<rparr> else s)"
| "accept_step p Set_stopping s = s\<lparr>control := (control s)\<lparr>ac_stopping := True\<rparr>\<rparr>"

text \<open>\<^verbatim>\<open>stop_on_owner\<close>: closing the acceptor completes a pending accept with
  \<^verbatim>\<open>operation_aborted\<close>, cancelling the timer a pause with an error.\<close>

definition stop_on_owner :: "accept_state \<Rightarrow> accept_op list" where
  "stop_on_owner s =
     (case pc s of
        Accepting k \<Rightarrow> if acceptor (control s) then [Accept_error (system_error ECANCELED) None] else []
      | Pausing \<Rightarrow> [Pause_over True]
      | _ \<Rightarrow> [])"

definition accept_run :: "platform \<Rightarrow> accept_op list \<Rightarrow> accept_state \<Rightarrow> accept_state" where
  "accept_run p ops s = fold (accept_step p) ops s"

section \<open>Sequences of errors\<close>

lemma retryable_not_connection: "retryable_accept_error e \<Longrightarrow> \<not> per_connection_accept_error p e"
  by (auto simp: retryable_accept_error_def per_connection_accept_error_def system_error_eq_iff)

lemma retry_stopping: "ac_stopping c \<Longrightarrow> retry p local e c = (Returns False, c)"
  by (simp add: retry_def)

lemma retry_resource:
  "\<not> ac_stopping c \<Longrightarrow> retryable_accept_error e \<Longrightarrow>
     retry p local e c = (Waits (retry_delay c), c\<lparr>retry_delay := min (retry_delay c * 2) 1000\<rparr>)"
  using retryable_not_connection [of e p] by (simp add: retry_def Let_def)

lemma retry_connection:
  "\<not> ac_stopping c \<Longrightarrow> per_connection_accept_error p e \<Longrightarrow> \<not> listener_lost local e c \<Longrightarrow>
     retry p local e c = ((if skipped c + 1 \<le> 64 then Returns True else Waits 1), c\<lparr>skipped := skipped c + 1\<rparr>)"
  by (simp add: retry_def Let_def)

text \<open>The answers to errors that follow each other, each with what \<^verbatim>\<open>local_endpoint\<close> says.\<close>

fun retries :: "platform \<Rightarrow> (error_code \<times> endpoint option) list \<Rightarrow> accept_control \<Rightarrow> retried list" where
  "retries p [] c = []"
| "retries p ((e, local) # es) c = (case retry p local e c of (a, c') \<Rightarrow> a # retries p es c')"

lemma retries_resource:
  "\<not> ac_stopping c \<Longrightarrow> (\<forall>(e, l) \<in> set es. retryable_accept_error e) \<Longrightarrow> retry_delay c = min (10 * 2 ^ k) 1000 \<Longrightarrow>
     retries p es c = map (\<lambda>i. Waits (min (10 * 2 ^ (k + i)) 1000)) [0..<length es]"
proof (induction es arbitrary: c k)
  case (Cons x es)
  obtain e l where x: "x = (e, l)" by (cases x)
  let ?c = "c\<lparr>retry_delay := min (retry_delay c * 2) 1000\<rparr>"
  have d: "retry_delay ?c = min (10 * 2 ^ Suc k) 1000"
    using Cons.prems(3) by (simp add: min_def)
  have "retries p es ?c = map (\<lambda>i. Waits (min (10 * 2 ^ (Suc k + i)) 1000)) [0..<length es]"
    by (rule Cons.IH) (use Cons.prems d in auto)
  then show ?case
    using Cons.prems retry_resource [of c e p l] x
    by (simp add: upt_conv_Cons comp_def del: upt_Suc flip: map_Suc_upt)
qed simp

lemma retries_connection:
  "\<not> ac_stopping c \<Longrightarrow> (\<forall>(e, l) \<in> set es. per_connection_accept_error p e \<and> l = Some (bound c)) \<Longrightarrow>
     skipped c = of_nat k \<Longrightarrow> k + length es < 2 ^ 32 \<Longrightarrow>
     retries p es c = map (\<lambda>i. if k + i < 64 then Returns True else Waits 1) [0..<length es]"
proof (induction es arbitrary: c k)
  case (Cons x es)
  obtain e l where x: "x = (e, l)" by (cases x)
  let ?c = "c\<lparr>skipped := skipped c + 1\<rparr>"
  have "\<not> listener_lost l e c"
    using Cons.prems(2) x by (auto simp: listener_lost_def)
  moreover have "unat (of_nat k + 1 :: u32) = k + 1"
    using Cons.prems(4) by (simp add: unat_word_ariths unat_of_nat take_bit_eq_mod)
  then have "skipped c + 1 \<le> 64 \<longleftrightarrow> k < 64"
    using Cons.prems(3) by (auto simp: word_le_nat_alt)
  moreover have "retries p es ?c = map (\<lambda>i. if Suc k + i < 64 then Returns True else Waits 1) [0..<length es]"
    by (rule Cons.IH) (use Cons.prems in \<open>auto simp: add.commute\<close>)
  ultimately show ?case
    using Cons.prems retry_connection [of c p e l] x
    by (simp add: upt_conv_Cons comp_def del: upt_Suc flip: map_Suc_upt)
qed simp

section \<open>Invariants of a loop\<close>

text \<open>What the control knows of its loop.\<close>

definition accept_inv :: "accept_state \<Rightarrow> bool" where
  "accept_inv s \<longleftrightarrow> acceptor (control s) = (\<not> finished (control s)) \<and> (case pc s of
       Setup \<Rightarrow> \<not> ready (control s) \<and> \<not> finished (control s) \<and> reported (control s) = []
     | Ended \<Rightarrow> finished (control s) \<and> startup_error (control s) = None \<and> reported (control s) = []
     | Threw x \<Rightarrow> finished (control s) \<and> startup_error (control s) = Some x
         \<and> reported (control s) = (if ready (control s) then [x] else [])
     | _ \<Rightarrow> ready (control s) \<and> \<not> finished (control s) \<and> reported (control s) = [])"

text \<open>Fields of the control that \<^verbatim>\<open>retry\<close> leaves alone.\<close>

lemma retry_fields:
  assumes "retry p local e c = (a, c')"
  shows "ready c' = ready c" "finished c' = finished c" "reported c' = reported c"
    "startup_error c' = startup_error c" "ac_stopping c' = ac_stopping c" "acceptor c' = acceptor c"
  using assms by (auto simp: retry_def Let_def split: if_splits)

lemma finish_fields [simp]:
  "finished (finish x c)" "startup_error (finish x c) = x" "ready (finish x c) = ready c"
  "ac_stopping (finish x c) = ac_stopping c" "\<not> acceptor (finish x c)"
  "reported (finish x c) = reported c @ (case x of Some y \<Rightarrow> if ready c then [y] else [] | None \<Rightarrow> [])"
  by (auto simp: finish_def Let_def split: option.splits)

lemma accept_retry_inv:
  assumes "accept_inv s" and "pc s = Accepting k"
  shows "accept_inv (accept_retry p local e s)"
proof -
  obtain a c where r: "retry p local e (control s) = (a, c)" by (cases "retry p local e (control s)")
  show ?thesis
    using assms retry_fields [OF r] r
    by (auto simp: accept_retry_def accept_inv_def leave_def split: retried.splits bool.splits)
qed

lemma accept_launch_inv:
  assumes "accept_inv s" and "pc s = Accepting k"
  shows "accept_inv (accept_launch p memory k s)"
proof -
  have "accept_inv (s\<lparr>bounded_by := b\<rparr>)" "pc (s\<lparr>bounded_by := b\<rparr>) = Accepting k" for b
    using assms by (simp_all add: accept_inv_def)
  then have "accept_inv (accept_retry p None e (s\<lparr>bounded_by := b\<rparr>))" for e b
    by (rule accept_retry_inv)
  then show ?thesis
    using assms by (cases memory) (simp_all add: accept_launch_def accept_inv_def)
qed

lemma accept_connection_inv:
  assumes "accept_inv s" and "pc s = Accepting k"
  shows "accept_inv (accept_connection p memory k s)"
proof -
  let ?s = "s\<lparr>control := (control s)\<lparr>retry_delay := 10, skipped := 0\<rparr>, bounded_by := snd (admit (bounded_by s))\<rparr>"
  have "accept_inv ?s" "pc ?s = Accepting k" using assms by (simp_all add: accept_inv_def)
  then have "accept_inv (accept_launch p memory k ?s)" by (rule accept_launch_inv)
  then show ?thesis
    using assms by (cases "ac_stopping (control s)"; cases "fst (admit (bounded_by s))")
      (simp_all add: accept_connection_def Let_def accept_inv_def leave_def)
qed

lemma accept_step_inv: "accept_inv s \<Longrightarrow> accept_inv (accept_step p x s)"
proof (cases x)
  case (Accept_error e local)
  assume "accept_inv s"
  then show ?thesis using Accept_error accept_retry_inv by (cases "pc s") simp_all
next
  case (Accept_done memory)
  assume "accept_inv s"
  then show ?thesis using Accept_done accept_connection_inv by (cases "pc s") simp_all
qed (auto simp: accept_inv_def accept_setup_def accept_head_def leave_def listening_def
       split: option.splits accept_pc.splits)

lemma accept_run_inv: "accept_inv s \<Longrightarrow> accept_inv (accept_run p ops s)"
  unfolding accept_run_def by (induction ops arbitrary: s) (simp_all add: accept_step_inv)

lemma accept_initial_inv: "accept_inv (accept_initial ts adm)"
  by (simp add: accept_inv_def accept_initial_def accept_control_initial_def)

text \<open>After \<^verbatim>\<open>stopping\<close> is set.\<close>

lemma stopping_stays: "ac_stopping (control s) \<Longrightarrow> ac_stopping (control (accept_step p x s))"
proof (cases x)
  case (Accept_error e local)
  assume "ac_stopping (control s)"
  then show ?thesis
    using Accept_error by (cases "pc s") (simp_all add: accept_retry_def retry_stopping leave_def)
next
  case (Accept_done memory)
  assume "ac_stopping (control s)"
  then show ?thesis
    using Accept_done by (cases "pc s") (simp_all add: accept_connection_def leave_def)
qed (auto simp: accept_setup_def accept_head_def leave_def)

lemma stopping_launches_nothing: "ac_stopping (control s) \<Longrightarrow> launched (accept_step p x s) = launched s"
proof (cases x)
  case (Accept_error e local)
  assume "ac_stopping (control s)"
  then show ?thesis
    using Accept_error by (cases "pc s") (simp_all add: accept_retry_def retry_stopping leave_def)
next
  case (Accept_done memory)
  assume "ac_stopping (control s)"
  then show ?thesis
    using Accept_done by (cases "pc s") (simp_all add: accept_connection_def leave_def)
qed (auto simp: accept_setup_def accept_head_def leave_def)

lemma stopping_run: "ac_stopping (control s) \<Longrightarrow> launched (accept_run p ops s) = launched s"
  unfolding accept_run_def
  by (induction ops arbitrary: s) (simp_all add: stopping_stays stopping_launches_nothing)

text \<open>The completion a loop is waiting for.\<close>

fun completes :: "accept_op \<Rightarrow> accept_pc \<Rightarrow> bool" where
  "completes (Do_setup shared b fails bound_to) l \<longleftrightarrow> l = Setup"
| "completes Do_head l \<longleftrightarrow> l = Head"
| "completes (Accept_error e local) l \<longleftrightarrow> (\<exists>k. l = Accepting k)"
| "completes (Accept_done memory) l \<longleftrightarrow> (\<exists>k. l = Accepting k)"
| "completes (Pause_over timer_error) l \<longleftrightarrow> l = Pausing"
| "completes _ l \<longleftrightarrow> False"

lemma stopping_ends:
  "ac_stopping (control s) \<Longrightarrow> completes x (pc s) \<Longrightarrow>
     pc (accept_step p x s) = Ended \<and> finished (control (accept_step p x s))"
  by (cases x) (auto simp: accept_setup_def accept_head_def accept_retry_def retry_stopping
      accept_connection_def retry_after_def leave_def)

text \<open>The admission is held by the launched sessions that are not over, and by \<open>r\<close> others.\<close>

definition held_inv :: "nat \<Rightarrow> accept_state \<Rightarrow> bool" where
  "held_inv r s \<longleftrightarrow> over s \<le> length (launched s)
     \<and> (\<forall>a. bounded_by s = Some a \<longrightarrow> live a = r + (length (launched s) - over s) \<and> active a \<le> maximum a)"

lemma held_inv_updates [simp]:
  "held_inv r (s\<lparr>control := c\<rparr>) = held_inv r s" "held_inv r (s\<lparr>pc := l\<rparr>) = held_inv r s"
  "held_inv r (s\<lparr>pauses := ps\<rparr>) = held_inv r s" "held_inv r (s\<lparr>next_target := n\<rparr>) = held_inv r s"
  "held_inv r (s\<lparr>refused := m\<rparr>) = held_inv r s"
  by (simp_all add: held_inv_def)

lemma leave_held [simp]: "held_inv r (leave l s) = held_inv r s"
  by (cases l) (simp_all add: leave_def)

lemma accept_retry_held [simp]: "held_inv r (accept_retry p local e s) = held_inv r s"
proof -
  obtain a c where "retry p local e (control s) = (a, c)" by (cases "retry p local e (control s)")
  then show ?thesis
    by (simp add: accept_retry_def split: retried.splits bool.splits)
qed

lemma release_held:
  assumes "live a = n + 1" and "active a \<le> maximum a"
  shows "live (lease_release a) = n \<and> active (lease_release a) \<le> maximum (lease_release a)"
  using assms ca_lease.cnt_give_back [of a] lease_release_within [of a] by simp

lemma admit_held:
  assumes "held_inv r s"
  shows "if fst (admit (bounded_by s))
    then held_inv r (s\<lparr>bounded_by := snd (admit (bounded_by s)), launched := launched s @ [k]\<rparr>)
      \<and> held_inv r (s\<lparr>bounded_by := map_option lease_release (snd (admit (bounded_by s)))\<rparr>)
    else held_inv r (s\<lparr>bounded_by := snd (admit (bounded_by s))\<rparr>)"
proof -
  let ?n = "r + (length (launched s) - over s)"
  have le: "over s \<le> length (launched s)" using assms by (simp add: held_inv_def)
  show ?thesis
  proof (cases "bounded_by s")
    case (Some a)
    have a: "live a = ?n" "active a \<le> maximum a"
      using assms Some by (simp_all add: held_inv_def)
    show ?thesis
      using try_enter_live [of a] try_enter_within [OF a(2)] a le Some release_held [of "snd (try_enter a)" ?n]
      by (auto simp: held_inv_def admit_def)
  qed (use le in \<open>simp add: held_inv_def admit_def\<close>)
qed

lemma accept_connection_held:
  assumes "held_inv r s"
  shows "held_inv r (accept_connection p memory k s)"
proof -
  let ?s = "s\<lparr>control := (control s)\<lparr>retry_delay := 10, skipped := 0\<rparr>\<rparr>"
  have "held_inv r ?s" using assms by simp
  from admit_held [OF this, of k] show ?thesis
    using assms by (simp add: accept_connection_def accept_launch_def Let_def split: if_splits)
qed

lemma accept_step_held:
  assumes inv: "held_inv r s"
  shows "held_inv r (accept_step p x s)"
proof (cases x)
  case Session_over
  show ?thesis
  proof (cases "over s < length (launched s)")
    case True
    then have "r + (length (launched s) - over s) = (r + (length (launched s) - over s - 1)) + 1" by simp
    then show ?thesis
      using inv True Session_over release_held [of _ "r + (length (launched s) - over s - 1)"]
      by (auto simp: held_inv_def)
  qed (use inv Session_over in simp)
next
  case (Do_setup shared b fails bound_to)
  then show ?thesis using inv by (simp add: accept_setup_def split: option.splits)
next
  case (Accept_done memory)
  then show ?thesis using inv accept_connection_held [OF inv] by (simp split: accept_pc.splits)
qed (use inv in \<open>simp_all add: accept_head_def split: accept_pc.splits\<close>)

lemma accept_run_held: "held_inv r s \<Longrightarrow> held_inv r (accept_run p ops s)"
  unfolding accept_run_def by (induction ops arbitrary: s) (simp_all add: accept_step_held)

text \<open>The admission is held by exactly the sessions that run: \<^verbatim>\<open>active\<close> of a loop's own bound is the
  number of sessions launched and not over.\<close>

lemma launched_hold_admission:
  assumes "bounded_by (accept_run p ops (accept_initial ts (Some (ca_initial m)))) = Some a"
  shows "unat (active a) = length (launched (accept_run p ops (accept_initial ts (Some (ca_initial m)))))
      - over (accept_run p ops (accept_initial ts (Some (ca_initial m))))
    \<and> active a \<le> maximum a"
proof -
  have "held_inv 0 (accept_initial ts (Some (ca_initial m)))"
    by (simp add: held_inv_def accept_initial_def ca_initial_def)
  from accept_run_held [OF this, of p ops] show ?thesis
    using assms by (simp add: held_inv_def)
qed

text \<open>One turn of an undisturbed loop: a connection, or an accept that fails for want of
  descriptors, with its pause.\<close>

fun turn :: "bool \<Rightarrow> accept_op list" where
  "turn True = [Do_head, Accept_done True]"
| "turn False = [Do_head, Accept_error (system_error EMFILE) None, Pause_over False]"

definition at_head :: "nat list \<Rightarrow> nat \<Rightarrow> accept_state \<Rightarrow> bool" where
  "at_head ts i s \<longleftrightarrow> pc s = Head \<and> \<not> ac_stopping (control s) \<and> bounded_by s = None \<and> targets s = ts
     \<and> next_target s = i mod length ts"

lemma retryable_EMFILE [simp]: "retryable_accept_error (system_error EMFILE)"
  by (simp add: retryable_accept_error_def)

lemma turn_moves:
  assumes "at_head ts i s" and "ts \<noteq> []"
  shows "at_head ts (Suc i) (accept_run p (turn b) s)"
    and "launched (accept_run p (turn b) s) = launched s @ (if b then [ts ! (i mod length ts)] else [])"
proof -
  show "at_head ts (Suc i) (accept_run p (turn b) s)"
    using assms
    by (cases b) (simp_all add: mod_Suc at_head_def accept_run_def accept_head_def accept_connection_def accept_launch_def
        admit_def accept_retry_def retry_resource retry_after_def leave_def Let_def)
  show "launched (accept_run p (turn b) s) = launched s @ (if b then [ts ! (i mod length ts)] else [])"
    using assms
    by (cases b) (simp_all add: mod_Suc at_head_def accept_run_def accept_head_def accept_connection_def accept_launch_def
        admit_def accept_retry_def retry_resource retry_after_def leave_def Let_def)
qed

lemma accept_run_append: "accept_run p (xs @ ys) s = accept_run p ys (accept_run p xs s)"
  by (simp add: accept_run_def)

lemma turns_launch:
  assumes "at_head ts i s" and "ts \<noteq> []"
  shows "launched (accept_run p (concat (map turn bs)) s) =
    launched s @ map (\<lambda>j. ts ! ((i + j) mod length ts)) (filter (\<lambda>j. bs ! j) [0..<length bs])"
  using assms
proof (induction bs arbitrary: i s)
  case Nil
  then show ?case by (simp add: accept_run_def)
next
  case (Cons b bs)
  note t = turn_moves [OF Cons.prems, of p b]
  have "filter (\<lambda>j. (b # bs) ! j) [0..<length (b # bs)] =
      (if b then [0] else []) @ map Suc (filter (\<lambda>j. bs ! j) [0..<length bs])"
    by (simp add: upt_conv_Cons filter_map comp_def del: upt_Suc flip: map_Suc_upt)
  then show ?case
    using Cons.IH [OF t(1) Cons.prems(2)] t(2) by (simp add: accept_run_append comp_def)
qed

lemma setup_at_head:
  "at_head ts 0 (accept_run p [Do_setup shared b (\<lambda>_. None) bound_to] (accept_initial ts None))"
proof -
  have "first_failure (\<lambda>_. None) xs = None" for xs by (induction xs) simp_all
  then show ?thesis
    by (simp add: at_head_def accept_run_def accept_initial_def accept_setup_def accept_control_initial_def listening_def)
qed

section \<open>Properties\<close>

text \<open>C11: a loop asked to stop ends and admits nothing. In any state an accept loop reaches, once
  \<^verbatim>\<open>stopping\<close> is set no session is launched any more, whatever completes; whatever
  completes first, its set-up, its accept (with an error or with a connection) or its
  pause, ends it and releases those who wait for it; and \<^verbatim>\<open>stop_on_owner\<close> makes a pending
  accept or pause complete.\<close>

theorem stop_ends_accepting:
  assumes "s = accept_run p ops (accept_initial ts adm)" and "ac_stopping (control s)"
  shows "launched (accept_run p ops' s) = launched s
    \<and> (completes x (pc s) \<longrightarrow> pc (accept_step p x s) = Ended \<and> finished (control (accept_step p x s)))
    \<and> (pc s \<in> insert Pausing (range Accepting) \<longrightarrow> (\<exists>y. stop_on_owner s = [y] \<and> completes y (pc s)))"
proof -
  have "accept_inv s"
    unfolding assms(1) by (rule accept_run_inv [OF accept_initial_inv])
  then have "pc s \<in> insert Pausing (range Accepting) \<longrightarrow> (\<exists>y. stop_on_owner s = [y] \<and> completes y (pc s))"
    by (auto simp: accept_inv_def stop_on_owner_def)
  then show ?thesis using stopping_run [OF assms(2)] stopping_ends [OF assms(2)] by blast
qed

definition stopped_accept :: accept_state where
  "stopped_accept = accept_run \<lparr>apple = False, has_enonet = True\<rparr>
     [Do_setup False bind_options_default (\<lambda>_. None) (0, 80), Do_head, Set_stopping] (accept_initial [0] None)"

lemma stopped_accept_state: "ac_stopping (control stopped_accept)" "pc stopped_accept = Accepting 0"
  by (simp_all add: stopped_accept_def accept_run_def accept_setup_def setup_calls_def bind_options_default_def
      accept_head_def accept_initial_def accept_control_initial_def listening_def)

theorem stop_ends_accepting_witness:
  "pc (accept_step \<lparr>apple = False, has_enonet = True\<rparr> (Accept_done True) stopped_accept) = Ended"
proof -
  have "completes (Accept_done True) (pc stopped_accept)"
    by (simp add: stopped_accept_state)
  then show ?thesis
    using stop_ends_accepting [OF stopped_accept_def stopped_accept_state(1), where x = "Accept_done True"] by blast
qed



text \<open>What a start learns of a listener. In every state of an accept loop, \<^verbatim>\<open>wait_listening\<close>
  still waits only before the set-up is over; it throws exactly what the set-up threw, or
  that the listener stopped during startup if it was stopped first; and it returns from
  then on. An exception after startup is reported, one during startup is not.\<close>

theorem startup_outcome:
  "\<exists>s. s = accept_run p ops (accept_initial ts adm)
     \<and> (case wait_listening (control s) of
          None \<Rightarrow> pc s = Setup
        | Some (Inl x) \<Rightarrow> pc s = Threw x
            \<or> pc s = Ended \<and> x = Runtime_error ''TCP listener stopped during startup''
        | Some (Inr _) \<Rightarrow> pc s \<noteq> Setup \<and> ready (control s))
     \<and> reported (control s) = (case pc s of Threw x \<Rightarrow> if ready (control s) then [x] else [] | _ \<Rightarrow> [])"
proof -
  have "accept_inv (accept_run p ops (accept_initial ts adm))"
    by (rule accept_run_inv [OF accept_initial_inv])
  then show ?thesis
    by (auto simp: accept_inv_def wait_listening_def split: accept_pc.splits)
qed

text \<open>C21: errors one after the other. From a fresh control, or after any accepted connection, errors
  such as a full descriptor table pause 10, 20, 40 and so on up to 1000 milliseconds; of the
  errors of single connections, as long as the listener is bound, the first 64 are skipped
  without a pause and every further one (of less than \<open>2^32\<close>) pauses a millisecond. Neither
  kind ends the loop, and neither makes it spin.\<close>

theorem accept_errors_pause:
  assumes "\<not> ac_stopping c" and "retry_delay c = 10" and "skipped c = 0"
  shows "((\<forall>(e, local) \<in> set es. retryable_accept_error e) \<longrightarrow>
      retries p es c = map (\<lambda>i. Waits (min (10 * 2 ^ i) 1000)) [0..<length es])
    \<and> ((\<forall>(e, local) \<in> set es. per_connection_accept_error p e \<and> local = Some (bound c)) \<and> length es < 2 ^ 32 \<longrightarrow>
      retries p es c = map (\<lambda>i. if i < 64 then Returns True else Waits 1) [0..<length es])"
  using retries_resource [of c es 0 p] retries_connection [of c es p 0] assms by simp

theorem accept_errors_pause_witness:
  "retries \<lparr>apple = True, has_enonet = False\<rparr> [(system_error EMFILE, None), (system_error ENOMEM, None)]
     accept_control_initial = [Waits 10, Waits 20]
   \<and> retries \<lparr>apple = True, has_enonet = False\<rparr> [(system_error EINVAL, Some (0, 0)), (system_error ECONNABORTED, Some (0, 0))]
     accept_control_initial = [Returns True, Returns True]"
  using accept_errors_pause [of accept_control_initial "[(system_error EMFILE, None), (system_error ENOMEM, None)]"
      "\<lparr>apple = True, has_enonet = False\<rparr>"]
    accept_errors_pause [of accept_control_initial "[(system_error EINVAL, Some (0, 0)), (system_error ECONNABORTED, Some (0, 0))]"
      "\<lparr>apple = True, has_enonet = False\<rparr>"]
  by (simp add: retryable_accept_error_def per_connection_accept_error_def accept_control_initial_def system_error_eq_iff)

text \<open>Which errors end a listener. An accept loop that is not stopping gives up with the error
  exactly if it is neither a resource error nor the error of a single connection, or is
  the macOS \<^verbatim>\<open>EINVAL\<close> of a socket that is no longer the bound listener.\<close>

theorem retry_throws_iff:
  "(\<exists>x c'. retry p local e c = (Throws x, c')) \<longleftrightarrow>
     \<not> ac_stopping c \<and> \<not> retryable_accept_error e
     \<and> \<not> (per_connection_accept_error p e \<and> \<not> (e = system_error EINVAL \<and> local \<noteq> Some (bound c)))"
  by (auto simp: retry_def Let_def listener_lost_def system_error_eq_iff)

end
