(* ===== verification/Serving.thy ===== *)
theory Serving
  imports Accept
begin

text \<open>
  An accept loop together with the tickets of the sessions it launches: what \<open>Accept\<close> keeps of
  a loop (sessions launched and over, the admission) and what \<open>Session\<close> keeps of its tickets
  (the session counts of the reactors, the admission) as one system, with the code that joins
  them: an accepted connection takes an admission and a ticket, a launch that finds no memory
  destroys the ticket again, and a ticket that has moved into the frame of its session is
  destroyed with it.

  Shown: the two views agree at every point of every run. So the counts \<^verbatim>\<open>stop()\<close> waits on are
  those of the sessions launched and not over.
\<close>

section \<open>The system\<close>

datatype serve_op = Loop_does accept_op | Session_ends nat | Ticket_moves nat

text \<open>The tickets when an accept completes with a connection (\<^verbatim>\<open>accept_loop\<close>, the same in
  \<^verbatim>\<open>shared_accept_loop\<close>).\<close>

definition accept_tickets :: "bool \<Rightarrow> accept_state \<Rightarrow> ticket_world \<Rightarrow> ticket_world" where
  "accept_tickets memory a w =
     (case pc a of
        Accepting k \<Rightarrow>
          if ac_stopping (control a) then w
          else
            let w1 = ticket_step w (Accept_bounded k) in
            if length (tickets w1) > length (tickets w) \<and> \<not> memory then ticket_destroy (length (tickets w)) w1 else w1
      | _ \<Rightarrow> w)"

fun serve_step :: "platform \<Rightarrow> serve_op \<Rightarrow> accept_state \<times> ticket_world \<Rightarrow> accept_state \<times> ticket_world" where
  "serve_step p (Loop_does x) (a, w) =
     (case x of
        Session_over \<Rightarrow> (a, w)
      | Accept_done memory \<Rightarrow> (accept_step p x a, accept_tickets memory a w)
      | _ \<Rightarrow> (accept_step p x a, w))"
| "serve_step p (Session_ends i) (a, w) =
     (if i < length (tickets w) \<and> t_reactor (tickets w ! i) \<noteq> None
      then (accept_step p Session_over a, ticket_destroy i w) else (a, w))"
| "serve_step p (Ticket_moves j) (a, w) = (a, ticket_step w (Ticket_move j))"

definition serve_initial :: "nat list \<Rightarrow> nat \<Rightarrow> size_t \<Rightarrow> accept_state \<times> ticket_world" where
  "serve_initial ts n m = (accept_initial ts (Some (ca_initial m)),
     \<lparr>reactors = replicate n reactor_initial, admission = ca_initial m, tickets = []\<rparr>)"

section \<open>The two views agree\<close>

definition seated :: "ticket \<Rightarrow> nat" where
  "seated t = (if t_reactor t \<noteq> None then 1 else 0)"

definition on_target :: "nat \<Rightarrow> accept_state \<Rightarrow> bool" where
  "on_target n a \<longleftrightarrow> set (targets a) \<subseteq> {..<n} \<and> next_target a < length (targets a)
     \<and> (case pc a of Accepting k \<Rightarrow> k < n | _ \<Rightarrow> True)"

definition serve_inv :: "nat \<Rightarrow> accept_state \<times> ticket_world \<Rightarrow> bool" where
  "serve_inv n = (\<lambda>(a, w). ticket_inv w \<and> length (reactors w) = n \<and> on_target n a
     \<and> bounded_by a = Some (admission w) \<and> (\<forall>t \<in> set (tickets w). t_lease t \<longleftrightarrow> t_reactor t \<noteq> None)
     \<and> over a \<le> length (launched a) \<and> length (launched a) - over a = weight seated (tickets w))"

lemma leave_fields [simp]:
  "targets (leave l a) = targets a" "next_target (leave l a) = next_target a" "launched (leave l a) = launched a"
  "over (leave l a) = over a" "bounded_by (leave l a) = bounded_by a" "pc (leave l a) = l"
  by (cases l; simp add: leave_def)+

lemma accept_retry_fields:
  "targets (accept_retry p e' e a) = targets a" "next_target (accept_retry p e' e a) = next_target a"
  "launched (accept_retry p e' e a) = launched a" "over (accept_retry p e' e a) = over a"
  "bounded_by (accept_retry p e' e a) = bounded_by a" "pc (accept_retry p e' e a) \<noteq> Accepting k"
  by (auto simp: accept_retry_def split: prod.splits retried.splits bool.splits)

text \<open>Steps that neither launch nor end a session.\<close>

lemma quiet_step:
  assumes "on_target n a" and "x \<noteq> Session_over" and "\<nexists>memory. x = Accept_done memory"
    and a'_def: "a' = accept_step p x a"
  shows "on_target n a'" and "launched a' = launched a" and "over a' = over a" and "bounded_by a' = bounded_by a"
proof -
  have head: "targets a ! next_target a < n" using assms(1) nth_mem by (auto simp: on_target_def)
  have "on_target n a' \<and> launched a' = launched a \<and> over a' = over a \<and> bounded_by a' = bounded_by a"
  proof (cases x)
    case (Do_setup sh b fs e)
    then show ?thesis using assms(1) by (auto simp: a'_def accept_setup_def on_target_def split: option.splits)
  next
    case Do_head
    then show ?thesis using assms(1) head by (auto simp: a'_def accept_head_def on_target_def)
  next
    case (Accept_error e l)
    then show ?thesis
      using assms(1) accept_retry_fields [of p l e a] by (cases "pc a") (auto simp: a'_def on_target_def split: accept_pc.splits)
  next
    case (Pause_over b)
    then show ?thesis using assms(1) by (auto simp: a'_def on_target_def)
  next
    case Set_stopping
    then show ?thesis using assms(1) by (cases "pc a") (auto simp: a'_def on_target_def)
  qed (use assms(2,3) in auto)
  then show "on_target n a'" "launched a' = launched a" "over a' = over a" "bounded_by a' = bounded_by a" by auto
qed

lemma destroy_step:
  "i < length (tickets w) \<Longrightarrow> t_reactor (tickets w ! i) \<noteq> None \<Longrightarrow>
     ticket_destroy i w = ticket_step (ticket_step w (Ticket_refund i)) (Ticket_leave i)"
  by (auto simp: ticket_destroy_def ticket_refund_def)

lemma destroy_ok:
  assumes inv: "ticket_inv w" and n: "length (tickets w) < 2 ^ 64 - 1" and i: "i < length (tickets w)"
    and seat: "t_reactor (tickets w ! i) \<noteq> None" and lease: "\<forall>t \<in> set (tickets w). t_lease t \<longleftrightarrow> t_reactor t \<noteq> None"
    and w'_def: "w' = ticket_destroy i w"
  shows "ticket_inv w'" and "length (reactors w') = length (reactors w)" and "admission w' = lease_release (admission w)"
    and "\<forall>t \<in> set (tickets w'). t_lease t \<longleftrightarrow> t_reactor t \<noteq> None" and "length (tickets w') = length (tickets w)"
    and "weight seated (tickets w') + 1 = weight seated (tickets w)"
proof -
  obtain k where k: "t_reactor (tickets w ! i) = Some k" using seat by blast
  have l: "t_lease (tickets w ! i)" using lease seat i nth_mem by blast
  have t': "tickets w' = (tickets w)[i := (tickets w ! i)\<lparr>t_lease := False, t_reactor := None\<rparr>]"
    and "admission w' = lease_release (admission w)" "length (reactors w') = length (reactors w)"
    using k l i by (simp_all add: w'_def ticket_destroy_def ticket_refund_def ticket_leave_def)
  then show "admission w' = lease_release (admission w)" "length (reactors w') = length (reactors w)"
    "length (tickets w') = length (tickets w)" by simp_all
  show "ticket_inv w'"
    using ticket_step_inv [OF ticket_step_inv [OF inv n, of "Ticket_refund i"], of "Ticket_leave i"] n
    by (simp add: w'_def destroy_step [OF i seat] ticket_refund_def del: ticket_step.simps)
       (simp add: ticket_refund_def i)
  show "\<forall>t \<in> set (tickets w'). t_lease t \<longleftrightarrow> t_reactor t \<noteq> None"
    using lease by (auto simp: t' dest!: set_update_subset_insert [THEN subsetD])
  show "weight seated (tickets w') + 1 = weight seated (tickets w)"
    using weight_update [OF i, of seated "(tickets w ! i)\<lparr>t_lease := False, t_reactor := None\<rparr>"] k
    by (simp add: t' seated_def)
qed

lemma construct_ok:
  assumes inv: "ticket_inv w" and n: "length (tickets w) < 2 ^ 64 - 1" and k: "k < length (reactors w)"
    and lease: "\<forall>t \<in> set (tickets w). t_lease t \<longleftrightarrow> t_reactor t \<noteq> None"
    and w'_def: "w' = ticket_step w (Accept_bounded k)"
  shows "ticket_inv w'" and "length (reactors w') = length (reactors w)" and "admission w' = snd (try_enter (admission w))"
    and "\<forall>t \<in> set (tickets w'). t_lease t \<longleftrightarrow> t_reactor t \<noteq> None"
    and "tickets w' = (if fst (try_enter (admission w)) then tickets w @ [\<lparr>t_reactor = Some k, t_lease = True\<rparr>] else tickets w)"
proof -
  show "ticket_inv w'" unfolding w'_def by (rule ticket_step_inv [OF inv n])
  show "length (reactors w') = length (reactors w)" "admission w' = snd (try_enter (admission w))"
    and t: "tickets w' = (if fst (try_enter (admission w)) then tickets w @ [\<lparr>t_reactor = Some k, t_lease = True\<rparr>] else tickets w)"
    using k by (simp_all add: w'_def ticket_construct_def Let_def case_prod_beta)
  show "\<forall>t \<in> set (tickets w'). t_lease t \<longleftrightarrow> t_reactor t \<noteq> None"
    using lease by (auto simp: t)
qed

lemma launch_ok:
  assumes inv: "serve_inv n (a, w)" and small: "length (tickets w) < 2 ^ 64 - 2" and pc: "pc a = Accepting k"
    and run: "\<not> ac_stopping (control a)"
  shows "serve_inv n (accept_step p (Accept_done memory) a, accept_tickets memory a w)"
proof -
  let ?s = "admission w"
  define w1 where "w1 = ticket_step w (Accept_bounded k)"
  have w: "ticket_inv w" "length (reactors w) = n" "bounded_by a = Some ?s"
    "\<forall>t \<in> set (tickets w). t_lease t \<longleftrightarrow> t_reactor t \<noteq> None" "over a \<le> length (launched a)"
    "length (launched a) - over a = weight seated (tickets w)"
    and k: "k < length (reactors w)" and tgt: "set (targets a) \<subseteq> {..<n}" "next_target a < length (targets a)"
    using inv pc by (auto simp: serve_inv_def on_target_def)
  have n: "length (tickets w) < 2 ^ 64 - 1" using small by simp
  note c = construct_ok [OF w(1) n k w(4) w1_def]
  have tickets: "accept_tickets memory a w = (if fst (try_enter ?s) \<and> \<not> memory then ticket_destroy (length (tickets w)) w1 else w1)"
    using pc run c(5) by (simp add: accept_tickets_def Let_def del: ticket_step.simps flip: w1_def)
  have fields: "targets a' = targets a \<and> next_target a' = next_target a \<and> over a' = over a \<and> (\<nexists>j. pc a' = Accepting j)
      \<and> launched a' = (if fst (try_enter ?s) \<and> memory then launched a @ [k] else launched a)
      \<and> bounded_by a' = Some (if fst (try_enter ?s) \<and> \<not> memory then lease_release (snd (try_enter ?s)) else snd (try_enter ?s))"
    if "a' = accept_step p (Accept_done memory) a" for a'
    using pc run w(3) accept_retry_fields
    by (auto simp: that accept_connection_def accept_launch_def admit_def Let_def)
  show ?thesis
  proof (cases "fst (try_enter ?s)")
    case False
    then show ?thesis
      using fields [OF refl] c w tgt tickets by (auto simp: serve_inv_def on_target_def split: accept_pc.splits)
  next
    case True
    then have t1: "tickets w1 = tickets w @ [\<lparr>t_reactor = Some k, t_lease = True\<rparr>]" using c(5) by simp
    have seated1: "weight seated (tickets w1) = weight seated (tickets w) + 1" unfolding t1 by (simp add: seated_def)
    show ?thesis
    proof (cases memory)
      case m: True
      then show ?thesis
        using True fields [OF refl] c(1-4) w tgt tickets seated1 by (auto simp: serve_inv_def on_target_def split: accept_pc.splits)
    next
      case False
      have "length (tickets w1) < 2 ^ 64 - 1" "length (tickets w) < length (tickets w1)"
        "t_reactor (tickets w1 ! length (tickets w)) \<noteq> None"
        using small unfolding t1 by simp_all
      note d = destroy_ok [OF c(1) this c(4) refl]
      show ?thesis
        using True False fields [OF refl] c(2,3) d w tgt tickets seated1 by (auto simp: serve_inv_def on_target_def split: accept_pc.splits)
    qed
  qed
qed

lemma serve_step_inv:
  assumes inv: "serve_inv n (a, w)" and small: "length (tickets w) < 2 ^ 64 - 2"
  shows "serve_inv n (serve_step p x (a, w))"
proof (cases x)
  case (Loop_does y)
  show ?thesis
  proof (cases "\<exists>memory. y = Accept_done memory")
    case True
    then obtain memory where y: "y = Accept_done memory" ..
    show ?thesis
    proof (cases "\<exists>k. pc a = Accepting k \<and> \<not> ac_stopping (control a)")
      case True
      then show ?thesis using launch_ok [OF inv small] Loop_does y by auto
    next
      case False
      then show ?thesis
        using inv Loop_does y by (cases "pc a") (auto simp: serve_inv_def on_target_def accept_tickets_def accept_connection_def)
    qed
  next
    case other: False
    show ?thesis
    proof (cases "y = Session_over")
      case False
      have "on_target n a" using inv by (simp add: serve_inv_def)
      note q = quiet_step [OF this False other refl, of p]
      have "serve_step p x (a, w) = (accept_step p y a, w)"
        using Loop_does False other by (cases y) simp_all
      then show ?thesis using inv q by (simp add: serve_inv_def)
    qed (use inv Loop_does in simp)
  qed
next
  case (Session_ends i)
  show ?thesis
  proof (cases "i < length (tickets w) \<and> t_reactor (tickets w ! i) \<noteq> None")
    case True
    have w: "ticket_inv w" "length (tickets w) < 2 ^ 64 - 1" "\<forall>t \<in> set (tickets w). t_lease t \<longleftrightarrow> t_reactor t \<noteq> None"
      using inv small by (simp_all add: serve_inv_def)
    note d = destroy_ok [OF w(1,2) conjunct1 [OF True] conjunct2 [OF True] w(3) refl]
    have "over a < length (launched a)" using inv d(6) by (auto simp: serve_inv_def)
    then show ?thesis using inv d True Session_ends by (auto simp: serve_inv_def on_target_def)
  qed (use inv Session_ends in auto)
next
  case (Ticket_moves j)
  show ?thesis
  proof (cases "j < length (tickets w)")
    case True
    obtain m where m: "weight seated (tickets w) = m + seated (tickets w ! j)"
      "\<And>t. weight seated ((tickets w)[j := t]) = m + seated t"
      using weight_split [OF True] by metis
    have "ticket_inv (ticket_move_construct j w)" using inv True ticket_move_inv by (simp add: serve_inv_def)
    then show ?thesis
      using inv Ticket_moves True m nth_mem [OF True]
      by (auto simp: serve_inv_def ticket_move_construct_def seated_def dest!: set_update_subset_insert [THEN subsetD])
  qed (use inv Ticket_moves in simp)
qed

lemma serve_step_size: "length (tickets (snd (serve_step p x (a, w)))) \<le> length (tickets w) + 1"
proof -
  have "length (tickets (ticket_destroy i v)) = length (tickets v)" for i v
    by (auto simp: ticket_destroy_def ticket_refund_def ticket_leave_def split: option.splits)
  moreover have "length (tickets (ticket_step v y)) \<le> length (tickets v) + 1" for v y using ticket_step_size by blast
  ultimately show ?thesis
    by (cases x) (auto simp: accept_tickets_def Let_def simp del: ticket_step.simps split: accept_op.splits accept_pc.splits)
qed

definition serve_run :: "platform \<Rightarrow> serve_op list \<Rightarrow> accept_state \<times> ticket_world \<Rightarrow> accept_state \<times> ticket_world" where
  "serve_run p xs s = fold (serve_step p) xs s"

lemma serve_run_inv:
  assumes "serve_inv n (a, w)" and "length (tickets w) + length xs < 2 ^ 64 - 2"
  shows "serve_inv n (serve_run p xs (a, w))"
  using assms unfolding serve_run_def
proof (induction xs arbitrary: a w)
  case (Cons x xs)
  obtain a' w' where s: "serve_step p x (a, w) = (a', w')" by (cases "serve_step p x (a, w)")
  have "serve_inv n (a', w')" using serve_step_inv [OF Cons.prems(1), of p x] Cons.prems(2) s by simp
  moreover have "length (tickets w') + length xs < 2 ^ 64 - 2"
    using serve_step_size [of p x a w] Cons.prems(2) s by simp
  ultimately show ?case using Cons.IH s by simp
qed simp

lemma serve_initial_inv:
  "set ts \<subseteq> {..<n} \<Longrightarrow> ts \<noteq> [] \<Longrightarrow> serve_inv n (serve_initial ts n m)"
  by (simp add: serve_inv_def serve_initial_def on_target_def accept_initial_def ticket_inv_def balanced_def
      ca_initial_def reactor_initial_def)

text \<open>The seats of all the reactors.\<close>

lemma sum_holders:
  "(\<forall>k. Some k \<in> set ls \<longrightarrow> k < n) \<Longrightarrow> (\<Sum>k<n. holders k ls) = length (filter (\<lambda>l. l \<noteq> None) ls)"
proof (induction ls)
  case (Cons l ls)
  have "(\<Sum>k<n. if l = Some k then 1 else 0) = (if l = None then 0 else 1 :: nat)"
    using Cons.prems by (cases l) (auto simp: sum.If_cases)
  then show ?case using Cons by (auto simp: sum.distrib)
qed simp

lemma weight_seated: "weight seated ts = length (filter (\<lambda>l. l \<noteq> None) (map t_reactor ts))"
  by (induction ts) (auto simp: seated_def)

text \<open>C13: the accept loop and the tickets keep the same books. In every run of an accept loop with a
  bound, the admission it enters is the one the tickets refund, and the session counts of the
  reactors, on which \<^verbatim>\<open>stop()\<close> waits, add up to the sessions launched and not over; so they are
  all zero, and nothing is admitted, exactly when every launched session is over.\<close>

theorem serving_agrees:
  assumes "serve_run p xs (serve_initial ts n m) = (a, w)" and "set ts \<subseteq> {..<n}" and "ts \<noteq> []" and "length xs < 2 ^ 64 - 2"
  shows "bounded_by a = Some (admission w) \<and> (\<Sum>k<n. unat (sessions (reactors w ! k))) = length (launched a) - over a
    \<and> unat (active (admission w)) = length (launched a) - over a
    \<and> ((\<forall>k<n. sessions_ended (reactors w ! k)) \<longleftrightarrow> over a = length (launched a))"
proof -
  have "serve_inv n (serve_run p xs (serve_initial ts n m))"
    using serve_initial_inv [OF assms(2,3)] serve_run_inv [of n "accept_initial ts (Some (ca_initial m))"] assms(4)
    by (simp add: serve_initial_def)
  then have inv: "serve_inv n (a, w)" using assms(1) by simp
  have seats: "unat (sessions (reactors w ! k)) = holders k (seats w)" if "k < n" for k
    using inv that by (simp add: serve_inv_def ticket_inv_def balanced_def)
  have "Some k \<in> set (seats w) \<Longrightarrow> k < n" for k
    using inv unfolding serve_inv_def ticket_inv_def balanced_def by simp blast
  then have sum: "(\<Sum>k<n. unat (sessions (reactors w ! k))) = length (launched a) - over a"
    using inv sum_holders [of "seats w" n] seats by (simp add: serve_inv_def weight_seated)
  have "\<forall>t \<in> set (tickets w). t_lease t \<longleftrightarrow> t_reactor t \<noteq> None" using inv by (simp add: serve_inv_def)
  then have "length (filter t_lease (tickets w)) = length (filter (\<lambda>l. l \<noteq> None) (seats w))"
    by (simp add: filter_map comp_def cong: filter_cong)
  then have act: "unat (active (admission w)) = length (launched a) - over a"
    using inv admitted_holders [of "tickets w"] by (simp add: serve_inv_def ticket_inv_def balanced_def weight_seated)
  have "(\<forall>k<n. sessions_ended (reactors w ! k)) \<longleftrightarrow> (\<Sum>k<n. unat (sessions (reactors w ! k))) = 0"
    by (auto simp: sessions_ended_def unat_eq_zero)
  then show ?thesis using sum act inv by (auto simp: serve_inv_def)
qed

theorem serving_agrees_witness:
  "\<exists>a w. serve_run \<lparr>apple = False, has_enonet = True\<rparr>
       [Loop_does (Do_setup False bind_options_default (\<lambda>_. None) (0, 80)), Loop_does Do_head, Loop_does (Accept_done True),
        Loop_does Do_head, Loop_does (Accept_done True), Ticket_moves 0, Session_ends 2]
       (serve_initial [0, 1] 2 5) = (a, w) \<and> launched a = [0, 1] \<and> over a = 1
     \<and> (\<Sum>k<2. unat (sessions (reactors w ! k))) = 1 \<and> unat (active (admission w)) = 1"
proof -
  let ?p = "\<lparr>apple = False, has_enonet = True\<rparr>"
  let ?xs = "[Loop_does (Do_setup False bind_options_default (\<lambda>_. None) (0, 80)), Loop_does Do_head, Loop_does (Accept_done True),
        Loop_does Do_head, Loop_does (Accept_done True), Ticket_moves 0, Session_ends 2]"
  obtain a w where r: "serve_run ?p ?xs (serve_initial [0, 1] 2 5) = (a, w)"
    by (cases "serve_run ?p ?xs (serve_initial [0, 1] 2 5)")
  have "(\<lambda>s. (launched (fst s), over (fst s))) (serve_run ?p ?xs (serve_initial [0, 1] 2 5)) = ([0, 1], 1)"
    by code_simp
  then have "launched a = [0, 1] \<and> over a = 1" using r by simp
  then show ?thesis using r serving_agrees [OF r] by simp
qed

end
