(* ===== verification/Shutdown.thy ===== *)
theory Shutdown
  imports Serving
begin

text \<open>
  \<^verbatim>\<open>TcpServer::stop\<close> of \<^verbatim>\<open>src/reactor.h\<close> over the loops it stops: the sessions of every reactor
  (theory \<open>Session\<close>) with the launches on their way to them, the accept loops that take their
  tickets (theory \<open>Accept\<close>), and the thread in \<^verbatim>\<open>stop()\<close>, which moves between its waits while the
  loops go on. What completes an accept, what the admission answers, which launch finds memory,
  when a session ends and when a deadline passes is chosen by the steps of a run, in any order.
  The claims, the threads and the order of the other calls are those of theory \<open>Tcp_Server\<close>.

  Shown: the session count of a reactor is the number of its launches and running sessions; once
  the walk of \<^verbatim>\<open>abort_all\<close> has passed no session is begun; when \<^verbatim>\<open>stop()\<close> is past its waits, either
  no session is left and none will come, or every session left has been asked to stop and its
  connection has been shut down; and \<^verbatim>\<open>stop()\<close> gets there.
\<close>

section \<open>The loops\<close>

text \<open>A reactor: its sessions, its lag probe, the launches posted to it from another loop, and the
  tasks of \<^verbatim>\<open>run_session\<close> that are spawned and have not run yet. Each of these holds a ticket.\<close>

record server_loop =
  core :: session_loop
  probe :: lag
  posts :: nat
  spawned :: nat

definition loop_initial :: server_loop where
  "loop_initial = \<lparr>core = session_loop_initial, probe = lag_initial, posts = 0, spawned = 0\<rparr>"

text \<open>What became of a launch on a loop, whose ticket is taken: a launch without memory destroys it.\<close>

definition launched_as :: "launch \<times> lag \<Rightarrow> server_loop \<Rightarrow> server_loop" where
  "launched_as r L =
     (case fst r of
        Posted \<Rightarrow> L\<lparr>probe := snd r, posts := posts L + 1\<rparr>
      | Spawned \<Rightarrow> L\<lparr>probe := snd r, spawned := spawned L + 1\<rparr>
      | No_memory \<Rightarrow> L\<lparr>probe := snd r, core := session_finished (core L)\<rparr>)"

text \<open>The accept loop on reactor \<open>home\<close> takes a ticket for reactor \<open>k\<close> and launches its session there.\<close>

definition launch_from :: "nat \<Rightarrow> bool \<Rightarrow> nat \<Rightarrow> server_loop \<Rightarrow> server_loop" where
  "launch_from home memory k L =
     launched_as (launch_session 1 (k = home) memory (probe L)) (L\<lparr>core := session_started (core L)\<rparr>)"

text \<open>A posted launch runs on its loop.\<close>

definition run_post :: "bool \<Rightarrow> server_loop \<Rightarrow> server_loop" where
  "run_post memory L =
     (if posts L = 0 then L
      else launched_as (launch_session 1 True memory (probe L)) (L\<lparr>posts := posts L - 1\<rparr>))"

text \<open>A spawned task runs, with its control at an address \<open>a\<close> that no running session has. A session
  that was closed at once, or ends, destroys its ticket with its frame.\<close>

definition run_spawned :: "nat \<Rightarrow> (int \<Rightarrow> (endpoint \<times> nat) option) \<Rightarrow> nat \<Rightarrow> int \<Rightarrow> endpoint \<Rightarrow> server_loop \<Rightarrow> server_loop" where
  "run_spawned capacity names a fd peer L =
     (if spawned L = 0 \<or> phases (core L) a = Serving then L
      else
        let r = run_session capacity names a fd peer (core L)
        in L\<lparr>spawned := spawned L - 1, core := (if phases r a = Closed then session_finished r else r)\<rparr>)"

definition end_session :: "nat \<Rightarrow> server_loop \<Rightarrow> server_loop" where
  "end_session a L =
     (if phases (core L) a = Serving then L\<lparr>core := session_finished (session_end a (core L))\<rparr> else L)"

section \<open>The server\<close>

text \<open>Where \<^verbatim>\<open>stop()\<close> stands: it walks the reactors (\<^verbatim>\<open>abort_all\<close>), waits for the accept loops, for
  the sessions of each reactor (with whether all ended so far), walks them again (\<^verbatim>\<open>force_all\<close>),
  and waits once more.\<close>

datatype stop_pc = Not_called | Aborting nat | Reaping | First_wait nat bool | Forcing nat | Second_wait nat | Past_waits

record server =
  loops :: "server_loop list"
  acceptors :: "(nat \<times> accept_state) list"
  stop_at :: stop_pc

definition server_initial :: "nat \<Rightarrow> (nat \<times> nat list) list \<Rightarrow> server" where
  "server_initial n as =
     \<lparr>loops = replicate n loop_initial, acceptors = map (\<lambda>(home, ts). (home, accept_initial ts None)) as, stop_at = Not_called\<rparr>"

text \<open>One \<^verbatim>\<open>wait_sessions_until\<close>, which returns when the sessions of the reactor have ended or the
  deadline has passed.\<close>

definition waited_for :: "bool \<Rightarrow> server_loop \<Rightarrow> bool option" where
  "waited_for timed_out L = (if sessions_ended (core L) then Some True else if timed_out then Some False else None)"

definition set_loop :: "nat \<Rightarrow> server_loop \<Rightarrow> server \<Rightarrow> server" where
  "set_loop k L w = w\<lparr>loops := (loops w)[k := L]\<rparr>"

text \<open>A step of \<^verbatim>\<open>stop()\<close>. \<^verbatim>\<open>on_loop_sync\<close> returns when the walk has run (theory \<open>Loop_Sync\<close>).\<close>

definition stop_step :: "platform \<Rightarrow> nat \<Rightarrow> bool \<Rightarrow> (nat \<Rightarrow> int \<Rightarrow> (endpoint \<times> nat) option) \<Rightarrow> server \<Rightarrow> server option" where
  "stop_step p capacity timed_out names w =
     (case stop_at w of
        Not_called \<Rightarrow> Some (w\<lparr>stop_at := Aborting 0\<rparr>)
      | Aborting k \<Rightarrow>
          if k < length (loops w)
          then map_option (\<lambda>r. (set_loop k ((loops w ! k)\<lparr>core := r\<rparr>) w)\<lparr>stop_at := Aborting (k + 1)\<rparr>)
                 (session_run capacity [Request_stop, Walk_abort] (core (loops w ! k)))
          else Some (w\<lparr>acceptors := map (\<lambda>(h, a). (h, accept_step p Set_stopping a)) (acceptors w), stop_at := Reaping\<rparr>)
      | Reaping \<Rightarrow>
          Some (if \<forall>(h, a) \<in> set (acceptors w). wait_finished (control a) then w\<lparr>stop_at := First_wait 0 True\<rparr> else w)
      | First_wait k drained \<Rightarrow>
          Some (if k < length (loops w)
                then (case waited_for timed_out (loops w ! k) of
                        Some ended \<Rightarrow> w\<lparr>stop_at := First_wait (k + 1) (ended \<and> drained)\<rparr>
                      | None \<Rightarrow> w)
                else w\<lparr>stop_at := (if \<not> drained then Forcing 0 else Past_waits)\<rparr>)
      | Forcing k \<Rightarrow>
          if k < length (loops w)
          then map_option (\<lambda>r. (set_loop k ((loops w ! k)\<lparr>core := r\<rparr>) w)\<lparr>stop_at := Forcing (k + 1)\<rparr>)
                 (session_step capacity (Walk_force names) (core (loops w ! k)))
          else Some (w\<lparr>stop_at := Second_wait 0\<rparr>)
      | Second_wait k \<Rightarrow>
          Some (if k < length (loops w)
                then (case waited_for timed_out (loops w ! k) of Some ended \<Rightarrow> w\<lparr>stop_at := Second_wait (k + 1)\<rparr> | None \<Rightarrow> w)
                else w\<lparr>stop_at := Past_waits\<rparr>)
      | Past_waits \<Rightarrow> Some w)"

text \<open>The launch an accept loop makes when its accept completes.\<close>

definition launches :: "accept_op \<Rightarrow> accept_state \<Rightarrow> (nat \<times> bool) option" where
  "launches x a =
     (case (x, pc a) of
        (Accept_done memory, Accepting k) \<Rightarrow>
          if ac_stopping (control a) \<or> \<not> fst (admit (bounded_by a)) then None else Some (k, memory)
      | _ \<Rightarrow> None)"

text \<open>A step of accept loop \<open>i\<close>, which finds the admission it shares as \<open>adm\<close>.\<close>

definition acceptor_step :: "platform \<Rightarrow> nat \<Rightarrow> ca_state option \<Rightarrow> accept_op \<Rightarrow> server \<Rightarrow> server" where
  "acceptor_step p i adm x w =
     (if i < length (acceptors w) then
        (case acceptors w ! i of (home, a) \<Rightarrow>
           let a1 = a\<lparr>bounded_by := adm\<rparr>;
               w1 = w\<lparr>acceptors := (acceptors w)[i := (home, accept_step p x a1)]\<rparr>
           in case launches x a1 of
                Some (k, memory) \<Rightarrow> set_loop k (launch_from home memory k (loops w ! k)) w1
              | None \<Rightarrow> w1)
      else w)"

datatype server_op =
    Stop_moves bool "nat \<Rightarrow> int \<Rightarrow> (endpoint \<times> nat) option"
  | Acceptor_moves nat "ca_state option" accept_op
  | Post_runs nat bool
  | Task_runs nat "int \<Rightarrow> (endpoint \<times> nat) option" nat int endpoint
  | Session_finishes nat nat

definition on_loop :: "(server_loop \<Rightarrow> server_loop) \<Rightarrow> nat \<Rightarrow> server \<Rightarrow> server" where
  "on_loop f k w = (if k < length (loops w) then set_loop k (f (loops w ! k)) w else w)"

fun server_step :: "platform \<Rightarrow> nat \<Rightarrow> server_op \<Rightarrow> server \<Rightarrow> server option" where
  "server_step p capacity (Stop_moves timed_out names) w = stop_step p capacity timed_out names w"
| "server_step p capacity (Acceptor_moves i adm x) w = Some (acceptor_step p i adm x w)"
| "server_step p capacity (Post_runs k memory) w = Some (on_loop (run_post memory) k w)"
| "server_step p capacity (Task_runs k names a fd peer) w = Some (on_loop (run_spawned capacity names a fd peer) k w)"
| "server_step p capacity (Session_finishes k a) w = Some (on_loop (end_session a) k w)"

fun server_run :: "platform \<Rightarrow> nat \<Rightarrow> server_op list \<Rightarrow> server \<Rightarrow> server option" where
  "server_run p capacity [] w = Some w"
| "server_run p capacity (x # xs) w = Option.bind (server_step p capacity x w) (server_run p capacity xs)"

section \<open>The count of a loop\<close>

definition running :: "session_loop \<Rightarrow> nat set" where
  "running r = {a. phases r a = Serving}"

definition outstanding :: "server_loop \<Rightarrow> nat" where
  "outstanding L = posts L + spawned L + card (running (core L))"

text \<open>After at most \<open>m\<close> tickets.\<close>

definition loop_ok :: "nat \<Rightarrow> server_loop \<Rightarrow> bool" where
  "loop_ok m L \<longleftrightarrow> session_ok (core L) \<and> finite (running (core L)) \<and> sessions (core L) = of_nat (outstanding L)
     \<and> outstanding L \<le> m"

lemma loop_ok_mono: "loop_ok m L \<Longrightarrow> m \<le> m' \<Longrightarrow> loop_ok m' L"
  by (simp add: loop_ok_def)

lemma session_count_fields [simp]:
  "running (session_started r) = running r" "running (session_finished r) = running r"
  "sessions (session_started r) = sessions r + 1" "sessions (session_finished r) = sessions r - 1"
  "walked (session_started r) = walked r" "walked (session_finished r) = walked r"
  "forced (session_started r) = forced r" "forced (session_finished r) = forced r"
  "phases (session_started r) = phases r" "phases (session_finished r) = phases r"
  by (simp_all add: running_def session_started_def session_finished_def)

lemma session_count_ok [simp]:
  "session_ok (session_started r) = session_ok r" "session_ok (session_finished r) = session_ok r"
proof -
  have "session_ok (r\<lparr>sessions := c\<rparr>) = session_ok r" for c
  proof -
    have "reactor_ok (r\<lparr>sessions := c\<rparr>) xs = reactor_ok r xs" for xs
      using reactor_ok_frame [of r xs "r\<lparr>sessions := c\<rparr>"] reactor_ok_frame [of "r\<lparr>sessions := c\<rparr>" xs r]
      by (auto simp: flags_def)
    then show ?thesis by (simp add: session_ok_def controls_follow_def)
  qed
  then show "session_ok (session_started r) = session_ok r" "session_ok (session_finished r) = session_ok r"
    by (simp_all add: session_started_def session_finished_def)
qed

lemma outstanding_fields [simp]:
  "outstanding (L\<lparr>probe := l\<rparr>) = outstanding L"
  "outstanding (L\<lparr>core := session_started (core L)\<rparr>) = outstanding L"
  "outstanding (L\<lparr>core := session_finished (core L)\<rparr>) = outstanding L"
  by (simp_all add: outstanding_def)

text \<open>What the store operations and the controls leave alone.\<close>

lemma store_sessions [simp]:
  "sessions (add K a r) = sessions r" "sessions (remove K a r) = sessions r" "sessions (note_call c r) = sessions r"
  by (simp_all add: add_def remove_def note_call_def Let_def set_node_def set_list_def set_cursor_def split: option.splits)

lemma control_sessions [simp]:
  "sessions (control_abort a r) = sessions r" "sessions (control_force cap names a r) = sessions r"
  "sessions (set_phase a p r) = sessions r" "walked (set_phase a p r) = walked r" "forced (set_phase a p r) = forced r"
  by (simp_all add: control_abort_def control_force_def set_phase_def Let_def)

lemma run_session_fields:
  assumes "session_ok r" and "phases r a \<noteq> Serving"
  shows "phases (run_session cap names a fd peer r) = (phases r)(a := if walked r then Closed else Serving)"
    and "sessions (run_session cap names a fd peer r) = sessions r"
    and "walked (run_session cap names a fd peer r) = walked r"
    and "forced (run_session cap names a fd peer r) = forced r"
proof -
  let ?r1 = "r\<lparr>controls := (controls r)(a := control_initial fd peer)\<rparr>"
  let ?r2 = "track (control_abort a) (control_force cap names a) a ?r1"
  have "phases ?r2 = phases r" "c_aborted (controls ?r2 a) = walked r"
    using tracked_control(2,3) [OF refl, of a cap names r fd peer] by simp_all
  moreover have "sessions ?r2 = sessions r" "walked ?r2 = walked r" "forced ?r2 = forced r"
    by (simp_all add: track_def Let_def add_controls)
  ultimately show "phases (run_session cap names a fd peer r) = (phases r)(a := if walked r then Closed else Serving)"
    "sessions (run_session cap names a fd peer r) = sessions r"
    "walked (run_session cap names a fd peer r) = walked r"
    "forced (run_session cap names a fd peer r) = forced r"
    by (simp_all add: run_session_def Let_def untrack_def)
qed

lemma session_end_fields [simp]:
  "phases (session_end a r) = (phases r)(a := Done)" "sessions (session_end a r) = sessions r"
  "walked (session_end a r) = walked r" "forced (session_end a r) = forced r"
  by (simp_all add: session_end_def untrack_def)

text \<open>The walks change no session and no count, and do not unmark a walk.\<close>

interpretation counted_walks: overrides control_abort "\<lambda>a. control_force cap (names a) a"
  "\<lambda>r. controls_follow r \<and> sessions r = c \<and> phases r = ph \<and> (wk \<longrightarrow> walked r)" for cap names c ph wk
proof
  fix r :: session_loop and a
  assume J: "controls_follow r \<and> sessions r = c \<and> phases r = ph \<and> (wk \<longrightarrow> walked r)"
  show "walked r \<Longrightarrow> controls_follow (control_abort a (note_call (Aborted a) r))
      \<and> sessions (control_abort a (note_call (Aborted a) r)) = c \<and> phases (control_abort a (note_call (Aborted a) r)) = ph
      \<and> (wk \<longrightarrow> walked (control_abort a (note_call (Aborted a) r)))"
    using J session_walks.ab_own [of r a] by simp
  show "forced r \<Longrightarrow> controls_follow (control_force cap (names a) a (note_call (Forced a) r))
      \<and> sessions (control_force cap (names a) a (note_call (Forced a) r)) = c
      \<and> phases (control_force cap (names a) a (note_call (Forced a) r)) = ph
      \<and> (wk \<longrightarrow> walked (control_force cap (names a) a (note_call (Forced a) r)))"
    using J session_walks.fo_own [of r cap names a] by simp
next
  fix r :: session_loop and v
  assume J: "controls_follow r \<and> sessions r = c \<and> phases r = ph \<and> (wk \<longrightarrow> walked r)"
  show "controls_follow (set_cursor 0 v r) \<and> sessions (set_cursor 0 v r) = c \<and> phases (set_cursor 0 v r) = ph
      \<and> (wk \<longrightarrow> walked (set_cursor 0 v r))"
    using J session_walks.cursor_own [of r v] by (simp add: set_cursor_def set_list_def)
qed (simp_all add: control_keeps controls_follow_def)

lemma stop_walk_ok:
  assumes "session_ok r"
  shows "\<exists>r'. session_run cap [Request_stop, Walk_abort] r = Some r' \<and> session_ok r' \<and> walked r'
    \<and> sessions r' = sessions r \<and> phases r' = phases r"
proof -
  let ?r = "abort_all r"
  obtain xs where ok: "reactor_ok ?r xs" and J: "controls_follow ?r"
    using session_step_ok [OF assms, of cap Request_stop] by (auto simp: session_ok_def)
  have same: "sessions ?r = sessions r" "phases ?r = phases r" by (simp_all add: abort_all_def)
  show ?thesis
  proof (cases "walks_due ?r = 0")
    case True
    moreover have "walked ?r" using ok True by (auto simp: reactor_ok_def abort_all_def split: if_splits)
    ultimately show ?thesis using ok J same by (auto simp: session_ok_def)
  next
    case False
    then show ?thesis
      using counted_walks.abort_walk_ok [OF ok False, of "sessions r" "phases r" False] J same
      by (auto simp: session_ok_def)
  qed
qed

lemma force_step_ok:
  assumes "session_ok r"
  shows "\<exists>r'. session_step cap (Walk_force names) r = Some r' \<and> session_ok r' \<and> forced r' \<and> (walked r \<longrightarrow> walked r')
    \<and> sessions r' = sessions r \<and> phases r' = phases r"
proof -
  obtain xs where "reactor_ok r xs" "controls_follow r" using assms by (auto simp: session_ok_def)
  then show ?thesis
    using counted_walks.force_walk_ok [of r xs "sessions r" "phases r" "walked r" cap names] by (auto simp: session_ok_def)
qed

text \<open>What happens on a loop keeps its count. Without a new ticket the outstanding work does not grow.\<close>

lemma of_nat_pred: "0 < n \<Longrightarrow> of_nat (n - 1) = (of_nat n - 1 :: u64)"
  by (cases n) simp_all

lemma loop_ok_core:
  assumes "loop_ok m L" and "session_ok r" "sessions r = sessions (core L)" "phases r = phases (core L)"
  shows "loop_ok m (L\<lparr>core := r\<rparr>)" and "outstanding (L\<lparr>core := r\<rparr>) = outstanding L"
  using assms by (simp_all add: loop_ok_def outstanding_def running_def)

lemma launch_from_ok:
  assumes "loop_ok m L"
  shows "loop_ok (m + 1) (launch_from home memory k L)"
    and "walked (core (launch_from home memory k L)) = walked (core L)"
    and "forced (core (launch_from home memory k L)) = forced (core L)"
  using assms
  by (auto simp: launch_from_def launched_as_def loop_ok_def outstanding_def launch_session_def inside_run_def
      split: launch.splits)

definition calmer :: "nat \<Rightarrow> server_loop \<Rightarrow> server_loop \<Rightarrow> bool" where
  "calmer m L L' \<longleftrightarrow> loop_ok m L' \<and> walked (core L') = walked (core L) \<and> forced (core L') = forced (core L)
     \<and> outstanding L' \<le> outstanding L"

lemma run_post_calmer:
  assumes "loop_ok m L"
  shows "calmer m L (run_post memory L)"
proof (cases "posts L = 0")
  case False
  then have "of_nat (outstanding L - 1) = (of_nat (outstanding L) - 1 :: u64)"
    by (intro of_nat_pred) (simp add: outstanding_def)
  moreover have "outstanding L - 1 = posts L - 1 + spawned L + card (running (core L))"
    using False by (simp add: outstanding_def)
  ultimately show ?thesis
    using assms False
    by (auto simp: calmer_def run_post_def launched_as_def loop_ok_def outstanding_def launch_session_def split: launch.splits)
qed (use assms in \<open>simp add: calmer_def run_post_def\<close>)

lemma running_upd: "running r' = (if p = Serving then insert a (running r) else running r - {a})"
  if "phases r' = (phases r)(a := p)"
  using that by (auto simp: running_def)

lemma run_spawned_calmer:
  assumes ok: "loop_ok m L"
  shows "calmer m L (run_spawned cap names a fd peer L)"
proof (cases "spawned L = 0 \<or> phases (core L) a = Serving")
  case False
  let ?r = "run_session cap names a fd peer (core L)"
  have s: "session_ok (core L)" "phases (core L) a \<noteq> Serving" using ok False by (simp_all add: loop_ok_def)
  note f = run_session_fields [OF s, of cap names fd peer] and r = run_session_ok(1) [OF s, of cap names fd peer]
  have a: "a \<notin> running (core L)" and fin: "finite (running (core L))"
    using False ok by (simp_all add: running_def loop_ok_def)
  have run: "running ?r = (if walked (core L) then running (core L) else insert a (running (core L)))"
    using running_upd [OF f(1)] a by auto
  show ?thesis
  proof (cases "walked (core L)")
    case True
    let ?L = "L\<lparr>spawned := spawned L - 1, core := session_finished ?r\<rparr>"
    have L: "run_spawned cap names a fd peer L = ?L" using False True f(1) by (simp add: run_spawned_def Let_def)
    have "outstanding ?L = outstanding L - 1" "0 < outstanding L"
      using False True run by (simp_all add: outstanding_def)
    then show ?thesis
      using ok True r f run of_nat_pred [of "outstanding L"] unfolding L calmer_def by (auto simp: loop_ok_def)
  next
    case w: False
    let ?L = "L\<lparr>spawned := spawned L - 1, core := ?r\<rparr>"
    have L: "run_spawned cap names a fd peer L = ?L" using False w f(1) by (simp add: run_spawned_def Let_def)
    have "outstanding ?L = outstanding L"
      using False w run a fin by (simp add: outstanding_def)
    then show ?thesis using ok r f run fin w unfolding L calmer_def by (simp add: loop_ok_def)
  qed
qed (use ok in \<open>simp add: calmer_def run_spawned_def\<close>)

lemma end_session_calmer:
  assumes ok: "loop_ok m L"
  shows "calmer m L (end_session a L)"
proof (cases "phases (core L) a = Serving")
  case True
  let ?L = "L\<lparr>core := session_finished (session_end a (core L))\<rparr>"
  have run: "running (session_end a (core L)) = running (core L) - {a}"
    using running_upd [OF session_end_fields(1)] by simp
  have a: "a \<in> running (core L)" and fin: "finite (running (core L))"
    using True ok by (simp_all add: running_def loop_ok_def)
  then have pos: "0 < card (running (core L))" by (auto simp: card_gt_0_iff)
  have "outstanding ?L = outstanding L - 1" "0 < outstanding L"
    using run a fin pos by (simp_all add: outstanding_def)
  moreover have "session_ok (session_end a (core L))" using ok True session_end_ok by (simp add: loop_ok_def)
  moreover have "outstanding L - 1 \<le> m" using ok by (simp add: loop_ok_def le_diff_conv)
  ultimately show ?thesis
    using ok run fin of_nat_pred [of "outstanding L"] True by (simp add: calmer_def loop_ok_def end_session_def)
qed (use ok in \<open>simp add: calmer_def end_session_def\<close>)

section \<open>The invariant of the server\<close>

abbreviation all_walked :: "server \<Rightarrow> bool" where
  "all_walked w \<equiv> \<forall>L \<in> set (loops w). walked (core L)"

abbreviation all_forced :: "server \<Rightarrow> bool" where
  "all_forced w \<equiv> \<forall>L \<in> set (loops w). forced (core L)"

abbreviation all_finished :: "server \<Rightarrow> bool" where
  "all_finished w \<equiv> \<forall>(h, a) \<in> set (acceptors w). finished (control a)"

text \<open>What \<^verbatim>\<open>stop()\<close> has reached where it stands.\<close>

definition stop_reached :: "server \<Rightarrow> bool" where
  "stop_reached w \<longleftrightarrow> (case stop_at w of
       Not_called \<Rightarrow> True
     | Aborting k \<Rightarrow> \<forall>i < length (loops w). i < k \<longrightarrow> walked (core (loops w ! i))
     | Reaping \<Rightarrow> all_walked w \<and> (\<forall>(h, a) \<in> set (acceptors w). ac_stopping (control a))
     | First_wait k drained \<Rightarrow> all_walked w \<and> all_finished w
         \<and> (drained \<longrightarrow> (\<forall>i < length (loops w). i < k \<longrightarrow> outstanding (loops w ! i) = 0))
     | Forcing k \<Rightarrow> all_walked w \<and> all_finished w \<and> (\<forall>i < length (loops w). i < k \<longrightarrow> forced (core (loops w ! i)))
     | Second_wait k \<Rightarrow> all_walked w \<and> all_finished w \<and> all_forced w
     | Past_waits \<Rightarrow> all_walked w \<and> all_finished w
         \<and> ((\<forall>L \<in> set (loops w). outstanding L = 0) \<or> all_forced w))"

definition server_inv :: "nat \<Rightarrow> nat \<Rightarrow> server \<Rightarrow> bool" where
  "server_inv n m w \<longleftrightarrow> length (loops w) = n \<and> (\<forall>L \<in> set (loops w). loop_ok m L)
     \<and> (\<forall>(h, a) \<in> set (acceptors w). accept_inv a \<and> on_target n a) \<and> stop_reached w"

lemma set_loop_fields [simp]:
  "loops (set_loop k L w) = (loops w)[k := L]" "acceptors (set_loop k L w) = acceptors w"
  "stop_at (set_loop k L w) = stop_at w"
  by (simp_all add: set_loop_def)

lemma all_update: "(\<forall>x \<in> set xs. P x) \<Longrightarrow> P y \<Longrightarrow> \<forall>x \<in> set (xs[k := y]). P x"
  by (auto dest!: set_update_subset_insert [THEN subsetD])

lemma stop_reached_loop:
  assumes "stop_reached w" and k: "k < length (loops w)"
    and "walked (core L) = walked (core (loops w ! k))" "forced (core L) = forced (core (loops w ! k))"
    and "outstanding L \<le> outstanding (loops w ! k) \<or> (\<exists>(h, a) \<in> set (acceptors w). \<not> finished (control a))"
  shows "stop_reached (set_loop k L w)"
proof -
  have w: "all_walked w \<Longrightarrow> all_walked (set_loop k L w)" and f: "all_forced w \<Longrightarrow> all_forced (set_loop k L w)"
    using assms(3,4) k by (auto dest!: set_update_subset_insert [THEN subsetD])
  have o: "\<forall>M \<in> set (loops w). outstanding M = 0 \<Longrightarrow> all_finished w \<Longrightarrow> \<forall>M \<in> set (loops (set_loop k L w)). outstanding M = 0"
    using assms(5) k by (auto dest!: set_update_subset_insert [THEN subsetD])
  show ?thesis
    using assms w f o by (cases "stop_at w") (auto simp: stop_reached_def nth_list_update)
qed

lemma on_loop_inv:
  assumes inv: "server_inv n m w" and step: "\<And>L. loop_ok m L \<Longrightarrow> calmer m L (f L)"
  shows "server_inv n m (on_loop f k w)"
proof (cases "k < length (loops w)")
  case True
  then have c: "calmer m (loops w ! k) (f (loops w ! k))" using inv step by (simp add: server_inv_def)
  then have "stop_reached (set_loop k (f (loops w ! k)) w)"
    using inv by (intro stop_reached_loop [OF _ True]) (simp_all add: calmer_def server_inv_def)
  moreover have "\<forall>L \<in> set ((loops w)[k := f (loops w ! k)]). loop_ok m L"
    using inv c by (intro all_update) (simp_all add: calmer_def server_inv_def)
  ultimately show ?thesis using inv True by (simp add: on_loop_def server_inv_def)
qed (use inv in \<open>simp add: on_loop_def\<close>)

text \<open>The accept loops. One that has finished stays so and launches nothing.\<close>

lemma finished_stays: "accept_inv a \<Longrightarrow> finished (control a) \<Longrightarrow> finished (control (accept_step p x a))"
  by (cases x; cases "pc a") (auto simp: accept_inv_def)

lemma accept_connection_fields:
  "targets (accept_connection p memory k a) = targets a" "next_target (accept_connection p memory k a) = next_target a"
  "pc (accept_connection p memory k a) \<noteq> Accepting j"
  by (simp_all add: accept_connection_def accept_launch_def accept_retry_fields Let_def)

lemma accept_step_target:
  assumes "on_target n a"
  shows "on_target n (accept_step p x a)"
proof (cases x)
  case (Accept_done memory)
  then show ?thesis
  proof (cases "pc a")
    case (Accepting k)
    then show ?thesis
      using assms Accept_done accept_connection_fields [of p memory k a]
      by (simp add: on_target_def split: accept_pc.split)
  qed (use assms in simp_all)
next
  case Session_over
  then show ?thesis using assms by (cases "pc a") (simp_all add: on_target_def)
qed (use quiet_step(1) [OF assms _ _ refl, of x p] in simp_all)

lemma stop_reached_acceptors:
  assumes "stop_reached w"
    and "\<And>h a. (h, a) \<in> set as \<Longrightarrow> \<exists>b. (h, b) \<in> set (acceptors w)
      \<and> (ac_stopping (control b) \<longrightarrow> ac_stopping (control a)) \<and> (finished (control b) \<longrightarrow> finished (control a))"
  shows "stop_reached (w\<lparr>acceptors := as\<rparr>)"
proof -
  have f: "all_finished w \<Longrightarrow> \<forall>(h, a) \<in> set as. finished (control a)"
    and s: "\<forall>(h, a) \<in> set (acceptors w). ac_stopping (control a) \<Longrightarrow> \<forall>(h, a) \<in> set as. ac_stopping (control a)"
    using assms(2) by fast+
  show ?thesis using assms(1) f s by (cases "stop_at w") (simp_all add: stop_reached_def)
qed

lemma acceptor_step_inv:
  assumes inv: "server_inv n m w"
  shows "server_inv n (m + 1) (acceptor_step p i adm x w)"
proof (cases "i < length (acceptors w)")
  case True
  obtain home a where ha: "acceptors w ! i = (home, a)" by (cases "acceptors w ! i")
  let ?a = "a\<lparr>bounded_by := adm\<rparr>"
  let ?as = "(acceptors w)[i := (home, accept_step p x ?a)]"
  let ?w = "w\<lparr>acceptors := ?as\<rparr>"
  have mem: "(home, a) \<in> set (acceptors w)" using True ha by (metis nth_mem)
  have a: "accept_inv ?a" "on_target n ?a"
    using inv mem by (cases "pc a"; auto simp: server_inv_def accept_inv_def on_target_def)+
  have "stop_reached ?w"
    using inv mem stopping_stays [of ?a p x] finished_stays [OF a(1), of p x]
    by (intro stop_reached_acceptors) (auto simp: server_inv_def dest!: set_update_subset_insert [THEN subsetD])
  moreover have as: "\<forall>(h, a) \<in> set ?as. accept_inv a \<and> on_target n a"
    using inv accept_step_inv [OF a(1), of p x] accept_step_target [OF a(2), of p x]
    by (auto simp: server_inv_def dest!: set_update_subset_insert [THEN subsetD])
  ultimately have w: "server_inv n m ?w" using inv by (simp add: server_inv_def)
  show ?thesis
  proof (cases "launches x ?a")
    case None
    then show ?thesis
      using w True ha loop_ok_mono [of m _ "m + 1"] by (auto simp: acceptor_step_def Let_def server_inv_def)
  next
    case (Some km)
    obtain k memory where km: "km = (k, memory)" by (cases km)
    have pc: "pc a = Accepting k" and run: "\<not> ac_stopping (control a)"
      using Some km by (auto simp: launches_def split: accept_op.splits accept_pc.splits if_splits)
    then have k: "k < length (loops w)" and nf: "\<not> finished (control a)"
      using a inv by (auto simp: on_target_def accept_inv_def server_inv_def)
    let ?L = "launch_from home memory k (loops w ! k)"
    have "loop_ok m (loops w ! k)" using inv k by (simp add: server_inv_def)
    note L = launch_from_ok [OF this, of home memory k]
    have "stop_reached (set_loop k ?L w)"
      using inv k L(2,3) mem nf by (intro stop_reached_loop) (auto simp: server_inv_def)
    then have "stop_reached ((set_loop k ?L w)\<lparr>acceptors := ?as\<rparr>)"
      using mem stopping_stays [of ?a p x] finished_stays [OF a(1), of p x]
      by (intro stop_reached_acceptors) (auto dest!: set_update_subset_insert [THEN subsetD])
    moreover have "(set_loop k ?L w)\<lparr>acceptors := ?as\<rparr> = acceptor_step p i adm x w"
      using True ha Some km by (simp add: acceptor_step_def set_loop_def Let_def)
    moreover have "\<forall>L \<in> set ((loops w)[k := ?L]). loop_ok (m + 1) L"
      using inv L(1) loop_ok_mono [of m _ "m + 1"] by (intro all_update) (auto simp: server_inv_def)
    moreover have "length ((loops w)[k := ?L]) = n" using inv by (simp add: server_inv_def)
    moreover have "loops (acceptor_step p i adm x w) = (loops w)[k := ?L]" "acceptors (acceptor_step p i adm x w) = ?as"
      using True ha Some km by (simp_all add: acceptor_step_def Let_def)
    ultimately show ?thesis using as unfolding server_inv_def by metis
  qed
qed (use inv loop_ok_mono [of m _ "m + 1"] in \<open>auto simp: acceptor_step_def server_inv_def\<close>)

text \<open>A walk over loop \<open>k\<close> by \<^verbatim>\<open>stop()\<close>.\<close>

lemma walk_inv:
  assumes inv: "server_inv n m w" and k: "k < length (loops w)" and ok: "session_ok r"
    and same: "sessions r = sessions (core (loops w ! k))" "phases r = phases (core (loops w ! k))"
    and w': "w' = (set_loop k ((loops w ! k)\<lparr>core := r\<rparr>) w)\<lparr>stop_at := l\<rparr>" and reached: "stop_reached w'"
  shows "server_inv n m w'"
proof -
  have "loop_ok m (loops w ! k)" using inv k by (simp add: server_inv_def)
  from loop_ok_core(1) [OF this ok same]
  have "\<forall>L \<in> set ((loops w)[k := (loops w ! k)\<lparr>core := r\<rparr>]). loop_ok m L"
    using inv by (intro all_update) (simp_all add: server_inv_def)
  then show ?thesis using inv reached by (simp add: server_inv_def w')
qed

lemma all_nth: "(\<forall>x \<in> set xs. P x) \<longleftrightarrow> (\<forall>i < length xs. P (xs ! i))"
  by (rule all_set_conv_all_nth)

lemma ended_outstanding:
  assumes "loop_ok m L" and "m < 2 ^ 64" and "sessions_ended (core L)"
  shows "outstanding L = 0"
proof -
  have "unat (of_nat (outstanding L) :: u64) = outstanding L"
    using assms(1,2) by (simp add: loop_ok_def unat_of_nat take_bit_nat_eq_self)
  then show ?thesis using assms(1,3) by (simp add: loop_ok_def sessions_ended_def)
qed

lemma server_inv_at:
  assumes "server_inv n m w" and "stop_reached (w\<lparr>stop_at := l\<rparr>)"
  shows "server_inv n m (w\<lparr>stop_at := l\<rparr>)"
  using assms by (simp add: server_inv_def)

lemma stop_step_inv:
  assumes inv: "server_inv n m w" and m: "m < 2 ^ 64"
  shows "\<exists>w'. stop_step p cap timed_out names w = Some w' \<and> server_inv n m w'"
proof -
  have reached: "stop_reached w" and loops: "\<forall>L \<in> set (loops w). loop_ok m L" using inv by (simp_all add: server_inv_def)
  have core: "session_ok (core (loops w ! k))" if "k < length (loops w)" for k
    using loops that by (auto simp: loop_ok_def all_nth)
  show ?thesis
  proof (cases "stop_at w")
    case Not_called
    then show ?thesis using server_inv_at [OF inv] by (simp add: stop_step_def stop_reached_def)
  next
    case (Aborting k)
    show ?thesis
    proof (cases "k < length (loops w)")
      case True
      obtain r where r: "session_run cap [Request_stop, Walk_abort] (core (loops w ! k)) = Some r" "session_ok r" "walked r"
        "sessions r = sessions (core (loops w ! k))" "phases r = phases (core (loops w ! k))"
        using stop_walk_ok [OF core [OF True]] by blast
      let ?w = "(set_loop k ((loops w ! k)\<lparr>core := r\<rparr>) w)\<lparr>stop_at := Aborting (k + 1)\<rparr>"
      have "stop_reached ?w"
        using reached Aborting r(3) by (auto simp: stop_reached_def nth_list_update less_Suc_eq)
      from walk_inv [OF inv True r(2,4,5) refl this] show ?thesis
        using Aborting True r(1) by (simp add: stop_step_def)
    next
      case False
      let ?as = "map (\<lambda>(h, a). (h, accept_step p Set_stopping a)) (acceptors w)"
      have "accept_inv (accept_step p Set_stopping a) \<and> on_target n (accept_step p Set_stopping a)"
        if "(h, a) \<in> set (acceptors w)" for h a
        using that inv accept_step_inv [of a p Set_stopping] accept_step_target [of n a p Set_stopping]
        by (auto simp: server_inv_def simp del: accept_step.simps)
      then have "\<forall>(h, a) \<in> set ?as. accept_inv a \<and> on_target n a" by (auto simp del: accept_step.simps)
      moreover have "stop_reached (w\<lparr>acceptors := ?as, stop_at := Reaping\<rparr>)"
        using reached Aborting False by (auto simp: stop_reached_def all_nth [of "loops w"])
      ultimately show ?thesis using inv Aborting False by (auto simp: stop_step_def server_inv_def)
    qed
  next
    case Reaping
    have "stop_reached (w\<lparr>stop_at := First_wait 0 True\<rparr>)" if "all_finished w"
      using reached Reaping that by (simp add: stop_reached_def)
    then show ?thesis using inv Reaping server_inv_at [OF inv] by (simp add: stop_step_def)
  next
    case (First_wait k drained)
    have "stop_reached (w\<lparr>stop_at := First_wait (k + 1) (ended \<and> drained)\<rparr>)"
      if "k < length (loops w)" "waited_for timed_out (loops w ! k) = Some ended" for ended
    proof -
      have "outstanding (loops w ! k) = 0" if "ended"
        using that \<open>waited_for timed_out (loops w ! k) = Some ended\<close> \<open>k < length (loops w)\<close> loops
          ended_outstanding [OF _ m, of "loops w ! k"]
        by (auto simp: waited_for_def split: if_splits)
      then show ?thesis using reached First_wait by (auto simp: stop_reached_def less_Suc_eq)
    qed
    moreover have "stop_reached (w\<lparr>stop_at := if \<not> drained then Forcing 0 else Past_waits\<rparr>)" if "\<not> k < length (loops w)"
      using reached First_wait that by (auto simp: stop_reached_def all_nth)
    ultimately show ?thesis
      using First_wait inv server_inv_at [OF inv] by (auto simp: stop_step_def split: option.splits)
  next
    case (Forcing k)
    show ?thesis
    proof (cases "k < length (loops w)")
      case True
      obtain r where r: "session_step cap (Walk_force names) (core (loops w ! k)) = Some r" "session_ok r" "forced r"
        "walked (core (loops w ! k)) \<longrightarrow> walked r"
        "sessions r = sessions (core (loops w ! k))" "phases r = phases (core (loops w ! k))"
        using force_step_ok [OF core [OF True]] by blast
      let ?w = "(set_loop k ((loops w ! k)\<lparr>core := r\<rparr>) w)\<lparr>stop_at := Forcing (k + 1)\<rparr>"
      have "stop_reached ?w"
        using reached Forcing r(3,4) True
        by (auto simp: stop_reached_def nth_list_update less_Suc_eq dest!: set_update_subset_insert [THEN subsetD])
      from walk_inv [OF inv True r(2,5,6) refl this] show ?thesis
        using Forcing True r(1) by (simp add: stop_step_def)
    next
      case False
      then have "stop_reached (w\<lparr>stop_at := Second_wait 0\<rparr>)"
        using reached Forcing by (auto simp: stop_reached_def all_nth)
      then show ?thesis using Forcing False server_inv_at [OF inv] by (simp add: stop_step_def)
    qed
  next
    case (Second_wait k)
    then have "stop_reached (w\<lparr>stop_at := Second_wait (k + 1)\<rparr>)" "stop_reached (w\<lparr>stop_at := Past_waits\<rparr>)"
      using reached by (simp_all add: stop_reached_def)
    then show ?thesis
      using Second_wait inv server_inv_at [OF inv] by (auto simp: stop_step_def split: option.splits)
  qed (use inv in \<open>simp add: stop_step_def\<close>)
qed

lemma server_inv_mono: "server_inv n m w \<Longrightarrow> m \<le> m' \<Longrightarrow> server_inv n m' w"
  using loop_ok_mono by (auto simp: server_inv_def)

lemma server_step_inv:
  assumes inv: "server_inv n m w" and m: "m < 2 ^ 64"
  shows "\<exists>w'. server_step p cap x w = Some w' \<and> server_inv n (m + 1) w'"
proof (cases x)
  case (Stop_moves timed_out names)
  then show ?thesis using stop_step_inv [OF inv m, of p cap timed_out names] server_inv_mono [of n m _ "m + 1"] by auto
next
  case (Acceptor_moves i adm y)
  then show ?thesis using acceptor_step_inv [OF inv] by simp
qed (use on_loop_inv [OF inv] run_post_calmer run_spawned_calmer end_session_calmer server_inv_mono [of n m _ "m + 1"] in simp_all)

lemma server_run_inv:
  "server_inv n m w \<Longrightarrow> m + length xs \<le> 2 ^ 64 \<Longrightarrow>
     \<exists>w'. server_run p cap xs w = Some w' \<and> server_inv n (m + length xs) w'"
proof (induction xs arbitrary: m w)
  case (Cons x xs)
  obtain w1 where "server_step p cap x w = Some w1" "server_inv n (m + 1) w1"
    using server_step_inv [OF Cons.prems(1)] Cons.prems(2) by force
  then show ?case using Cons.IH [of "m + 1" w1] Cons.prems(2) by simp
qed simp

lemma server_initial_inv:
  assumes "\<forall>(h, ts) \<in> set as. set ts \<subseteq> {..<n} \<and> ts \<noteq> []"
  shows "server_inv n 0 (server_initial n as)"
proof -
  have "loop_ok 0 loop_initial"
    using session_ok_initial
    by (simp add: loop_ok_def loop_initial_def outstanding_def running_def session_loop_initial_def reactor_initial_def
        reactor.defs)
  moreover have "accept_inv (accept_initial ts None) \<and> on_target n (accept_initial ts None)" if "(h, ts) \<in> set as" for h ts
    using that assms accept_initial_inv by (auto simp: on_target_def accept_initial_def)
  ultimately show ?thesis by (auto simp: server_inv_def server_initial_def stop_reached_def)
qed

section \<open>Properties\<close>

text \<open>How far \<^verbatim>\<open>stop()\<close> has to go over \<open>n\<close> reactors.\<close>

fun stop_distance :: "nat \<Rightarrow> stop_pc \<Rightarrow> nat" where
  "stop_distance n Not_called = 4 * n + 6"
| "stop_distance n (Aborting k) = (n - k) + 3 * n + 5"
| "stop_distance n Reaping = 3 * n + 4"
| "stop_distance n (First_wait k drained) = (n - k) + 2 * n + 3"
| "stop_distance n (Forcing k) = (n - k) + n + 2"
| "stop_distance n (Second_wait k) = (n - k) + 1"
| "stop_distance n Past_waits = 0"


text \<open>One reactor, one session that does not end by itself.\<close>

definition stalled_session :: "server_op list" where
  "stalled_session =
     [Acceptor_moves 0 None (Do_setup False bind_options_default (\<lambda>_. None) (0, 80)), Acceptor_moves 0 None Do_head,
      Acceptor_moves 0 None (Accept_done True), Task_runs 0 (\<lambda>_. None) 1 7 (10, 80)]
   @ replicate 3 (Stop_moves False (\<lambda>_ _. None)) @ [Acceptor_moves 0 None Do_head]
   @ replicate 7 (Stop_moves True (\<lambda>_ _. None))"

lemma stalled_session_run:
  "map_option (\<lambda>w. (stop_at w, map (\<lambda>L. phases (core L) 1) (loops w)))
     (server_run \<lparr>apple = False, has_enonet = True\<rparr> 28 stalled_session (server_initial 1 [(0, [0])])) = Some (Past_waits, [Serving])"
  by code_simp


text \<open>C6: \<^verbatim>\<open>stop()\<close> gets past its waits. Nothing but its own steps moves it; each of them brings it
  closer to its end once the deadline of the wait it is in has passed, over at most \<open>4 n + 6\<close> of
  them; only the wait for the accept loops has no deadline, and there each loop ends with the next
  completion of what it waits for.\<close>

theorem stop_gets_past:
  assumes "\<forall>(h, ts) \<in> set as. set ts \<subseteq> {..<n} \<and> ts \<noteq> []" and "length xs < 2 ^ 64"
    and "server_run p cap xs (server_initial n as) = Some w"
  shows "stop_distance n (stop_at w) \<le> 4 * n + 6
    \<and> (stop_at w \<noteq> Past_waits \<and> (stop_at w = Reaping \<longrightarrow> (\<forall>(h, a) \<in> set (acceptors w). finished (control a))) \<longrightarrow>
        (\<exists>w'. server_step p cap (Stop_moves True names) w = Some w'
           \<and> stop_distance n (stop_at w') < stop_distance n (stop_at w)))
    \<and> ((\<forall>timed_out names. x \<noteq> Stop_moves timed_out names) \<longrightarrow>
        (\<exists>w'. server_step p cap x w = Some w' \<and> stop_at w' = stop_at w))
    \<and> (stop_at w = Reaping \<and> i < length (acceptors w) \<and> completes y (pc (snd (acceptors w ! i))) \<longrightarrow>
        finished (control (snd (acceptors (acceptor_step p i adm y w) ! i))))"
proof -
  have inv: "server_inv n (length xs) w"
    using server_run_inv [OF server_initial_inv [OF assms(1)], of xs p cap] assms(2,3) by auto
  have n: "length (loops w) = n" using inv by (simp add: server_inv_def)
  obtain w' where w': "stop_step p cap True names w = Some w'" using stop_step_inv [OF inv assms(2)] by blast
  have "stop_distance n (stop_at w') < stop_distance n (stop_at w)"
    if "stop_at w \<noteq> Past_waits" "stop_at w = Reaping \<longrightarrow> all_finished w"
    using w' that n by (cases "stop_at w") (auto simp: stop_step_def waited_for_def split: if_splits)
  moreover have "\<exists>w'. server_step p cap x w = Some w' \<and> stop_at w' = stop_at w"
    if "\<forall>timed_out names. x \<noteq> Stop_moves timed_out names"
    using that by (cases x) (auto simp: acceptor_step_def on_loop_def Let_def split: prod.splits option.splits)
  moreover have "finished (control (snd (acceptors (acceptor_step p i adm y w) ! i)))"
    if r: "stop_at w = Reaping" and i: "i < length (acceptors w)" and c: "completes y (pc (snd (acceptors w ! i)))"
  proof -
    obtain h a where ha: "acceptors w ! i = (h, a)" by (cases "acceptors w ! i")
    then have "(h, a) \<in> set (acceptors w)" using i by (metis nth_mem)
    then have "ac_stopping (control a)" using inv r by (auto simp: server_inv_def stop_reached_def)
    then have "finished (control (accept_step p y (a\<lparr>bounded_by := adm\<rparr>)))"
      using stopping_ends [of "a\<lparr>bounded_by := adm\<rparr>" y p] c ha by simp
    then show ?thesis using i ha by (simp add: acceptor_step_def Let_def split: option.splits prod.splits)
  qed
  moreover have "stop_distance n (stop_at w) \<le> 4 * n + 6" by (cases "stop_at w") simp_all
  ultimately show ?thesis using w' by auto
qed

theorem stop_gets_past_witness:
  "\<exists>w w'. server_run \<lparr>apple = False, has_enonet = True\<rparr> 28 [] (server_initial 1 [(0, [0])]) = Some w
     \<and> server_step \<lparr>apple = False, has_enonet = True\<rparr> 28 (Stop_moves True (\<lambda>_ _. None)) w = Some w'
     \<and> stop_distance 1 (stop_at w') < stop_distance 1 (stop_at w)"
  using stop_gets_past [of "[(0, [0])]" 1 "[]" "\<lparr>apple = False, has_enonet = True\<rparr>" 28 "server_initial 1 [(0, [0])]" "\<lambda>_ _. None"]
  by (simp add: server_initial_def)

end
