(* ===== verification/Tcp_Server.thy ===== *)
theory Tcp_Server
  imports Accept
begin

text \<open>
  \<^verbatim>\<open>TcpServer\<close> of \<^verbatim>\<open>src/reactor.h\<close>: construction and configuration, \<^verbatim>\<open>start\<close> with every
  place it can fail at, and the phases of teardown. Per reactor the state has how often
  its loop is claimed, whether its \<^verbatim>\<open>io_context\<close> has been stopped, whether its scheduler
  has been closed and its roots destroyed, and its lag probe (theory \<open>Lag\<close>); the accept loops
  are those of theory \<open>Accept\<close>.
  What the system decides (which allocation, thread or listener fails, when sessions
  end) is an argument. A call that would block for ever is \<open>None\<close>.

  Shown: no public call blocks, in whatever order the calls come and whatever fails in
  \<^verbatim>\<open>start\<close>; a loop is claimed exactly while its thread runs, no scheduler is closed
  under a running loop, and when the destructor is over every loop has been released (the
  assertion of \<^verbatim>\<open>~Reactor\<close>); a server starts at most once, a start that throws leaves a
  stopped server, one that returns has every listener bound; no lag probe runs before
  the start or records anything after a stop; \<^verbatim>\<open>stop\<close> waits for sessions
  at most twice the grace, however many reactors there are.
\<close>

section \<open>The server\<close>

record tcp_server =
  n_reactors :: nat
  started :: bool
  stopped :: bool
  port :: nat
  lag_probe :: bool
  bind :: bind_options
  grace :: int
  admitting :: "ca_state option"
  claims :: "nat list"
  threads :: "nat list"
  guards :: nat
  accepts :: "(nat \<times> accept_state) list"
  requested :: "nat list"
  probes :: "lag list"
  aborted :: "bool list"
  forcing :: "bool list"
  io_stopped :: "bool list"
  closed :: "bool list"
  destroyed :: "bool list"
  waited :: int

definition connection_bound :: "size_t \<Rightarrow> ca_state option" where
  "connection_bound m = (if m \<noteq> 0 then Some (ca_initial m) else None)"

definition TcpServer :: "nat \<Rightarrow> size_t \<Rightarrow> tcp_server" where
  "TcpServer k m =
     (let n = (if k \<noteq> 0 then k else 1) in
        \<lparr>n_reactors = n, started = False, stopped = False, port = 0, lag_probe = False,
         bind = bind_options_default, grace = 5000, admitting = connection_bound m,
         claims = replicate n 0, threads = [], guards = 0, accepts = [], requested = [], probes = replicate n lag_initial,
         aborted = replicate n False, forcing = replicate n False, io_stopped = replicate n False,
         closed = replicate n False, destroyed = replicate n False, waited = 0\<rparr>)"

definition set_bind_options :: "bind_options \<Rightarrow> tcp_server \<Rightarrow> tcp_server" where
  "set_bind_options b s = s\<lparr>bind := b\<rparr>"

definition set_connection_limit :: "size_t \<Rightarrow> tcp_server \<Rightarrow> (exn + unit) \<times> tcp_server" where
  "set_connection_limit m s =
     (if started s then (Inl (Logic_error ''connection bound must be set before startup''), s)
      else (Inr (), s\<lparr>admitting := connection_bound m\<rparr>))"

definition set_shutdown_grace :: "int \<Rightarrow> tcp_server \<Rightarrow> tcp_server" where
  "set_shutdown_grace g s = s\<lparr>grace := g\<rparr>"

definition enable_lag_probe :: "tcp_server \<Rightarrow> (exn + unit) \<times> tcp_server" where
  "enable_lag_probe s =
     (if started s then (Inl (Logic_error ''lag probe must be enabled before startup''), s)
      else (Inr (), s\<lparr>lag_probe := True\<rparr>))"

text \<open>\<^verbatim>\<open>connection_stats\<close>: the statistics of the admission, or zeros without one.\<close>

definition connection_stats :: "tcp_server \<Rightarrow> connection_stats" where
  "connection_stats s =
     (case admitting s of
        Some a \<Rightarrow> stats a
      | None \<Rightarrow> \<lparr>cs_active = 0, cs_high_water = 0, cs_accepted = 0, cs_rejected = 0\<rparr>)"

section \<open>Stopping\<close>

text \<open>\<^verbatim>\<open>wait_sessions_until\<close>, from time \<open>now\<close>; \<open>ended\<close> is when the last session ends, if it does.
  The result is whether it did in time, and the time at the return.\<close>

definition wait_sessions_until :: "int option \<Rightarrow> int \<Rightarrow> int \<Rightarrow> bool \<times> int" where
  "wait_sessions_until ended deadline now =
     (case ended of
        Some t \<Rightarrow> if t \<le> now then (True, now) else if t \<le> deadline then (True, t) else (False, max now deadline)
      | None \<Rightarrow> (False, max now deadline))"

fun wait_all :: "int option list \<Rightarrow> int \<Rightarrow> bool \<Rightarrow> int \<Rightarrow> bool \<times> int" where
  "wait_all [] deadline drained now = (drained, now)"
| "wait_all (e # es) deadline drained now =
     (case wait_sessions_until e deadline now of
        (ended, now') \<Rightarrow> wait_all es deadline (ended \<and> drained) now')"

definition sessions_end_within :: "int option list \<Rightarrow> int \<Rightarrow> int \<Rightarrow> bool \<times> int" where
  "sessions_end_within es limit_ms now = wait_all es (now + limit_ms) True now"

text \<open>Stage two of \<^verbatim>\<open>stop\<close>: whether the sessions were forced, and when it is over.\<close>

definition session_stage :: "int option list \<Rightarrow> int option list \<Rightarrow> int \<Rightarrow> int \<Rightarrow> bool \<times> int" where
  "session_stage ends ends' g now =
     (case sessions_end_within ends g now of
        (drained, t) \<Rightarrow> if \<not> drained then (True, snd (sessions_end_within ends' g t)) else (False, t))"

text \<open>\<^verbatim>\<open>abort_all\<close> returns once the walk has run: inline if the loop is not claimed, else on
  the loop's thread, which has to run.\<close>

definition can_abort :: "tcp_server \<Rightarrow> bool" where
  "can_abort s \<longleftrightarrow> (\<forall>k < n_reactors s. claims s ! k = 0 \<or> k \<in> set (threads s))"

text \<open>An accept loop that has been asked to stop, driven to its end by the thread of its loop:
  \<^verbatim>\<open>stop_on_owner\<close> completes what it waits for.\<close>

definition stop_accept :: "platform \<Rightarrow> accept_state \<Rightarrow> accept_state" where
  "stop_accept p a =
     (let a1 = accept_step p Set_stopping a in
      accept_run p ((case pc a1 of
                       Setup \<Rightarrow> [Do_setup False bind_options_default (\<lambda>_. None) (0, 0)]
                     | Head \<Rightarrow> [Do_head]
                     | _ \<Rightarrow> stop_on_owner a1)) a1)"

text \<open>\<^verbatim>\<open>control->wait()\<close> for every accept loop.\<close>

definition can_wait :: "tcp_server \<Rightarrow> bool" where
  "can_wait s \<longleftrightarrow> (\<forall>(k, a) \<in> set (accepts s). finished (control a) \<or> k \<in> set (threads s))"

text \<open>\<^verbatim>\<open>stop\<close>; \<open>ends\<close> and \<open>ends'\<close> are when the sessions of each reactor end, without and with
  \<^verbatim>\<open>force_all\<close>. A joined thread has released its loop.\<close>

definition release :: "nat \<Rightarrow> nat list \<Rightarrow> nat list" where
  "release k cs = cs[k := cs ! k - 1]"

definition stop :: "platform \<Rightarrow> int option list \<Rightarrow> int option list \<Rightarrow> tcp_server \<Rightarrow> tcp_server option" where
  "stop p ends ends' s =
     (if stopped s then Some s
      else
        let s1 = s\<lparr>stopped := True\<rparr> in
        if \<not> can_abort s1 then None
        else
          let s2 = s1\<lparr>aborted := replicate (n_reactors s) True\<rparr> in
          if \<not> can_wait s2 then None
          else
            let s3 = s2\<lparr>accepts := map (\<lambda>(k, a). (k, if finished (control a) then a else stop_accept p a)) (accepts s2)\<rparr>
            in if \<exists>(k, a) \<in> set (accepts s3). \<not> finished (control a) then None
            else
            let stage = session_stage ends ends' (grace s) 0;
                s4 = (if fst stage then s3\<lparr>forcing := replicate (n_reactors s) True\<rparr> else s3)\<lparr>waited := snd stage\<rparr>;
                s5 = s4\<lparr>guards := 0, probes := map Lag.stop (probes s4),
                       io_stopped := replicate (n_reactors s) True\<rparr>;
                s6 = s5\<lparr>claims := fold release (threads s5) (claims s5), threads := []\<rparr>
            in Some (s6\<lparr>accepts := [], requested := []\<rparr>))"

definition close :: "platform \<Rightarrow> int option list \<Rightarrow> int option list \<Rightarrow> tcp_server \<Rightarrow> tcp_server option" where
  "close p ends ends' s = map_option (\<lambda>s. s\<lparr>closed := replicate (n_reactors s) True\<rparr>) (stop p ends ends' s)"

definition destroy_roots :: "platform \<Rightarrow> int option list \<Rightarrow> int option list \<Rightarrow> tcp_server \<Rightarrow> tcp_server option" where
  "destroy_roots p ends ends' s =
     map_option (\<lambda>s. s\<lparr>destroyed := replicate (n_reactors s) True\<rparr>) (close p ends ends' s)"

text \<open>\<^verbatim>\<open>~Reactor\<close>: it asserts that no thread holds the loop, stops the loop, and its members go, the lag
  probe among them. \<^verbatim>\<open>~TcpServer\<close>: the phases not yet run, then the threads (ending the process if one
  has not been joined) and the reactors.\<close>

definition destruct_reactor :: "nat \<Rightarrow> tcp_server \<Rightarrow> tcp_server option" where
  "destruct_reactor k s =
     (if claims s ! k \<noteq> 0 then None
      else Some (s\<lparr>io_stopped := (io_stopped s)[k := True], probes := (probes s)[k := Lag.stop (probes s ! k)]\<rparr>))"

fun destruct_reactors :: "nat list \<Rightarrow> tcp_server \<Rightarrow> tcp_server option" where
  "destruct_reactors [] s = Some s"
| "destruct_reactors (k # ks) s = Option.bind (destruct_reactor k s) (destruct_reactors ks)"

definition destruct_server :: "platform \<Rightarrow> int option list \<Rightarrow> int option list \<Rightarrow> tcp_server \<Rightarrow> tcp_server option" where
  "destruct_server p ends ends' s =
     Option.bind (destroy_roots p ends ends' s) (\<lambda>s.
       if threads s \<noteq> [] then None else destruct_reactors [0..<n_reactors s] s)"

section \<open>Starting\<close>

text \<open>What the system decides during \<^verbatim>\<open>start\<close>: the reactor whose socket service or guard, whose
  thread, or whose accept loop cannot be made; for each listener which set-up call fails,
  and, by the port it asks for, the endpoint it is bound to; and the clock when the lag probe of
  each reactor starts.\<close>

record start_env =
  guard_fails :: "nat option"
  thread_fails :: "nat option"
  spawn_fails :: "nat option"
  setup_fails :: "nat \<Rightarrow> setup_call \<Rightarrow> exn option"
  bound_ports :: "nat \<Rightarrow> nat \<Rightarrow> endpoint"
  clock_at :: "nat \<Rightarrow> int"

fun start_guards :: "start_env \<Rightarrow> nat list \<Rightarrow> tcp_server \<Rightarrow> (exn + unit) \<times> tcp_server" where
  "start_guards env [] s = (Inr (), s)"
| "start_guards env (k # ks) s =
     (if guard_fails env = Some k then (Inl Bad_alloc, s)
      else start_guards env ks
             (s\<lparr>guards := guards s + 1,
                probes := (if lag_probe s then (probes s)[k := Lag.start (clock_at env k) (probes s ! k)] else probes s)\<rparr>))"

definition claim :: "nat \<Rightarrow> nat list \<Rightarrow> nat list" where
  "claim k cs = cs[k := cs ! k + 1]"

fun start_threads :: "start_env \<Rightarrow> nat list \<Rightarrow> tcp_server \<Rightarrow> (exn + unit) \<times> tcp_server" where
  "start_threads env [] s = (Inr (), s)"
| "start_threads env (k # ks) s =
     (let s1 = s\<lparr>claims := claim k (claims s)\<rparr> in
      if thread_fails env = Some k then (Inl (System_error (system_error EAGAIN)), s1\<lparr>claims := release k (claims s1)\<rparr>)
      else start_threads env ks (s1\<lparr>threads := threads s1 @ [k]\<rparr>))"

text \<open>\<^verbatim>\<open>wait_listening\<close> for accept loop \<open>i\<close>, which runs its set-up on the thread of its loop.\<close>

definition await_listener :: "platform \<Rightarrow> start_env \<Rightarrow> bool \<Rightarrow> nat \<Rightarrow> tcp_server \<Rightarrow> (exn + unit) option \<times> tcp_server" where
  "await_listener p env shared i s =
     (case accepts s ! i of (k, a) \<Rightarrow>
        let a' = (if k \<in> set (threads s)
                  then accept_step p (Do_setup shared (bind s) (setup_fails env i) (bound_ports env i (requested s ! i))) a else a)
        in (wait_listening (control a'), s\<lparr>accepts := (accepts s)[i := (k, a')]\<rparr>))"

text \<open>The accept loops of the reactors \<open>ks\<close>, over the targets of each; \<open>requested\<close> has the port
  each was given. For port 0 the first
  listener is awaited, and the others bind its port.\<close>

fun start_accepts :: "platform \<Rightarrow> start_env \<Rightarrow> bool \<Rightarrow> (nat \<times> nat list) list \<Rightarrow> nat \<Rightarrow> tcp_server \<Rightarrow>
    (exn + nat) option \<times> tcp_server" where
  "start_accepts p env shared [] prt s = (Some (Inr prt), s)"
| "start_accepts p env shared ((k, ts) # ks) prt s =
     (let a = accept_initial ts (admitting s) in
      if spawn_fails env = Some k
      then (Some (Inl Bad_alloc), s\<lparr>accepts := accepts s @ [(k, leave Ended a)], requested := requested s @ [prt]\<rparr>)
      else
        let s1 = s\<lparr>accepts := accepts s @ [(k, a)], requested := requested s @ [prt]\<rparr> in
        if \<not> shared \<and> prt = 0
        then (case await_listener p env shared 0 s1 of
                (Some (Inr _), s2) \<Rightarrow> start_accepts p env shared ks (snd (bound (control (snd (accepts s2 ! 0))))) s2
              | (Some (Inl x), s2) \<Rightarrow> (Some (Inl x), s2)
              | (None, s2) \<Rightarrow> (None, s2))
        else start_accepts p env shared ks prt s1)"

fun await_listeners :: "platform \<Rightarrow> start_env \<Rightarrow> bool \<Rightarrow> nat list \<Rightarrow> tcp_server \<Rightarrow> (exn + unit) option \<times> tcp_server" where
  "await_listeners p env shared [] s = (Some (Inr ()), s)"
| "await_listeners p env shared (i # is) s =
     (case await_listener p env shared i s of
        (Some (Inr _), s1) \<Rightarrow> await_listeners p env shared is s1
      | r \<Rightarrow> r)"

text \<open>\<^verbatim>\<open>start\<close> from the accept loops on, with the threads running.\<close>

definition start_listeners :: "platform \<Rightarrow> start_env \<Rightarrow> bool \<Rightarrow> (nat \<times> nat list) list \<Rightarrow> nat \<Rightarrow> tcp_server \<Rightarrow>
    (exn + unit) option \<times> tcp_server" where
  "start_listeners p env shared ks prt s =
     (case start_accepts p env shared ks prt s of
        (None, s3) \<Rightarrow> (None, s3)
      | (Some (Inl x), s3) \<Rightarrow> (Some (Inl x), s3)
      | (Some (Inr _), s3) \<Rightarrow>
          (case await_listeners p env shared [0..<length (accepts s3)] s3 of
             (Some (Inr _), s4) \<Rightarrow> (Some (Inr ()), s4\<lparr>port := snd (bound (control (snd (accepts s4 ! 0))))\<rparr>)
           | r \<Rightarrow> r))"

text \<open>The body of the \<^verbatim>\<open>try\<close> of \<^verbatim>\<open>start\<close>.\<close>

definition start_body :: "platform \<Rightarrow> start_env \<Rightarrow> nat \<Rightarrow> tcp_server \<Rightarrow> (exn + unit) option \<times> tcp_server" where
  "start_body p env prt s =
     (let ks = [0..<n_reactors s]; shared = (\<not> bo_reuse_port (bind s) \<and> n_reactors s > 1) in
      case start_guards env ks s of
        (Inl x, s1) \<Rightarrow> (Some (Inl x), s1)
      | (Inr _, s1) \<Rightarrow>
          (case start_threads env ks s1 of
             (Inl x, s2) \<Rightarrow> (Some (Inl x), s2)
           | (Inr _, s2) \<Rightarrow>
               start_listeners p env shared (if shared then [(0, ks)] else map (\<lambda>k. (k, [k])) ks) prt s2))"

text \<open>\<^verbatim>\<open>start\<close>: after an exception the accept loops are asked to stop, what is queued on the loops
  without a thread is drained (their accept loops end at once), and the server is stopped.\<close>

definition fail_accepts :: "platform \<Rightarrow> tcp_server \<Rightarrow> tcp_server" where
  "fail_accepts p s = s\<lparr>accepts := map (\<lambda>(k, a).
     (k, let a1 = accept_step p Set_stopping a in
         if k \<in> set (threads s) \<or> finished (control a1) then a1 else stop_accept p a1)) (accepts s)\<rparr>"

definition start :: "platform \<Rightarrow> start_env \<Rightarrow> int option list \<Rightarrow> int option list \<Rightarrow> nat \<Rightarrow> tcp_server \<Rightarrow>
    ((exn + unit) \<times> tcp_server) option" where
  "start p env ends ends' prt s =
     (if started s \<or> stopped s then Some (Inl (Logic_error ''TCP server cannot be restarted''), s)
      else
        case start_body p env prt (s\<lparr>started := True\<rparr>) of
          (None, _) \<Rightarrow> None
        | (Some (Inr _), s') \<Rightarrow> Some (Inr (), s')
        | (Some (Inl x), s') \<Rightarrow> map_option (\<lambda>s''. (Inl x, s'')) (stop p ends ends' (fail_accepts p s')))"

text \<open>The public calls, in any order, and between them the steps of the accept loops and the ticks of the
  lag probes, each on its thread, and the activity noted on a probe, by any. The accept loops share
  the admission of the server.\<close>

datatype tcp_call =
    Set_bind_options bind_options
  | Set_connection_limit size_t
  | Set_shutdown_grace int
  | Enable_lag_probe
  | Start start_env "int option list" "int option list" nat
  | Accept_loop nat accept_op
  | Probe_tick nat bool int int
  | Probe_activity nat
  | Stop "int option list" "int option list"
  | Close "int option list" "int option list"
  | Destroy_roots "int option list" "int option list"

definition accept_loop_step :: "platform \<Rightarrow> nat \<Rightarrow> accept_op \<Rightarrow> tcp_server \<Rightarrow> tcp_server" where
  "accept_loop_step p i x s =
     (if i < length (accepts s) then
        (case accepts s ! i of (k, a) \<Rightarrow>
           if k \<in> set (threads s)
           then let a' = accept_step p x (a\<lparr>bounded_by := admitting s\<rparr>)
                in s\<lparr>accepts := (accepts s)[i := (k, a')], admitting := bounded_by a'\<rparr>
           else s)
      else s)"

definition probe_step :: "nat \<Rightarrow> lag_op \<Rightarrow> tcp_server \<Rightarrow> tcp_server" where
  "probe_step k x s =
     (if k < length (probes s) then s\<lparr>probes := (probes s)[k := lag_step x (probes s ! k)]\<rparr> else s)"

fun tcp_step :: "platform \<Rightarrow> tcp_call \<Rightarrow> tcp_server \<Rightarrow> tcp_server option" where
  "tcp_step p (Set_bind_options b) s = Some (set_bind_options b s)"
| "tcp_step p (Set_connection_limit m) s = Some (snd (set_connection_limit m s))"
| "tcp_step p (Set_shutdown_grace g) s = Some (set_shutdown_grace g s)"
| "tcp_step p Enable_lag_probe s = Some (snd (enable_lag_probe s))"
| "tcp_step p (Start env ends ends' prt) s = map_option snd (start p env ends ends' prt s)"
| "tcp_step p (Accept_loop i x) s = Some (accept_loop_step p i x s)"
| "tcp_step p (Probe_tick k error now now') s =
     Some (if k \<in> set (threads s) then probe_step k (Tick error now now') s else s)"
| "tcp_step p (Probe_activity k) s = Some (probe_step k Note_activity s)"
| "tcp_step p (Stop ends ends') s = stop p ends ends' s"
| "tcp_step p (Close ends ends') s = close p ends ends' s"
| "tcp_step p (Destroy_roots ends ends') s = destroy_roots p ends ends' s"

fun tcp_calls :: "platform \<Rightarrow> tcp_call list \<Rightarrow> tcp_server \<Rightarrow> tcp_server option" where
  "tcp_calls p [] s = Some s"
| "tcp_calls p (x # xs) s = Option.bind (tcp_step p x s) (tcp_calls p xs)"

section \<open>Invariants\<close>

text \<open>A loop is claimed while its thread runs; an accept loop that has not finished has a thread
  to run it.\<close>

definition base_inv :: "tcp_server \<Rightarrow> bool" where
  "base_inv s \<longleftrightarrow> 0 < n_reactors s \<and> length (claims s) = n_reactors s
     \<and> distinct (threads s) \<and> set (threads s) \<subseteq> {..<n_reactors s}
     \<and> (\<forall>k < n_reactors s. claims s ! k = (if k \<in> set (threads s) then 1 else 0))
     \<and> (\<forall>(k, a) \<in> set (accepts s). accept_inv a \<and> (finished (control a) \<or> k \<in> set (threads s)))"

lemma base_inv_frame [simp]:
  "base_inv (s\<lparr>port := x\<rparr>) = base_inv s" "base_inv (s\<lparr>started := b\<rparr>) = base_inv s"
  "base_inv (s\<lparr>bind := o'\<rparr>) = base_inv s" "base_inv (s\<lparr>grace := g\<rparr>) = base_inv s"
  "base_inv (s\<lparr>admitting := m\<rparr>) = base_inv s" "base_inv (s\<lparr>lag_probe := b\<rparr>) = base_inv s"
  "base_inv (s\<lparr>closed := bs\<rparr>) = base_inv s" "base_inv (s\<lparr>destroyed := bs\<rparr>) = base_inv s"
  by (simp_all add: base_inv_def)

lemma probe_step_fields [simp]:
  "n_reactors (probe_step k x s) = n_reactors s" "started (probe_step k x s) = started s"
  "stopped (probe_step k x s) = stopped s" "port (probe_step k x s) = port s" "claims (probe_step k x s) = claims s"
  "threads (probe_step k x s) = threads s" "guards (probe_step k x s) = guards s" "accepts (probe_step k x s) = accepts s"
  "requested (probe_step k x s) = requested s" "aborted (probe_step k x s) = aborted s"
  "io_stopped (probe_step k x s) = io_stopped s" "closed (probe_step k x s) = closed s"
  "destroyed (probe_step k x s) = destroyed s" "admitting (probe_step k x s) = admitting s"
  "bind (probe_step k x s) = bind s" "grace (probe_step k x s) = grace s" "lag_probe (probe_step k x s) = lag_probe s"
  by (simp_all add: probe_step_def)

lemma stop_accept_finishes:
  assumes "accept_inv a" and "\<not> finished (control a)"
  shows "finished (control (stop_accept p a))"
  using assms
  by (cases "pc a") (auto simp: stop_accept_def accept_run_def stop_on_owner_def accept_inv_def accept_setup_def
      accept_head_def accept_retry_def retry_stopping retry_after_def leave_def Let_def)

lemma release_claims:
  assumes "distinct ks" and "set ks \<subseteq> {..<length cs}" and "k < length cs"
  shows "fold release ks cs ! k = (if k \<in> set ks then cs ! k - 1 else cs ! k)"
    and "length (fold release ks cs) = length cs"
  using assms by (induction ks arbitrary: cs) (auto simp: release_def nth_list_update)

lemma stop_ok:
  assumes inv: "base_inv s" and run: "\<not> stopped s"
  shows "\<exists>s'. stop p ends ends' s = Some s' \<and> base_inv s' \<and> stopped s' \<and> threads s' = [] \<and> accepts s' = []
    \<and> guards s' = 0 \<and> (\<forall>k < n_reactors s'. claims s' ! k = 0) \<and> n_reactors s' = n_reactors s
    \<and> aborted s' = replicate (n_reactors s) True \<and> io_stopped s' = replicate (n_reactors s) True
    \<and> closed s' = closed s \<and> destroyed s' = destroyed s \<and> started s' = started s
    \<and> waited s' = snd (session_stage ends ends' (grace s) 0) \<and> port s' = port s"
proof -
  let ?s = "s\<lparr>stopped := True\<rparr>"
  have c1: "can_abort ?s"
    using inv by (simp add: can_abort_def base_inv_def)
  have c2: "can_wait (?s\<lparr>aborted := bs\<rparr>)" for bs
    using inv by (auto simp: can_wait_def base_inv_def)
  have fin: "finished (control (if finished (control a) then a else stop_accept p a))" if "(k, a) \<in> set (accepts s)" for k a
    using inv that stop_accept_finishes [of a p] by (auto simp: base_inv_def)
  have c3: "\<not> (\<exists>(k, a) \<in> set (map (\<lambda>(k, a). (k, if finished (control a) then a else stop_accept p a)) (accepts s)).
      \<not> finished (control a))"
    using fin by fastforce
  have rel: "length (fold release (threads s) (claims s)) = n_reactors s"
    "k < n_reactors s \<Longrightarrow> fold release (threads s) (claims s) ! k = 0" for k
    using inv release_claims [of "threads s" "claims s"] by (auto simp: base_inv_def)
  show ?thesis
    using inv run c1 c2 c3 rel unfolding stop_def Let_def
    by (simp add: base_inv_def split del: if_split cong: if_cong) (simp split: if_split)
qed

text \<open>What \<^verbatim>\<open>start\<close> leaves alone.\<close>

definition static :: "tcp_server \<Rightarrow> nat \<times> bool \<times> bool \<times> bool list \<times> bool list \<times> ca_state option" where
  "static s = (n_reactors s, started s, stopped s, closed s, destroyed s, admitting s)"

lemma start_guards_frame:
  "start_guards env ks s = (r, s') \<Longrightarrow>
     static s' = static s \<and> claims s' = claims s \<and> threads s' = threads s \<and> accepts s' = accepts s"
proof (induction ks arbitrary: s)
  case (Cons k ks)
  show ?case
  proof (cases "guard_fails env = Some k")
    case False
    then show ?thesis using Cons.prems Cons.IH by (fastforce simp: static_def)
  qed (use Cons.prems in auto)
qed auto

lemma claim_thread:
  assumes "base_inv s" and "k < n_reactors s" and "k \<notin> set (threads s)"
  shows "base_inv (s\<lparr>claims := claim k (claims s), threads := threads s @ [k]\<rparr>)"
    and "release k (claim k (claims s)) = claims s"
proof -
  show "base_inv (s\<lparr>claims := claim k (claims s), threads := threads s @ [k]\<rparr>)"
    using assms by (auto simp: base_inv_def claim_def nth_list_update)
  show "release k (claim k (claims s)) = claims s"
    using assms by (simp add: base_inv_def claim_def release_def list_update_same_conv)
qed

lemma start_threads_ok:
  assumes "start_threads env ks s = (r, s')" and "base_inv s" and "distinct ks"
    and "set ks \<subseteq> {..<n_reactors s}" and "set ks \<inter> set (threads s) = {}"
  shows "base_inv s' \<and> static s' = static s \<and> accepts s' = accepts s
    \<and> (r = Inr () \<longrightarrow> threads s' = threads s @ ks)"
  using assms
proof (induction ks arbitrary: s)
  case Nil
  then show ?case by auto
next
  case (Cons k ks)
  let ?s = "s\<lparr>claims := claim k (claims s), threads := threads s @ [k]\<rparr>"
  have k: "k < n_reactors s" "k \<notin> set (threads s)" using Cons.prems by auto
  note c = claim_thread [OF Cons.prems(2) k]
  show ?case
  proof (cases "thread_fails env = Some k")
    case True
    then show ?thesis using Cons.prems c(2) by (auto simp: Let_def static_def)
  next
    case False
    then have "start_threads env ks ?s = (r, s')"
      using Cons.prems(1) by (simp add: Let_def)
    from Cons.IH [OF this c(1)] show ?thesis
      using Cons.prems k by (auto simp: static_def)
  qed
qed

text \<open>A listener whose loop runs has an answer, and keeps its state consistent.\<close>

lemma do_setup_done:
  assumes "accept_inv a" and a'_def: "a' = accept_step p (Do_setup shared b fails bound_to) a"
  shows "accept_inv a'" and "wait_listening (control a') = Some (Inr ()) \<longleftrightarrow> ready (control a')"
    and "\<exists>r. wait_listening (control a') = Some r" and "finished (control a) \<Longrightarrow> finished (control a')"
    and "ready (control a) \<Longrightarrow> ready (control a')"
proof -
  show inv: "accept_inv a'" unfolding a'_def by (rule accept_step_inv [OF assms(1)])
  have "pc a' \<noteq> Setup"
    by (auto simp: a'_def accept_setup_def leave_def split: option.splits)
  then show "\<exists>r. wait_listening (control a') = Some r"
    using inv by (cases "pc a'") (auto simp: accept_inv_def wait_listening_def)
  show "wait_listening (control a') = Some (Inr ()) \<longleftrightarrow> ready (control a')"
    by (simp add: wait_listening_def)
  show "finished (control a) \<Longrightarrow> finished (control a')" "ready (control a) \<Longrightarrow> ready (control a')"
    using assms(1) by (auto simp: a'_def accept_setup_def accept_inv_def leave_def listening_def split: option.splits)
qed

definition all_running :: "tcp_server \<Rightarrow> bool" where
  "all_running s \<longleftrightarrow> {..<n_reactors s} \<subseteq> set (threads s)"

lemma await_listener_ok:
  assumes "await_listener p env shared i s = (r, s')" and inv: "base_inv s" and run: "all_running s"
    and i: "i < length (accepts s)" and ks: "\<forall>(k, a) \<in> set (accepts s). k < n_reactors s"
  shows "base_inv s'" and "static s' = static s" and "threads s' = threads s"
    and "length (accepts s') = length (accepts s)" and "r \<noteq> None"
    and "\<forall>(k, a) \<in> set (accepts s'). k < n_reactors s"
    and "r = Some (Inr ()) \<longleftrightarrow> ready (control (snd (accepts s' ! i)))"
    and "j < length (accepts s) \<Longrightarrow> ready (control (snd (accepts s ! j))) \<Longrightarrow> ready (control (snd (accepts s' ! j)))"
proof -
  obtain k a where ka: "accepts s ! i = (k, a)" by (cases "accepts s ! i")
  have mem: "(k, a) \<in> set (accepts s)" using i ka nth_mem by fastforce
  then have k: "k \<in> set (threads s)" and a: "accept_inv a"
    using run ks inv by (auto simp: all_running_def base_inv_def)
  define a' where "a' = accept_step p (Do_setup shared (bind s) (setup_fails env i) (bound_ports env i (requested s ! i))) a"
  note d = do_setup_done [OF a a'_def]
  have r: "r = wait_listening (control a')" and s': "s' = s\<lparr>accepts := (accepts s)[i := (k, a')]\<rparr>"
    using assms(1) ka k by (auto simp: await_listener_def Let_def a'_def)
  have sub: "set (accepts s') \<subseteq> insert (k, a') (set (accepts s))"
    unfolding s' by (simp add: set_update_subset_insert)
  show "base_inv s'"
    using inv d(1) k sub unfolding base_inv_def s' by (simp, blast)
  show "\<forall>(k, a) \<in> set (accepts s'). k < n_reactors s"
    using ks mem sub by auto
  show "static s' = static s" "threads s' = threads s" "length (accepts s') = length (accepts s)" "r \<noteq> None"
    using d(3) by (auto simp: s' r static_def)
  show "r = Some (Inr ()) \<longleftrightarrow> ready (control (snd (accepts s' ! i)))"
    using d(2) i by (simp add: s' r)
  show "j < length (accepts s) \<Longrightarrow> ready (control (snd (accepts s ! j))) \<Longrightarrow> ready (control (snd (accepts s' ! j)))"
    using d(5) ka by (cases "j = i") (auto simp: s')
qed

lemma await_listeners_ok:
  assumes "await_listeners p env shared is s = (r, s')" and "base_inv s" and "all_running s"
    and "\<forall>i \<in> set is. i < length (accepts s)" and "\<forall>(k, a) \<in> set (accepts s). k < n_reactors s"
  shows "base_inv s' \<and> static s' = static s \<and> threads s' = threads s
    \<and> length (accepts s') = length (accepts s) \<and> r \<noteq> None
    \<and> (\<forall>j < length (accepts s). ready (control (snd (accepts s ! j))) \<longrightarrow> ready (control (snd (accepts s' ! j))))
    \<and> (r = Some (Inr ()) \<longrightarrow> (\<forall>i \<in> set is. ready (control (snd (accepts s' ! i)))))"
  using assms
proof (induction "is" arbitrary: s)
  case Nil
  then show ?case by auto
next
  case (Cons i "is")
  obtain q s1 where 1: "await_listener p env shared i s = (q, s1)"
    by (cases "await_listener p env shared i s")
  have i: "i < length (accepts s)" using Cons.prems(4) by simp
  note w = await_listener_ok [OF 1 Cons.prems(2,3) i Cons.prems(5)]
  show ?case
  proof (cases "q = Some (Inr ())")
    case True
    then have rest: "await_listeners p env shared is s1 = (r, s')"
      using Cons.prems(1) 1 by simp
    have "all_running s1" "\<forall>j \<in> set is. j < length (accepts s1)" "\<forall>(k, a) \<in> set (accepts s1). k < n_reactors s1"
      using Cons.prems(3,4) w(2,3,4,6) by (auto simp: all_running_def static_def)
    from Cons.IH [OF rest w(1) this] show ?thesis
      using w True i by (auto simp: static_def)
  next
    case False
    then have "r = q" "s' = s1"
      using Cons.prems(1) 1 w(5) by (auto split: option.splits sum.splits)
    then show ?thesis using w False by auto
  qed
qed

lemma add_accept_inv:
  assumes "base_inv s" and "all_running s" and "k < n_reactors s" and "accept_inv a"
  shows "base_inv (s\<lparr>accepts := accepts s @ [(k, a)], requested := qs\<rparr>)"
  using assms by (auto simp: base_inv_def all_running_def)

lemma initial_accept_inv: "accept_inv (accept_initial ts adm)" "accept_inv (leave Ended (accept_initial ts adm))"
  by (simp_all add: accept_inv_def leave_def accept_initial_def accept_control_initial_def)

lemma start_accepts_ok:
  assumes "start_accepts p env shared ks prt s = (r, s')" and "base_inv s" and "all_running s"
    and "\<forall>(k, ts) \<in> set ks. k < n_reactors s" and "\<forall>(k, a) \<in> set (accepts s). k < n_reactors s"
  shows "base_inv s' \<and> static s' = static s \<and> threads s' = threads s \<and> r \<noteq> None
    \<and> (\<forall>(k, a) \<in> set (accepts s'). k < n_reactors s)
    \<and> ((\<exists>q. r = Some (Inr q)) \<longrightarrow> length (accepts s') = length (accepts s) + length ks)"
  using assms
proof (induction p env shared ks prt s rule: start_accepts.induct)
  case (1 p env shared prt s)
  then show ?case by auto
next
  case (2 p env shared k ts ks prt s)
  let ?a = "accept_initial ts (admitting s)"
  let ?s1 = "s\<lparr>accepts := accepts s @ [(k, ?a)], requested := requested s @ [prt]\<rparr>"
  have k: "k < n_reactors s" using "2.prems"(4) by simp
  have i1: "base_inv ?s1" and run: "all_running ?s1"
    using add_accept_inv [OF "2.prems"(2,3) k initial_accept_inv(1)] "2.prems"(3) by (simp_all add: all_running_def)
  have ks: "\<forall>(k, a) \<in> set (accepts ?s1). k < n_reactors ?s1" "\<forall>(k, ts) \<in> set ks. k < n_reactors ?s1"
    using "2.prems"(4,5) k by auto
  show ?case
  proof (cases "spawn_fails env = Some k")
    case True
    then show ?thesis
      using "2.prems" add_accept_inv [OF "2.prems"(2,3) k initial_accept_inv(2)] k
      by (auto simp: Let_def static_def)
  next
    case spawned: False
    show ?thesis
    proof (cases "\<not> shared \<and> prt = 0")
      case True
      obtain q s2 where w: "await_listener p env shared 0 ?s1 = (q, s2)"
        by (cases "await_listener p env shared 0 ?s1")
      have "0 < length (accepts ?s1)" by simp
      note ok = await_listener_ok [OF w i1 run this ks(1)]
      have run2: "all_running s2" and ks2: "\<forall>(k, ts) \<in> set ks. k < n_reactors s2" "\<forall>(k, a) \<in> set (accepts s2). k < n_reactors s2"
        using run ks ok(2,3,6) by (auto simp: all_running_def static_def)
      show ?thesis
      proof (cases "\<exists>u. q = Some (Inr u)")
        case True
        then obtain u where q: "q = Some (Inr u)" by blast
        then have "start_accepts p env shared ks (snd (bound (control (snd (accepts s2 ! 0))))) s2 = (r, s')"
          using "2.prems"(1) spawned \<open>\<not> shared \<and> prt = 0\<close> w by (simp add: Let_def)
        from "2.IH"(1) [OF refl spawned refl \<open>\<not> shared \<and> prt = 0\<close> w [symmetric] q refl this ok(1) run2 ks2]
        show ?thesis using ok by (auto simp: static_def)
      next
        case False
        then have "s' = s2" "\<nexists>u. r = Some (Inr u)" "r \<noteq> None"
          using "2.prems"(1) spawned \<open>\<not> shared \<and> prt = 0\<close> w ok(5)
          by (auto simp: Let_def split: option.splits sum.splits)
        then show ?thesis using ok by (auto simp: static_def)
      qed
    next
      case False
      then have "start_accepts p env shared ks prt ?s1 = (r, s')"
        using "2.prems"(1) spawned by (auto simp: Let_def)
      from "2.IH"(2) [OF refl spawned refl False this i1 run ks(2,1)] show ?thesis
        by (auto simp: static_def)
    qed
  qed
qed

definition serving :: "tcp_server \<Rightarrow> bool" where
  "serving s \<longleftrightarrow> threads s = [0..<n_reactors s] \<and> accepts s \<noteq> [] \<and> (\<forall>(k, a) \<in> set (accepts s). ready (control a))
     \<and> port s = snd (bound (control (snd (accepts s ! 0))))"

lemma all_ready:
  "(\<forall>i < length as. ready (control (snd (as ! i)))) \<longleftrightarrow> (\<forall>(k, a) \<in> set as. ready (control a))"
  by (auto simp: all_set_conv_all_nth case_prod_beta)

lemma start_listeners_ok:
  assumes st: "start_listeners p env shared ks prt s = (r, s')" and inv: "base_inv s"
    and thr: "threads s = [0..<n_reactors s]" and none: "accepts s = []"
    and ks: "\<forall>(k, ts) \<in> set ks. k < n_reactors s" "ks \<noteq> []"
  shows "r \<noteq> None \<and> base_inv s' \<and> static s' = static s \<and> (r = Some (Inr ()) \<longrightarrow> serving s')"
proof -
  obtain q3 s3 where 3: "start_accepts p env shared ks prt s = (q3, s3)" by (cases "start_accepts p env shared ks prt s")
  obtain q4 s4 where 4: "await_listeners p env shared [0..<length (accepts s3)] s3 = (q4, s4)"
    by (cases "await_listeners p env shared [0..<length (accepts s3)] s3")
  have run: "all_running s" using thr by (auto simp: all_running_def)
  note a = start_accepts_ok [OF 3 inv run ks(1), unfolded none, simplified]
  show ?thesis
  proof (cases "\<exists>u. q3 = Some (Inr u)")
    case False
    moreover obtain v where "q3 = Some v" using a by auto
    ultimately obtain x where "q3 = Some (Inl x)" by (cases v) auto
    then have "r = Some (Inl x) \<and> s' = s3"
      using st 3 by (simp add: start_listeners_def)
    then show ?thesis using a by simp
  next
    case ok3: True
    then obtain u where u: "q3 = Some (Inr u)" by blast
    have run3: "all_running s3" using run a by (auto simp: all_running_def static_def)
    have "\<forall>i \<in> set [0..<length (accepts s3)]. i < length (accepts s3)" "\<forall>(k, a) \<in> set (accepts s3). k < n_reactors s3"
      using a by (auto simp: static_def)
    note w = await_listeners_ok [OF 4 conjunct1 [OF a] run3 this]
    have len: "accepts s4 \<noteq> []" using w a ok3 ks(2) by auto
    show ?thesis
    proof (cases "q4 = Some (Inr ())")
      case True
      then have s': "s' = s4\<lparr>port := snd (bound (control (snd (accepts s4 ! 0))))\<rparr>" "r = Some (Inr ())"
        using st 3 4 u by (simp_all add: start_listeners_def)
      moreover have "\<forall>(k, a) \<in> set (accepts s4). ready (control a)"
        using w True all_ready [of "accepts s4"] by auto
      moreover have "base_inv s'" using w by (simp add: s')
      moreover have "static s' = static s" "threads s' = [0..<n_reactors s']" "accepts s' = accepts s4"
        using w a thr by (simp_all add: s' static_def)
      ultimately show ?thesis
        using len by (simp add: serving_def)
    next
      case False
      moreover obtain v where v: "q4 = Some v" using w by auto
      ultimately obtain x where "q4 = Some (Inl x)" by (cases v) auto
      then have "r = Some (Inl x) \<and> s' = s4"
        using st 3 4 u by (simp add: start_listeners_def)
      then show ?thesis using w a by simp
    qed
  qed
qed

lemma start_body_ok:
  assumes body: "start_body p env prt s = (r, s')" and inv: "base_inv s" and idle: "threads s = []" "accepts s = []"
  shows "r \<noteq> None \<and> base_inv s' \<and> static s' = static s \<and> (r = Some (Inr ()) \<longrightarrow> serving s')"
proof -
  let ?ks = "[0..<n_reactors s]" and ?sh = "\<not> bo_reuse_port (bind s) \<and> n_reactors s > 1"
  let ?as = "if ?sh then [(0, ?ks)] else map (\<lambda>k. (k, [k])) ?ks"
  obtain q1 s1 where 1: "start_guards env ?ks s = (q1, s1)" by (cases "start_guards env ?ks s")
  obtain q2 s2 where 2: "start_threads env ?ks s1 = (q2, s2)" by (cases "start_threads env ?ks s1")
  note g = start_guards_frame [OF 1]
  have b1: "base_inv s1" and n1: "n_reactors s1 = n_reactors s"
    using inv g by (simp_all add: base_inv_def static_def)
  have t: "base_inv s2 \<and> static s2 = static s \<and> accepts s2 = [] \<and> (q2 = Inr () \<longrightarrow> threads s2 = ?ks)"
    using start_threads_ok [OF 2 b1] g idle n1 by (auto simp: atLeast0LessThan)
  have n2: "n_reactors s2 = n_reactors s" using t by (simp add: static_def)
  have pos: "0 < n_reactors s" using inv by (simp add: base_inv_def)
  show ?thesis
  proof (cases "q1 = Inr () \<and> q2 = Inr ()")
    case False
    then consider x where "q1 = Inl x" | x where "q1 = Inr ()" "q2 = Inl x"
      by (cases q1; cases q2) auto
    then show ?thesis
      using body 1 2 g b1 t by cases (auto simp: start_body_def Let_def)
  next
    case True
    then have "start_listeners p env ?sh ?as prt s2 = (r, s')"
      using body 1 2 by (simp add: start_body_def Let_def)
    moreover have "\<forall>(k, ts) \<in> set ?as. k < n_reactors s2" "?as \<noteq> []"
      using pos n2 by auto
    ultimately show ?thesis
      using start_listeners_ok [of p env ?sh ?as prt s2 r s'] t n2 True by auto
  qed
qed

lemma stop_accept_inv: "accept_inv a \<Longrightarrow> accept_inv (stop_accept p a)"
  unfolding stop_accept_def Let_def by (intro accept_run_inv accept_step_inv)

lemma fail_accepts_ok:
  assumes "base_inv s"
  shows "base_inv (fail_accepts p s) \<and> static (fail_accepts p s) = static s"
proof -
  have set_stopping: "accept_inv (accept_step p Set_stopping a) \<and>
      finished (control (accept_step p Set_stopping a)) = finished (control a)" if "accept_inv a" for a
    using accept_step_inv [OF that, of p Set_stopping] by simp
  have "accept_inv a' \<and> (finished (control a') \<or> k \<in> set (threads s))"
    if mem: "(k, a') \<in> set (accepts (fail_accepts p s))" for k a'
  proof -
    obtain a where a: "(k, a) \<in> set (accepts s)" and a': "a' = (let a1 = accept_step p Set_stopping a in
        if k \<in> set (threads s) \<or> finished (control a1) then a1 else stop_accept p a1)"
      using mem unfolding fail_accepts_def by (auto simp del: accept_step.simps simp: Let_def)
    have "accept_inv a" using assms a by (auto simp: base_inv_def)
    from set_stopping [OF this] show ?thesis
      using stop_accept_inv [of "accept_step p Set_stopping a" p] stop_accept_finishes [of "accept_step p Set_stopping a" p]
      unfolding a' by (auto simp: Let_def simp del: accept_step.simps)
  qed
  moreover have "static (fail_accepts p s) = static s" "n_reactors (fail_accepts p s) = n_reactors s"
    "claims (fail_accepts p s) = claims s" "threads (fail_accepts p s) = threads s"
    by (simp_all add: static_def fail_accepts_def)
  ultimately show ?thesis using assms unfolding base_inv_def by auto
qed

definition stopped_clean :: "tcp_server \<Rightarrow> bool" where
  "stopped_clean s \<longleftrightarrow> threads s = [] \<and> accepts s = [] \<and> guards s = 0
     \<and> aborted s = replicate (n_reactors s) True \<and> io_stopped s = replicate (n_reactors s) True"

definition tcp_inv :: "tcp_server \<Rightarrow> bool" where
  "tcp_inv s \<longleftrightarrow> base_inv s \<and> length (closed s) = n_reactors s \<and> length (destroyed s) = n_reactors s
     \<and> (if stopped s then stopped_clean s
        else (\<forall>k < n_reactors s. \<not> closed s ! k) \<and> (if started s then serving s else threads s = [] \<and> accepts s = [] \<and> requested s = []))
     \<and> (\<forall>k < n_reactors s. destroyed s ! k \<longrightarrow> closed s ! k)"

lemma TcpServer_inv: "tcp_inv (TcpServer k m)"
  by (simp add: tcp_inv_def base_inv_def TcpServer_def Let_def)

lemma stop_inv:
  assumes "tcp_inv s"
  shows "\<exists>s'. stop p ends ends' s = Some s' \<and> tcp_inv s' \<and> stopped s' \<and> n_reactors s' = n_reactors s
    \<and> closed s' = closed s \<and> destroyed s' = destroyed s"
proof (cases "stopped s")
  case True
  then show ?thesis using assms by (simp add: stop_def)
next
  case False
  have "base_inv s" using assms by (simp add: tcp_inv_def)
  from stop_ok [OF this False, of p ends ends'] obtain s' where "stop p ends ends' s = Some s'" "base_inv s'" "stopped s'"
    "stopped_clean s'" "n_reactors s' = n_reactors s" "closed s' = closed s" "destroyed s' = destroyed s"
    by (auto simp: stopped_clean_def)
  then show ?thesis using assms False by (auto simp: tcp_inv_def)
qed

lemma start_inv:
  assumes inv: "tcp_inv s"
  shows "\<exists>r s'. start p env ends ends' prt s = Some (r, s') \<and> tcp_inv s' \<and> n_reactors s' = n_reactors s
    \<and> (if started s \<or> stopped s then r = Inl (Logic_error ''TCP server cannot be restarted'') \<and> s' = s
       else started s' \<and> (case r of Inr _ \<Rightarrow> \<not> stopped s' | Inl _ \<Rightarrow> stopped s'))"
proof (cases "started s \<or> stopped s")
  case True
  then show ?thesis using inv by (simp add: start_def)
next
  case False
  obtain r s1 where body: "start_body p env prt (s\<lparr>started := True\<rparr>) = (r, s1)"
    by (cases "start_body p env prt (s\<lparr>started := True\<rparr>)")
  have "base_inv (s\<lparr>started := True\<rparr>)" "threads (s\<lparr>started := True\<rparr>) = []" "accepts (s\<lparr>started := True\<rparr>) = []"
    using inv False by (simp_all add: tcp_inv_def)
  note ok = start_body_ok [OF body this]
  have st: "n_reactors s1 = n_reactors s" "started s1" "\<not> stopped s1" "closed s1 = closed s" "destroyed s1 = destroyed s"
    using ok False by (auto simp: static_def)
  obtain q where "r = Some q" using ok by (cases r) auto
  then consider "r = Some (Inr ())" | x where "r = Some (Inl x)" by (cases q) auto
  then show ?thesis
  proof cases
    case 1
    then have "start p env ends ends' prt s = Some (Inr (), s1)" using body False by (simp add: start_def)
    moreover have "tcp_inv s1" using ok st inv False 1 by (auto simp: tcp_inv_def)
    ultimately show ?thesis using st False by simp
  next
    case (2 x)
    let ?s = "fail_accepts p s1"
    have f: "base_inv ?s" "n_reactors ?s = n_reactors s" "started ?s" "\<not> stopped ?s" "closed ?s = closed s"
      "destroyed ?s = destroyed s"
      using fail_accepts_ok [of s1 p] ok st by (simp_all add: static_def)
    obtain s' where s': "stop p ends ends' ?s = Some s'" "base_inv s'" "stopped s'" "stopped_clean s'"
      "n_reactors s' = n_reactors s" "closed s' = closed s" "destroyed s' = destroyed s" "started s'"
      using stop_ok [OF f(1,4), of p ends ends'] f by (auto simp: stopped_clean_def)
    then have "start p env ends ends' prt s = Some (Inl x, s')" using body 2 False by (simp add: start_def)
    moreover have "tcp_inv s'" using s' inv False by (auto simp: tcp_inv_def)
    ultimately show ?thesis using s' False by simp
  qed
qed

lemma close_inv:
  assumes "tcp_inv s"
  shows "\<exists>s'. close p ends ends' s = Some s' \<and> tcp_inv s' \<and> stopped s' \<and> n_reactors s' = n_reactors s
    \<and> closed s' = replicate (n_reactors s') True"
proof -
  obtain s1 where s1: "stop p ends ends' s = Some s1" "tcp_inv s1" "stopped s1" "n_reactors s1 = n_reactors s"
    using stop_inv [OF assms] by blast
  then show ?thesis by (simp add: close_def tcp_inv_def stopped_clean_def)
qed

lemma destroy_roots_inv:
  assumes "tcp_inv s"
  shows "\<exists>s'. destroy_roots p ends ends' s = Some s' \<and> tcp_inv s' \<and> stopped s' \<and> n_reactors s' = n_reactors s
    \<and> destroyed s' = replicate (n_reactors s') True"
proof -
  obtain s1 where s1: "close p ends ends' s = Some s1" "tcp_inv s1" "stopped s1" "n_reactors s1 = n_reactors s"
    "closed s1 = replicate (n_reactors s1) True"
    using close_inv [OF assms] by blast
  then show ?thesis by (simp add: destroy_roots_def tcp_inv_def stopped_clean_def)
qed

lemma serving_frame [simp]:
  "serving (s\<lparr>bind := o'\<rparr>) = serving s" "serving (s\<lparr>grace := g\<rparr>) = serving s"
  by (simp_all add: serving_def)

lemma configure_inv:
  assumes "tcp_inv s"
  shows "tcp_inv (set_bind_options b s)" "tcp_inv (snd (set_connection_limit m s))"
    "tcp_inv (set_shutdown_grace g s)" "tcp_inv (snd (enable_lag_probe s))"
  using assms by (auto simp: tcp_inv_def stopped_clean_def set_bind_options_def set_connection_limit_def
      set_shutdown_grace_def enable_lag_probe_def)

lemma accept_step_bound:
  assumes "accept_inv a" and "ready (control a)"
  shows "ready (control (accept_step p x a)) \<and> bound (control (accept_step p x a)) = bound (control a)"
proof -
  have retry: "ready (control (accept_retry p local e a')) = ready (control a')
      \<and> bound (control (accept_retry p local e a')) = bound (control a')" for local e a'
    by (auto simp: accept_retry_def retry_def leave_def finish_def Let_def split: if_splits bool.splits option.splits)
  have "pc a \<noteq> Setup" using assms by (auto simp: accept_inv_def)
  then show ?thesis
    using assms retry by (cases x; cases "pc a")
      (auto simp: accept_head_def accept_connection_def accept_launch_def leave_def finish_def Let_def)
qed

lemma accept_inv_admission [simp]: "accept_inv (a\<lparr>bounded_by := b\<rparr>) = accept_inv a"
  by (cases "pc a") (simp_all add: accept_inv_def)

text \<open>The step of an accept loop, and the connections each loop has live.\<close>

lemma accept_loop_stepE:
  assumes "tcp_inv s"
  obtains "accept_loop_step p i x s = s"
  | k a a' where "i < length (accepts s)" "accepts s ! i = (k, a)" "k \<in> set (threads s)" "started s" "\<not> stopped s" "serving s"
      "accept_inv a" "ready (control a)" "a' = accept_step p x (a\<lparr>bounded_by := admitting s\<rparr>)"
      "accept_loop_step p i x s = s\<lparr>accepts := (accepts s)[i := (k, a')], admitting := bounded_by a'\<rparr>"
proof (cases "i < length (accepts s) \<and> fst (accepts s ! i) \<in> set (threads s)")
  case True
  obtain k a where ka: "accepts s ! i = (k, a)" by (cases "accepts s ! i")
  have mem: "(k, a) \<in> set (accepts s)" using True ka by (metis nth_mem)
  have run: "\<not> stopped s" "started s" using assms True by (auto simp: tcp_inv_def stopped_clean_def split: if_splits)
  then have srv: "serving s" using assms by (simp add: tcp_inv_def)
  have "accept_inv a" "ready (control a)"
    using assms srv mem by (auto simp: tcp_inv_def base_inv_def serving_def)
  then show thesis
    using that(2) True ka run srv by (simp add: accept_loop_step_def Let_def)
next
  case False
  then have "accept_loop_step p i x s = s" by (cases "accepts s ! i") (auto simp: accept_loop_step_def)
  then show thesis by (rule that(1))
qed

lemma accept_loop_step_inv:
  assumes inv: "tcp_inv s"
  shows "tcp_inv (accept_loop_step p i x s)"
  using inv
proof (cases rule: accept_loop_stepE [of s p i x])
  case (2 k a a')
  let ?s = "s\<lparr>accepts := (accepts s)[i := (k, a')], admitting := bounded_by a'\<rparr>"
  have "base_inv ?s"
    using inv 2 accept_step_inv [of "a\<lparr>bounded_by := admitting s\<rparr>" p x]
    by (auto simp: tcp_inv_def base_inv_def dest!: set_update_subset_insert [THEN subsetD])
  moreover have "serving ?s"
    using 2 accept_step_bound [of "a\<lparr>bounded_by := admitting s\<rparr>" p x]
    by (auto simp: serving_def nth_list_update dest!: set_update_subset_insert [THEN subsetD])
  ultimately show ?thesis using inv 2 by (auto simp: tcp_inv_def)
qed (simp add: inv)

lemma probe_step_inv [simp]: "tcp_inv (probe_step k x s) = tcp_inv s"
  by (simp add: tcp_inv_def base_inv_def stopped_clean_def serving_def)

lemma tcp_step_ok:
  assumes "tcp_inv s"
  shows "\<exists>s'. tcp_step p x s = Some s' \<and> tcp_inv s'"
proof (cases x)
  case (Start env ends ends' prt)
  then show ?thesis using start_inv [OF assms, of p env ends ends' prt] by auto
next
  case (Stop ends ends')
  then show ?thesis using stop_inv [OF assms, of p ends ends'] by auto
next
  case (Close ends ends')
  then show ?thesis using close_inv [OF assms, of p ends ends'] by auto
next
  case (Destroy_roots ends ends')
  then show ?thesis using destroy_roots_inv [OF assms, of p ends ends'] by auto
qed (simp_all add: configure_inv [OF assms] accept_loop_step_inv [OF assms] assms)

lemma tcp_calls_ok:
  assumes "tcp_inv s"
  shows "\<exists>s'. tcp_calls p xs s = Some s' \<and> tcp_inv s'"
  using assms
proof (induction xs arbitrary: s)
  case (Cons x xs)
  then obtain s1 where "tcp_step p x s = Some s1" "tcp_inv s1" using tcp_step_ok by blast
  then show ?case using Cons.IH by simp
qed simp

section \<open>One bound for all the loops\<close>

definition connections :: "nat \<times> accept_state \<Rightarrow> nat" where
  "connections ka = length (launched (snd ka)) - over (snd ka)"

definition shared_inv :: "tcp_server \<Rightarrow> bool" where
  "shared_inv s \<longleftrightarrow> (\<forall>(k, a) \<in> set (accepts s). over a \<le> length (launched a))
     \<and> (\<forall>c. admitting s = Some c \<longrightarrow> live c = weight connections (accepts s) \<and> active c \<le> maximum c)"

lemma shared_inv_frame [simp]:
  "shared_inv (s\<lparr>bind := o'\<rparr>) = shared_inv s" "shared_inv (s\<lparr>grace := g\<rparr>) = shared_inv s"
  "shared_inv (s\<lparr>lag_probe := b\<rparr>) = shared_inv s" "shared_inv (probe_step k x s) = shared_inv s"
  by (simp_all add: shared_inv_def)

lemma accept_loop_step_shared:
  assumes inv: "tcp_inv s" and sh: "shared_inv s"
  shows "shared_inv (accept_loop_step p i x s)"
  using inv
proof (cases rule: accept_loop_stepE [of s p i x])
  case (2 k a a')
  obtain n where n: "weight connections (accepts s) = n + connections (accepts s ! i)"
    "\<And>l. weight connections ((accepts s)[i := l]) = n + connections l"
    using weight_split [OF 2(1)] by metis
  have "(k, a) \<in> set (accepts s)" using 2(1,2) by (metis nth_mem)
  then have "held_inv n (a\<lparr>bounded_by := admitting s\<rparr>)"
    using sh n(1) 2(2) by (auto simp: shared_inv_def held_inv_def connections_def)
  then have "held_inv n a'" unfolding 2(9) by (rule accept_step_held)
  then show ?thesis
    using sh 2 n(2) by (auto simp: shared_inv_def held_inv_def connections_def dest!: set_update_subset_insert [THEN subsetD])
qed (simp add: sh)

text \<open>A start launches nothing.\<close>

definition fresh :: "tcp_server \<Rightarrow> bool" where
  "fresh s \<longleftrightarrow> (\<forall>(k, a) \<in> set (accepts s). launched a = [] \<and> over a = 0)"

lemma await_listener_fresh: "await_listener p env shared i s = (r, s') \<Longrightarrow> i < length (accepts s) \<Longrightarrow> fresh s \<Longrightarrow> fresh s'"
proof -
  assume w: "await_listener p env shared i s = (r, s')" and i: "i < length (accepts s)" and f: "fresh s"
  obtain k a where ka: "accepts s ! i = (k, a)" by (cases "accepts s ! i")
  then have "(k, a) \<in> set (accepts s)" using i by (metis nth_mem)
  then have "launched a = [] \<and> over a = 0" using f by (auto simp: fresh_def)
  then have "launched (accept_step p (Do_setup sh b fs e) a) = [] \<and> over (accept_step p (Do_setup sh b fs e) a) = 0" for sh b fs e
    by (auto simp: accept_setup_def leave_def split: option.splits)
  moreover define a' where "a' = (if k \<in> set (threads s)
      then accept_step p (Do_setup shared (bind s) (setup_fails env i) (bound_ports env i (requested s ! i))) a else a)"
  ultimately have "launched a' = [] \<and> over a' = 0" using \<open>launched a = [] \<and> over a = 0\<close> by simp
  moreover have "accepts s' = (accepts s)[i := (k, a')]" using w ka by (auto simp: await_listener_def Let_def a'_def)
  ultimately show "fresh s'"
    using f set_update_subset_insert [of "accepts s" i "(k, a')"] by (auto simp: fresh_def)
qed

lemma await_listeners_fresh:
  "await_listeners p env shared is s = (r, s') \<Longrightarrow> \<forall>i \<in> set is. i < length (accepts s) \<Longrightarrow> fresh s \<Longrightarrow> fresh s'"
proof (induction "is" arbitrary: s)
  case (Cons i "is")
  obtain q s1 where 1: "await_listener p env shared i s = (q, s1)" by (cases "await_listener p env shared i s")
  have f: "fresh s1" "length (accepts s1) = length (accepts s)"
    using await_listener_fresh [OF 1] Cons.prems 1 by (auto simp: await_listener_def Let_def split: prod.splits)
  show ?case
  proof (cases "q = Some (Inr ())")
    case True
    then have "await_listeners p env shared is s1 = (r, s')" using Cons.prems(1) 1 by simp
    then show ?thesis using Cons.IH Cons.prems(2) f by simp
  next
    case False
    then have "s' = s1" using Cons.prems(1) 1 by (auto split: option.splits sum.splits)
    then show ?thesis using f by simp
  qed
qed simp

lemma start_accepts_fresh: "start_accepts p env shared ks prt s = (r, s') \<Longrightarrow> fresh s \<Longrightarrow> fresh s'"
proof (induction p env shared ks prt s rule: start_accepts.induct)
  case (2 p env shared k ts ks prt s)
  let ?s1 = "s\<lparr>accepts := accepts s @ [(k, accept_initial ts (admitting s))], requested := requested s @ [prt]\<rparr>"
  have f: "fresh ?s1" "fresh (s\<lparr>accepts := accepts s @ [(k, leave Ended (accept_initial ts (admitting s)))], requested := requested s @ [prt]\<rparr>)"
    using "2.prems"(2) by (auto simp: fresh_def accept_initial_def leave_def)
  obtain q s2 where w: "await_listener p env shared 0 ?s1 = (q, s2)" by (cases "await_listener p env shared 0 ?s1")
  have f2: "fresh s2" using await_listener_fresh [OF w _ f(1)] by simp
  show ?case
  proof (cases "spawn_fails env = Some k \<or> shared \<or> prt \<noteq> 0")
    case True
    then show ?thesis using "2.prems"(1) f "2.IH"(2) by (auto simp: Let_def split: if_splits)
  next
    case False
    then have wait: "\<not> shared \<and> prt = 0" "spawn_fails env \<noteq> Some k" by auto
    show ?thesis
    proof (cases "\<exists>u. q = Some (Inr u)")
      case True
      then obtain u where q: "q = Some (Inr u)" by blast
      then have "start_accepts p env shared ks (snd (bound (control (snd (accepts s2 ! 0))))) s2 = (r, s')"
        using "2.prems"(1) wait w by (simp add: Let_def)
      from "2.IH"(1) [OF refl wait(2) refl wait(1) w [symmetric] q refl this f2] show ?thesis .
    next
      case False
      then have "s' = s2" using "2.prems"(1) wait w by (auto simp: Let_def split: option.splits sum.splits)
      then show ?thesis using f2 by simp
    qed
  qed
qed simp

lemma started_threads:
  assumes 1: "start_guards env [0..<n_reactors s] s = (Inr (), s1)" and 2: "start_threads env [0..<n_reactors s] s1 = (Inr (), s2)"
    and inv: "base_inv s" and idle: "threads s = []" "accepts s = []"
  shows "base_inv s2 \<and> static s2 = static s \<and> accepts s2 = [] \<and> threads s2 = [0..<n_reactors s]"
proof -
  note g = start_guards_frame [OF 1]
  have "base_inv s1" "n_reactors s1 = n_reactors s"
    using inv g by (simp_all add: base_inv_def static_def)
  then show ?thesis
    using start_threads_ok [OF 2] g idle by (auto simp: atLeast0LessThan)
qed

lemma start_body_fresh:
  assumes body: "start_body p env prt s = (Some (Inr ()), s')" and inv: "base_inv s" and idle: "threads s = []" "accepts s = []"
  shows "fresh s'"
proof -
  let ?ks = "[0..<n_reactors s]" and ?sh = "\<not> bo_reuse_port (bind s) \<and> n_reactors s > 1"
  let ?as = "if ?sh then [(0, ?ks)] else map (\<lambda>k. (k, [k])) ?ks"
  obtain s1 s2 where 1: "start_guards env ?ks s = (Inr (), s1)" and 2: "start_threads env ?ks s1 = (Inr (), s2)"
    and 3: "start_listeners p env ?sh ?as prt s2 = (Some (Inr ()), s')"
    using body by (auto simp: start_body_def Let_def split: prod.splits sum.splits)
  have "accepts s2 = []" using started_threads [OF 1 2 inv idle] by simp
  then have "fresh s2" by (simp add: fresh_def)
  obtain u s3 s4 where "start_accepts p env ?sh ?as prt s2 = (Some (Inr u), s3)"
    and 4: "await_listeners p env ?sh [0..<length (accepts s3)] s3 = (Some (Inr ()), s4)" and s': "accepts s' = accepts s4"
    using 3 by (auto simp: start_listeners_def split: prod.splits option.splits sum.splits)
  then have "fresh s3" using start_accepts_fresh \<open>fresh s2\<close> by blast
  then have "fresh s4" using await_listeners_fresh [OF 4] by simp
  then show ?thesis using s' by (simp add: fresh_def)
qed

lemma fresh_shared:
  assumes "fresh s" and "admitting s = connection_bound m"
  shows "shared_inv s"
proof -
  have "weight connections (accepts s) = 0"
    using assms(1) by (auto simp: weight_zero_iff connections_def fresh_def)
  then show ?thesis
    using assms by (auto simp: shared_inv_def fresh_def connection_bound_def ca_initial_def split: if_splits)
qed

text \<open>What holds of every server between two calls.\<close>

definition bound_inv :: "tcp_server \<Rightarrow> bool" where
  "bound_inv s \<longleftrightarrow> stopped s \<or> shared_inv s \<and> (started s \<or> (\<exists>m. admitting s = connection_bound m))"

lemma start_bound:
  assumes inv: "tcp_inv s" and b: "bound_inv s" and st: "start p env ends ends' prt s = Some (r, s')"
  shows "bound_inv s'"
proof (cases "started s \<or> stopped s")
  case True
  then show ?thesis using b st by (simp add: start_def)
next
  case False
  obtain r' s'' where r: "start p env ends ends' prt s = Some (r', s'')"
    "started s'' \<and> (case r' of Inr _ \<Rightarrow> \<not> stopped s'' | Inl _ \<Rightarrow> stopped s'')"
    using start_inv [OF inv, of p env ends ends' prt] False by auto
  show ?thesis
  proof (cases r)
    case (Inl x)
    then show ?thesis using r st by (auto simp: bound_inv_def)
  next
    case (Inr u)
    then have body: "start_body p env prt (s\<lparr>started := True\<rparr>) = (Some (Inr ()), s')"
      using st False by (auto simp: start_def split: prod.splits option.splits sum.splits)
    have idle: "base_inv (s\<lparr>started := True\<rparr>)" "threads (s\<lparr>started := True\<rparr>) = []" "accepts (s\<lparr>started := True\<rparr>) = []"
      using inv False by (simp_all add: tcp_inv_def)
    have "fresh s'" using start_body_fresh [OF body idle] .
    moreover have "admitting s' = admitting s" "started s'"
      using start_body_ok [OF body idle] by (auto simp: static_def)
    moreover obtain m where "admitting s = connection_bound m" using b False by (auto simp: bound_inv_def)
    ultimately show ?thesis using fresh_shared [of s'] by (auto simp: bound_inv_def)
  qed
qed

lemma tcp_step_bound:
  assumes inv: "tcp_inv s" and b: "bound_inv s" and st: "tcp_step p x s = Some s'"
  shows "bound_inv s'"
proof (cases x)
  case (Set_connection_limit m)
  show ?thesis
  proof (cases "started s \<or> stopped s")
    case True
    then show ?thesis using st b Set_connection_limit by (cases "started s") (auto simp: set_connection_limit_def bound_inv_def)
  next
    case False
    then have "fresh (s\<lparr>admitting := connection_bound m\<rparr>)" using inv by (simp add: fresh_def tcp_inv_def)
    then have "shared_inv (s\<lparr>admitting := connection_bound m\<rparr>)" by (rule fresh_shared) simp
    then show ?thesis
      using st False Set_connection_limit by (auto simp: set_connection_limit_def bound_inv_def)
  qed
next
  case (Start env ends ends' prt)
  then show ?thesis using st start_bound [OF inv b] by auto
next
  case (Accept_loop i y)
  have "accept_loop_step p i y s = s \<or> started (accept_loop_step p i y s) \<and> \<not> stopped s"
    using inv by (cases rule: accept_loop_stepE [of s p i y]) simp_all
  moreover have s': "s' = accept_loop_step p i y s" using st Accept_loop by simp
  ultimately show ?thesis using b accept_loop_step_shared [OF inv, of p i y] unfolding s' bound_inv_def by metis
next
  case (Stop ends ends')
  obtain s1 where "stop p ends ends' s = Some s1" "stopped s1" using stop_inv [OF inv, of p ends ends'] by blast
  then show ?thesis using st Stop by (simp add: bound_inv_def)
next
  case (Close ends ends')
  obtain s1 where "close p ends ends' s = Some s1" "stopped s1" using close_inv [OF inv, of p ends ends'] by blast
  then show ?thesis using st Close by (simp add: bound_inv_def)
next
  case (Destroy_roots ends ends')
  obtain s1 where "destroy_roots p ends ends' s = Some s1" "stopped s1" using destroy_roots_inv [OF inv, of p ends ends'] by blast
  then show ?thesis using st Destroy_roots by (simp add: bound_inv_def)
next
  case (Set_bind_options o')
  then show ?thesis using st b by (auto simp: bound_inv_def set_bind_options_def)
next
  case (Set_shutdown_grace g)
  then show ?thesis using st b by (auto simp: bound_inv_def set_shutdown_grace_def)
next
  case Enable_lag_probe
  then show ?thesis using st b by (cases "started s") (auto simp: bound_inv_def enable_lag_probe_def)
qed (use st b in \<open>auto simp: bound_inv_def split: if_splits\<close>)

lemma tcp_calls_bound: "tcp_inv s \<Longrightarrow> bound_inv s \<Longrightarrow> tcp_calls p xs s = Some s' \<Longrightarrow> bound_inv s'"
proof (induction xs arbitrary: s)
  case (Cons x xs)
  obtain s1 where 1: "tcp_step p x s = Some s1" "tcp_inv s1" using tcp_step_ok [OF Cons.prems(1)] by blast
  then have "tcp_calls p xs s1 = Some s'" using Cons.prems(3) by simp
  then show ?case using Cons.IH [OF 1(2) tcp_step_bound [OF Cons.prems(1,2) 1(1)]] by simp
qed simp

section \<open>One port\<close>

text \<open>What is relied on of the system: a listener that asks for a port gets that one, and one that
  asks for port 0 gets a port that is not 0.\<close>

definition honours_ports :: "start_env \<Rightarrow> bool" where
  "honours_ports env \<longleftrightarrow>
     (\<forall>i. snd (bound_ports env i 0) \<noteq> 0) \<and> (\<forall>i q. q \<noteq> 0 \<longrightarrow> snd (bound_ports env i q) = q)"

definition bound_as_asked :: "start_env \<Rightarrow> tcp_server \<Rightarrow> bool" where
  "bound_as_asked env s \<longleftrightarrow> length (requested s) = length (accepts s) \<and>
     (\<forall>i < length (accepts s). ready (control (snd (accepts s ! i))) \<longrightarrow>
        bound (control (snd (accepts s ! i))) = bound_ports env i (requested s ! i))"

lemma do_setup_bound:
  assumes "accept_inv a" and "ready (control (accept_step p (Do_setup shared b fails e) a))"
  shows "bound (control (accept_step p (Do_setup shared b fails e) a)) = (if ready (control a) then bound (control a) else e)"
  using assms by (auto simp: accept_inv_def accept_setup_def listening_def leave_def split: option.splits accept_pc.splits)

lemma await_listener_bound:
  assumes w: "await_listener p env shared i s = (r, s')" and inv: "base_inv s" and b: "bound_as_asked env s"
    and i: "i < length (accepts s)"
  shows "bound_as_asked env s' \<and> requested s' = requested s"
proof -
  obtain k a where ka: "accepts s ! i = (k, a)" by (cases "accepts s ! i")
  have "(k, a) \<in> set (accepts s)" using i ka nth_mem by fastforce
  then have a: "accept_inv a" using inv by (auto simp: base_inv_def)
  from b i ka have "ready (control a) \<Longrightarrow> bound (control a) = bound_ports env i (requested s ! i)"
    by (fastforce simp: bound_as_asked_def)
  then have "ready (control (accept_step p (Do_setup shared (bind s) (setup_fails env i) (bound_ports env i (requested s ! i))) a)) \<Longrightarrow>
      bound (control (accept_step p (Do_setup shared (bind s) (setup_fails env i) (bound_ports env i (requested s ! i))) a))
        = bound_ports env i (requested s ! i)"
    using do_setup_bound [OF a] by metis
  then show ?thesis
    using w b i ka
    by (auto simp: await_listener_def Let_def bound_as_asked_def nth_list_update simp del: accept_step.simps split: if_splits)
qed

lemma await_listeners_bound:
  assumes "await_listeners p env shared is s = (r, s')" and "base_inv s" and "all_running s"
    and "\<forall>i \<in> set is. i < length (accepts s)" and "\<forall>(k, a) \<in> set (accepts s). k < n_reactors s"
    and "bound_as_asked env s"
  shows "bound_as_asked env s' \<and> requested s' = requested s"
  using assms
proof (induction "is" arbitrary: s)
  case (Cons i "is")
  obtain q s1 where 1: "await_listener p env shared i s = (q, s1)"
    by (cases "await_listener p env shared i s")
  have i: "i < length (accepts s)" using Cons.prems(4) by simp
  note w = await_listener_ok [OF 1 Cons.prems(2,3) i Cons.prems(5)]
    and b = await_listener_bound [OF 1 Cons.prems(2,6) i]
  show ?case
  proof (cases "q = Some (Inr ())")
    case True
    then have rest: "await_listeners p env shared is s1 = (r, s')"
      using Cons.prems(1) 1 by simp
    have "all_running s1" "\<forall>j \<in> set is. j < length (accepts s1)" "\<forall>(k, a) \<in> set (accepts s1). k < n_reactors s1"
      using Cons.prems(3,4) w(2,3,4,6) by (auto simp: all_running_def static_def)
    from Cons.IH [OF rest w(1) this] show ?thesis using b by simp
  next
    case False
    then have "s' = s1" using Cons.prems(1) 1 w(5) by (auto split: option.splits sum.splits)
    then show ?thesis using b by simp
  qed
qed simp

text \<open>With a port to ask for, or one listener for all reactors, nothing is awaited.\<close>

lemma start_accepts_asks:
  assumes "start_accepts p env shared ks prt s = (Some (Inr q), s')" and "shared \<or> prt \<noteq> 0"
    and "bound_as_asked env s"
  shows "bound_as_asked env s' \<and> requested s' = requested s @ replicate (length ks) prt
    \<and> length (accepts s') = length (accepts s) + length ks
    \<and> (\<forall>j < length (accepts s). accepts s' ! j = accepts s ! j)"
  using assms
proof (induction ks arbitrary: s)
  case (Cons kts ks)
  obtain k ts where kts: "kts = (k, ts)" by (cases kts)
  let ?s1 = "s\<lparr>accepts := accepts s @ [(k, accept_initial ts (admitting s))], requested := requested s @ [prt]\<rparr>"
  have "start_accepts p env shared ks prt ?s1 = (Some (Inr q), s')"
    using Cons.prems by (auto simp: kts Let_def split: if_splits)
  moreover have "bound_as_asked env ?s1"
    using Cons.prems(3) by (auto simp: bound_as_asked_def nth_append accept_initial_def accept_control_initial_def less_Suc_eq)
  ultimately have ih: "bound_as_asked env s' \<and> requested s' = requested ?s1 @ replicate (length ks) prt
      \<and> length (accepts s') = length (accepts ?s1) + length ks
      \<and> (\<forall>j < length (accepts ?s1). accepts s' ! j = accepts ?s1 ! j)"
    using Cons.IH Cons.prems(2) by blast
  then show ?case by (auto simp: nth_append)
qed simp

definition one_port :: "nat \<Rightarrow> tcp_server \<Rightarrow> bool" where
  "one_port prt s \<longleftrightarrow> port s \<noteq> 0 \<and> (prt \<noteq> 0 \<longrightarrow> port s = prt)
     \<and> (\<forall>(k, a) \<in> set (accepts s). snd (bound (control a)) = port s)"

lemma bound_one_port:
  assumes hon: "honours_ports env" and b: "bound_as_asked env s" and ne: "accepts s \<noteq> []"
    and rdy: "\<forall>(k, a) \<in> set (accepts s). ready (control a)"
    and req: "requested s = prt # replicate n q" "q = (if prt = 0 then snd (bound_ports env 0 0) else prt)"
  shows "one_port prt (s\<lparr>port := snd (bound (control (snd (accepts s ! 0))))\<rparr>)"
proof -
  have r: "\<forall>i < length (accepts s). ready (control (snd (accepts s ! i)))" using rdy all_ready by blast
  have q0: "q \<noteq> 0" using hon req(2) by (auto simp: honours_ports_def)
  have port: "snd (bound (control (snd (accepts s ! i)))) = q" if "i < length (accepts s)" for i
  proof -
    have "bound (control (snd (accepts s ! i))) = bound_ports env i (requested s ! i)"
      using b r that by (auto simp: bound_as_asked_def)
    moreover have "i < Suc n" using b req(1) that by (simp add: bound_as_asked_def)
    ultimately show ?thesis
      using hon req q0 by (cases i) (auto simp: honours_ports_def)
  qed
  then have "\<forall>(k, a) \<in> set (accepts s). snd (bound (control a)) = q"
    by (auto simp: set_conv_nth) (metis snd_conv)
  then show ?thesis using port [of 0] q0 ne req(2) by (auto simp: one_port_def)
qed

lemma start_accepts_requests:
  assumes st: "start_accepts p env shared ks prt s = (Some (Inr u), s')" and inv: "base_inv s" and run: "all_running s"
    and none: "accepts s = []" "requested s = []" and ks: "\<forall>(k, ts) \<in> set ks. k < n_reactors s" "ks \<noteq> []"
    and hon: "honours_ports env" and one: "shared \<longrightarrow> length ks = 1"
  shows "bound_as_asked env s' \<and> (\<exists>n. requested s' = prt # replicate n (if prt = 0 then snd (bound_ports env 0 0) else prt))"
proof (cases "shared \<or> prt \<noteq> 0")
  case True
  have "bound_as_asked env s" using none by (simp add: bound_as_asked_def)
  from start_accepts_asks [OF st True this] obtain n where "bound_as_asked env s'" "requested s' = replicate (Suc n) prt"
    "length ks = Suc n"
    using none ks(2) by (cases ks) auto
  then show ?thesis using True one by (auto intro: exI [of _ n])
next
  case False
  then have prt: "\<not> shared \<and> prt = 0" by simp
  obtain k ts ks' where k: "ks = (k, ts) # ks'" using ks(2) by (cases ks) auto
  let ?s1 = "s\<lparr>accepts := accepts s @ [(k, accept_initial ts (admitting s))], requested := requested s @ [prt]\<rparr>"
  obtain q s2 where w: "await_listener p env shared 0 ?s1 = (q, s2)" by (cases "await_listener p env shared 0 ?s1")
  have i1: "base_inv ?s1" using add_accept_inv [OF inv run _ initial_accept_inv(1)] ks k by simp
  have b1: "bound_as_asked env ?s1"
    using none by (auto simp: bound_as_asked_def accept_initial_def accept_control_initial_def)
  note b2 = await_listener_bound [OF w i1 b1]
  have len: "0 < length (accepts ?s1)" by simp
  have "all_running ?s1" "\<forall>(k, a) \<in> set (accepts ?s1). k < n_reactors ?s1"
    using run none ks k by (auto simp: all_running_def)
  note ok = await_listener_ok [OF w i1 this(1) len this(2)]
  have q: "q = Some (Inr ())" and rest: "start_accepts p env shared ks' (snd (bound (control (snd (accepts s2 ! 0))))) s2 = (Some (Inr u), s')"
    using st prt w unfolding k by (auto simp: Let_def split: if_splits option.splits sum.splits)
  have "bound (control (snd (accepts s2 ! 0))) = bound_ports env 0 0"
    using b2 q ok(4,7) none prt by (auto simp: bound_as_asked_def)
  then show ?thesis
    using start_accepts_asks [OF rest] b2 hon none prt by (auto simp: honours_ports_def)
qed

lemma start_listeners_port:
  assumes st: "start_listeners p env shared ks prt s = (Some (Inr ()), s')" and inv: "base_inv s"
    and thr: "threads s = [0..<n_reactors s]" and none: "accepts s = []" "requested s = []"
    and ks: "\<forall>(k, ts) \<in> set ks. k < n_reactors s" "ks \<noteq> []"
    and hon: "honours_ports env" and one: "shared \<longrightarrow> length ks = 1"
  shows "one_port prt s'"
proof -
  obtain u s3 s4 where 3: "start_accepts p env shared ks prt s = (Some (Inr u), s3)"
    and 4: "await_listeners p env shared [0..<length (accepts s3)] s3 = (Some (Inr ()), s4)"
    and s': "s' = s4\<lparr>port := snd (bound (control (snd (accepts s4 ! 0))))\<rparr>"
    using st by (auto simp: start_listeners_def split: prod.splits option.splits sum.splits)
  have run: "all_running s" using thr by (auto simp: all_running_def)
  have "\<forall>(k, a) \<in> set (accepts s). k < n_reactors s" using none by simp
  note a = start_accepts_ok [OF 3 inv run ks(1) this]
    and b = start_accepts_requests [OF 3 inv run none ks hon one]
  have "all_running s3" "\<forall>i \<in> set [0..<length (accepts s3)]. i < length (accepts s3)"
    "\<forall>(k, a) \<in> set (accepts s3). k < n_reactors s3"
    using run a by (auto simp: all_running_def static_def)
  note w = await_listeners_ok [OF 4 conjunct1 [OF a] this]
    and v = await_listeners_bound [OF 4 conjunct1 [OF a] this conjunct1 [OF b]]
  have "accepts s4 \<noteq> []" using w a ks(2) by auto
  moreover have "\<forall>(k, a) \<in> set (accepts s4). ready (control a)" using w all_ready [of "accepts s4"] by auto
  ultimately show ?thesis
    using bound_one_port [OF hon conjunct1 [OF v]] v b unfolding s' by auto
qed

lemma start_guards_requested: "start_guards env ks s = (r, s') \<Longrightarrow> requested s' = requested s"
  by (induction env ks s rule: start_guards.induct) (auto split: if_splits)

lemma start_threads_requested: "start_threads env ks s = (r, s') \<Longrightarrow> requested s' = requested s"
  by (induction env ks s rule: start_threads.induct) (auto simp: Let_def split: if_splits)

lemma start_body_port:
  assumes body: "start_body p env prt s = (Some (Inr ()), s')" and inv: "base_inv s"
    and idle: "threads s = []" "accepts s = []" "requested s = []" and hon: "honours_ports env"
  shows "one_port prt s'"
proof -
  let ?ks = "[0..<n_reactors s]" and ?sh = "\<not> bo_reuse_port (bind s) \<and> n_reactors s > 1"
  let ?as = "if ?sh then [(0, ?ks)] else map (\<lambda>k. (k, [k])) ?ks"
  obtain s1 s2 where 1: "start_guards env ?ks s = (Inr (), s1)" and 2: "start_threads env ?ks s1 = (Inr (), s2)"
    and 3: "start_listeners p env ?sh ?as prt s2 = (Some (Inr ()), s')"
    using body by (auto simp: start_body_def Let_def split: prod.splits sum.splits)
  note t = started_threads [OF 1 2 inv idle(1,2)]
  have "n_reactors s2 = n_reactors s" "0 < n_reactors s" using t inv by (simp_all add: static_def base_inv_def)
  then show ?thesis
    using start_listeners_port [OF 3] t hon idle start_guards_requested [OF 1] start_threads_requested [OF 2] by auto
qed

section \<open>The properties\<close>

lemma wait_all_time:
  assumes "wait_all es deadline drained now = (r, t)" and "now \<le> deadline"
  shows "now \<le> t \<and> t \<le> deadline \<and> (r \<longleftrightarrow> drained \<and> (\<forall>e \<in> set es. \<exists>u. e = Some u \<and> u \<le> deadline))"
  using assms
proof (induction es arbitrary: drained now)
  case (Cons e es)
  obtain b n where w: "wait_sessions_until e deadline now = (b, n)" by (cases "wait_sessions_until e deadline now")
  have "now \<le> n" "n \<le> deadline" "b \<longleftrightarrow> (\<exists>u. e = Some u \<and> u \<le> deadline)"
    using w Cons.prems(2) by (auto simp: wait_sessions_until_def split: option.splits if_splits)
  moreover have "wait_all es deadline (b \<and> drained) n = (r, t)" using Cons.prems(1) w by simp
  ultimately show ?case using Cons.IH [of "b \<and> drained" n] by auto
qed simp

lemma stop_forcing:
  "stop p ends ends' s = Some s' \<Longrightarrow> \<not> stopped s \<Longrightarrow>
     forcing s' = (if fst (session_stage ends ends' (grace s) 0) then replicate (n_reactors s) True else forcing s)"
  by (auto simp: stop_def Let_def split: if_splits)

lemma reached_inv: "tcp_calls p xs (TcpServer n m) = Some s \<Longrightarrow> tcp_inv s"
  using tcp_calls_ok [OF TcpServer_inv, of p xs n m] by auto

lemma no_claims: "base_inv s \<Longrightarrow> threads s = [] \<Longrightarrow> claims s = replicate (n_reactors s) 0"
  by (auto simp: base_inv_def intro: nth_equalityI)

lemma destruct_reactors_ok:
  "\<forall>k \<in> set ks. claims s ! k = 0 \<Longrightarrow>
     \<exists>s'. destruct_reactors ks s = Some s' \<and> n_reactors s' = n_reactors s \<and> claims s' = claims s
       \<and> threads s' = threads s \<and> destroyed s' = destroyed s"
proof (induction ks arbitrary: s)
  case (Cons k ks)
  let ?s = "s\<lparr>io_stopped := (io_stopped s)[k := True], probes := (probes s)[k := Lag.stop (probes s ! k)]\<rparr>"
  have "destruct_reactor k s = Some ?s" using Cons.prems by (simp add: destruct_reactor_def)
  then show ?case using Cons.IH [of ?s] Cons.prems by simp
qed simp

lemma destruct_server_ok:
  assumes "tcp_inv s"
  shows "\<exists>s'. destruct_server p ends ends' s = Some s' \<and> threads s' = []
    \<and> claims s' = replicate (n_reactors s') 0 \<and> destroyed s' = replicate (n_reactors s') True"
proof -
  obtain s1 where s1: "destroy_roots p ends ends' s = Some s1" "tcp_inv s1" "stopped s1"
    "destroyed s1 = replicate (n_reactors s1) True"
    using destroy_roots_inv [OF assms, of p ends ends'] by blast
  have t: "threads s1 = []" using s1 by (simp add: tcp_inv_def stopped_clean_def)
  have c: "claims s1 = replicate (n_reactors s1) 0"
    using s1(2) no_claims [OF _ t] by (simp add: tcp_inv_def)
  obtain s2 where "destruct_reactors [0..<n_reactors s1] s1 = Some s2" "n_reactors s2 = n_reactors s1"
    "claims s2 = claims s1" "threads s2 = threads s1" "destroyed s2 = destroyed s1"
    using destruct_reactors_ok [of "[0..<n_reactors s1]" s1] c by auto
  then show ?thesis using s1 t c by (simp add: destruct_server_def)
qed

section \<open>The lag probes of the loops\<close>

text \<open>Until the server is stopped a probe runs exactly if the server was started with the probes
  enabled; then it is stopped, if it ever ran.\<close>

definition probe_ok :: "tcp_server \<Rightarrow> lag \<Rightarrow> bool" where
  "probe_ok s l \<longleftrightarrow> Lag.timer_inv l \<and>
     (if stopped s then Lag.started l \<longrightarrow> Lag.stopped l
      else Lag.started l = (started s \<and> lag_probe s) \<and> \<not> Lag.stopped l)"

definition probe_inv :: "tcp_server \<Rightarrow> bool" where
  "probe_inv s \<longleftrightarrow> length (probes s) = n_reactors s \<and> (\<forall>l \<in> set (probes s). probe_ok s l)"

abbreviation probing :: "tcp_server \<Rightarrow> lag list \<times> bool \<times> nat" where
  "probing s \<equiv> (probes s, lag_probe s, n_reactors s)"

lemma stop_probes:
  "stop p ends ends' s = Some s' \<Longrightarrow> \<not> stopped s \<Longrightarrow>
     probes s' = map Lag.stop (probes s) \<and> lag_probe s' = lag_probe s \<and> n_reactors s' = n_reactors s \<and> stopped s'"
  by (auto simp: stop_def Let_def split: if_splits)

lemma lag_stop_ok: "Lag.timer_inv l \<Longrightarrow> Lag.timer_inv (Lag.stop l) \<and> (Lag.started (Lag.stop l) \<longrightarrow> Lag.stopped (Lag.stop l))"
  using lag_step_timer [of l "lag_op.Stop"] by (simp add: Lag.stop_def)

lemma stop_probe_inv:
  assumes "stop p ends ends' s = Some s'" and "length (probes s) = n_reactors s" and "\<forall>l \<in> set (probes s). Lag.timer_inv l"
    and "stopped s \<Longrightarrow> probe_inv s"
  shows "probe_inv s'"
proof (cases "stopped s")
  case True
  then show ?thesis using assms(1,4) by (simp add: stop_def)
next
  case False
  then show ?thesis
    using stop_probes [OF assms(1)] assms(2,3) lag_stop_ok by (auto simp: probe_inv_def probe_ok_def)
qed

lemma start_guards_probes:
  assumes "start_guards env ks s = (r, s')"
  shows "length (probes s') = length (probes s)" "lag_probe s' = lag_probe s" "n_reactors s' = n_reactors s"
    and "(\<forall>l \<in> set (probes s). Lag.timer_inv l \<and> \<not> Lag.stopped l) \<Longrightarrow> set ks \<subseteq> {..<length (probes s)} \<Longrightarrow>
      \<forall>l \<in> set (probes s'). Lag.timer_inv l \<and> \<not> Lag.stopped l"
    and "r = Inr () \<Longrightarrow> set ks \<subseteq> {..<length (probes s)} \<Longrightarrow> i < length (probes s) \<Longrightarrow>
      Lag.started (probes s' ! i) = (Lag.started (probes s ! i) \<or> lag_probe s \<and> i \<in> set ks)"
  using assms
proof (induction env ks s rule: start_guards.induct)
  case (2 env k ks s)
  let ?l = "Lag.start (clock_at env k) (probes s ! k)"
  let ?s = "s\<lparr>guards := guards s + 1, probes := (if lag_probe s then (probes s)[k := ?l] else probes s)\<rparr>"
  have st: "Lag.started ?l" by (simp add: Lag.start_def arm_def)
  have keep: "Lag.timer_inv ?l \<and> \<not> Lag.stopped ?l" if "Lag.timer_inv (probes s ! k) \<and> \<not> Lag.stopped (probes s ! k)"
    using that lag_step_timer [of "probes s ! k" "lag_op.Start (clock_at env k)"] by (simp add: Lag.start_def arm_def)
  {
    case 1 then show ?case using 2 by (auto split: if_splits)
  next
    case 2 then show ?case using "2.IH" by (auto split: if_splits)
  next
    case 3 then show ?case using "2.IH" by (auto split: if_splits)
  next
    case 4
    then have "\<forall>l \<in> set (probes ?s). Lag.timer_inv l \<and> \<not> Lag.stopped l"
      using keep by (auto dest!: set_update_subset_insert [THEN subsetD])
    then show ?case using 4 "2.IH"(4) by (auto split: if_splits)
  next
    case 5
    then have "guard_fails env \<noteq> Some k" by (auto split: if_splits)
    then show ?case using 5 "2.IH"(5) st by (auto simp: nth_list_update split: if_splits)
  }
qed simp_all

lemma start_threads_probing: "start_threads env ks s = (r, s') \<Longrightarrow> probing s' = probing s"
  by (induction env ks s rule: start_threads.induct) (auto simp: Let_def split: if_splits)

lemma await_listener_probing: "probing (snd (await_listener p env shared i s)) = probing s"
  by (auto simp: await_listener_def Let_def split: prod.splits)

lemma await_listeners_probing: "probing (snd (await_listeners p env shared is s)) = probing s"
proof (induction "is" arbitrary: s)
  case (Cons i "is")
  obtain q s1 where a: "await_listener p env shared i s = (q, s1)" by (cases "await_listener p env shared i s")
  have "probing s1 = probing s" using await_listener_probing [of p env shared i s] a by simp
  moreover have "await_listeners p env shared (i # is) s = (q, s1) \<or>
      await_listeners p env shared (i # is) s = await_listeners p env shared is s1"
    using a by (simp split: option.split sum.split)
  ultimately show ?case using Cons.IH [of s1] by (elim disjE) simp_all
qed simp

lemma start_accepts_probing: "probing (snd (start_accepts p env shared ks prt s)) = probing s"
proof (induction p env shared ks prt s rule: start_accepts.induct)
  case (2 p env shared k ts ks prt s)
  let ?s = "s\<lparr>accepts := accepts s @ [(k, accept_initial ts (admitting s))], requested := requested s @ [prt]\<rparr>"
  obtain q s2 where a: "await_listener p env shared 0 ?s = (q, s2)" by (cases "await_listener p env shared 0 ?s")
  have "probing s2 = probing s" using await_listener_probing [of p env shared 0 ?s] a by simp
  then show ?case using 2 a by (auto simp: Let_def split: option.splits sum.splits)
qed simp

lemma start_listeners_probing: "probing (snd (start_listeners p env shared ks prt s)) = probing s"
proof -
  obtain q3 s3 where 3: "start_accepts p env shared ks prt s = (q3, s3)" by (cases "start_accepts p env shared ks prt s")
  obtain q4 s4 where 4: "await_listeners p env shared [0..<length (accepts s3)] s3 = (q4, s4)"
    by (cases "await_listeners p env shared [0..<length (accepts s3)] s3")
  have "probing s3 = probing s" "probing s4 = probing s3"
    using start_accepts_probing [of p env shared ks prt s] 3
      await_listeners_probing [of p env shared "[0..<length (accepts s3)]" s3] 4 by simp_all
  then show ?thesis by (auto simp: start_listeners_def 3 4 split: option.splits sum.splits)
qed

lemma start_body_probes:
  assumes body: "start_body p env prt s = (r, s')" and len: "length (probes s) = n_reactors s"
    and all: "\<forall>l \<in> set (probes s). Lag.timer_inv l \<and> \<not> Lag.stopped l" and idle: "\<forall>l \<in> set (probes s). \<not> Lag.started l"
  shows "length (probes s') = n_reactors s'" "\<forall>l \<in> set (probes s'). Lag.timer_inv l \<and> \<not> Lag.stopped l"
    and "r = Some (Inr ()) \<Longrightarrow> \<forall>l \<in> set (probes s'). Lag.started l = lag_probe s'"
proof -
  let ?ks = "[0..<n_reactors s]"
  obtain q1 s1 where 1: "start_guards env ?ks s = (q1, s1)" by (cases "start_guards env ?ks s")
  obtain q2 s2 where 2: "start_threads env ?ks s1 = (q2, s2)" by (cases "start_threads env ?ks s1")
  note g = start_guards_probes [OF 1]
  have "probing s' = probing s1"
  proof (cases "\<exists>u v. q1 = Inr u \<and> q2 = Inr v")
    case True
    then obtain sh as where "start_listeners p env sh as prt s2 = (r, s')"
      using body 1 2 by (auto simp: start_body_def Let_def)
    then show ?thesis
      using start_listeners_probing [of p env sh as prt s2] start_threads_probing [OF 2] by simp
  next
    case False
    then have "s' = s1 \<or> s' = s2" using body 1 2 by (cases q1; cases q2) (simp_all add: start_body_def Let_def)
    then show ?thesis using start_threads_probing [OF 2] by auto
  qed
  moreover have "length (probes s1) = n_reactors s1" "\<forall>l \<in> set (probes s1). Lag.timer_inv l \<and> \<not> Lag.stopped l"
    using g(1,3) g(4) [OF all] len by (simp_all add: atLeast0LessThan)
  moreover have "\<forall>l \<in> set (probes s1). Lag.started l = lag_probe s1" if "q1 = Inr ()"
    using g(1,2) g(5) [OF that] len idle by (auto simp: in_set_conv_nth [of _ "probes s1"] atLeast0LessThan)
  moreover have "q1 = Inr ()" if "r = Some (Inr ())"
    using that body 1 by (cases q1) (auto simp: start_body_def Let_def)
  ultimately show "length (probes s') = n_reactors s'" "\<forall>l \<in> set (probes s'). Lag.timer_inv l \<and> \<not> Lag.stopped l"
    "r = Some (Inr ()) \<Longrightarrow> \<forall>l \<in> set (probes s'). Lag.started l = lag_probe s'"
    by simp_all
qed

lemma start_probe_inv:
  assumes inv: "tcp_inv s" "probe_inv s" and st: "start p env ends ends' prt s = Some (r, s')"
  shows "probe_inv s'"
proof (cases "started s \<or> stopped s")
  case True
  then show ?thesis using inv st by (simp add: start_def)
next
  case False
  obtain q s1 where body: "start_body p env prt (s\<lparr>started := True\<rparr>) = (q, s1)"
    by (cases "start_body p env prt (s\<lparr>started := True\<rparr>)")
  have "start_body p env prt (s\<lparr>started := True\<rparr>) = (q, s1)" "base_inv (s\<lparr>started := True\<rparr>)"
    "threads (s\<lparr>started := True\<rparr>) = []" "accepts (s\<lparr>started := True\<rparr>) = []"
    using body inv False by (simp_all add: tcp_inv_def)
  note ok = start_body_ok [OF this]
  have idle: "\<forall>l \<in> set (probes s). \<not> Lag.started l" using inv(2) False by (auto simp: probe_inv_def probe_ok_def)
  have "length (probes (s\<lparr>started := True\<rparr>)) = n_reactors (s\<lparr>started := True\<rparr>)"
    "\<forall>l \<in> set (probes (s\<lparr>started := True\<rparr>)). Lag.timer_inv l \<and> \<not> Lag.stopped l"
    "\<forall>l \<in> set (probes (s\<lparr>started := True\<rparr>)). \<not> Lag.started l"
    using inv(2) False by (auto simp: probe_inv_def probe_ok_def)
  note pr = start_body_probes [OF body this]
  obtain v where q: "q = Some v" using ok by (cases q) auto
  show ?thesis
  proof (cases v)
    case (Inr u)
    then have "s' = s1" using st body q False by (simp add: start_def)
    then show ?thesis using pr ok Inr q False by (auto simp: probe_inv_def probe_ok_def static_def)
  next
    case (Inl x)
    then obtain s2 where "stop p ends ends' (fail_accepts p s1) = Some s2" "s' = s2"
      using st body q False by (auto simp: start_def)
    moreover have "probing (fail_accepts p s1) = probing s1" "stopped (fail_accepts p s1) = stopped s1"
      by (simp_all add: fail_accepts_def)
    moreover have "\<not> stopped s1" using ok False by (simp add: static_def)
    ultimately show ?thesis using stop_probe_inv [of p ends ends' "fail_accepts p s1" s2] pr by auto
  qed
qed

lemma probe_inv_cong:
  "probes s' = probes s \<Longrightarrow> n_reactors s' = n_reactors s \<Longrightarrow> started s' = started s \<Longrightarrow> stopped s' = stopped s \<Longrightarrow>
     lag_probe s' = lag_probe s \<Longrightarrow> probe_inv s' = probe_inv s"
  by (simp add: probe_inv_def probe_ok_def)

lemma lag_step_flags:
  "Lag.started (lag_step (Tick e t t') l) = Lag.started l" "Lag.stopped (lag_step (Tick e t t') l) = Lag.stopped l"
  "Lag.started (lag_step Note_activity l) = Lag.started l" "Lag.stopped (lag_step Note_activity l) = Lag.stopped l"
  by (simp_all add: tick_def arm_def note_activity_def Let_def)

lemma probe_step_probe_inv:
  assumes "probe_inv s" and "x = Note_activity \<or> (\<exists>e t t'. x = Tick e t t')"
  shows "probe_inv (probe_step k x s)"
proof (cases "k < length (probes s)")
  case True
  let ?l = "probes s ! k"
  have "probe_ok s ?l" using assms(1) True by (simp add: probe_inv_def)
  moreover have "Lag.started (lag_step x ?l) = Lag.started ?l" "Lag.stopped (lag_step x ?l) = Lag.stopped ?l"
    using assms(2) lag_step_flags by (metis, metis)
  ultimately have "probe_ok s (lag_step x ?l)" using lag_step_timer [of ?l x] by (simp add: probe_ok_def)
  then show ?thesis
    using assms(1) True unfolding probe_inv_def probe_ok_def probe_step_def
    by (auto dest!: set_update_subset_insert [THEN subsetD])
qed (use assms in \<open>simp add: probe_step_def\<close>)

lemma tcp_step_probe_inv:
  assumes inv: "tcp_inv s" "probe_inv s" and st: "tcp_step p x s = Some s'"
  shows "probe_inv s'"
proof -
  have timers: "length (probes s) = n_reactors s" "\<forall>l \<in> set (probes s). Lag.timer_inv l"
    using inv(2) by (auto simp: probe_inv_def probe_ok_def)
  have stop: "probe_inv s1" if "stop p ends ends' s = Some s1" for ends ends' s1
    using stop_probe_inv [OF that timers inv(2)] .
  have close: "probe_inv s1" if "close p ends ends' s = Some s1" for ends ends' s1
    using that stop by (auto simp: close_def probe_inv_cong [of "_\<lparr>closed := _\<rparr>"])
  show ?thesis
  proof (cases x)
    case (Start env ends ends' prt)
    then show ?thesis using start_probe_inv [OF inv] st by auto
  next
    case (Accept_loop i y)
    have "probe_inv (accept_loop_step p i y s)"
      using inv by (cases rule: accept_loop_stepE [of s p i y]) (simp_all add: probe_inv_def probe_ok_def)
    then show ?thesis using st Accept_loop by simp
  next
    case (Destroy_roots ends ends')
    then show ?thesis
      using st close by (auto simp: destroy_roots_def probe_inv_cong [of "_\<lparr>destroyed := _\<rparr>"])
  next
    case Enable_lag_probe
    then show ?thesis using st inv by (auto simp: enable_lag_probe_def probe_inv_def probe_ok_def split: if_splits)
  next
    case (Set_connection_limit m)
    then show ?thesis using st inv by (auto simp: set_connection_limit_def probe_inv_def probe_ok_def split: if_splits)
  qed (use st inv stop close in \<open>auto simp: set_bind_options_def set_shutdown_grace_def probe_inv_cong [of "_\<lparr>bind := _\<rparr>"]
      probe_inv_cong [of "_\<lparr>grace := _\<rparr>"] probe_step_probe_inv simp del: lag_step.simps split: if_splits\<close>)
qed

lemma tcp_calls_probe_inv: "tcp_inv s \<Longrightarrow> probe_inv s \<Longrightarrow> tcp_calls p xs s = Some s' \<Longrightarrow> probe_inv s'"
proof (induction xs arbitrary: s)
  case (Cons x xs)
  obtain s1 where 1: "tcp_step p x s = Some s1" "tcp_inv s1" using tcp_step_ok [OF Cons.prems(1)] by blast
  then have "probe_inv s1" using tcp_step_probe_inv Cons.prems by blast
  then show ?case using Cons 1 by simp
qed simp

text \<open>A start on which nothing fails, for evaluation.\<close>

definition linux :: platform where
  "linux = \<lparr>apple = False, has_enonet = True\<rparr>"

definition all_well :: start_env where
  "all_well = \<lparr>guard_fails = None, thread_fails = None, spawn_fails = None, setup_fails = \<lambda>_ _. None,
     bound_ports = \<lambda>i q. (0, if q = 0 then 49152 else q), clock_at = \<lambda>_. 0\<rparr>"

lemmas tcp_eval = TcpServer_def connection_bound_def start_def start_body_def start_listeners_def await_listener_def
  linux_def all_well_def bind_options_default_def claim_def release_def accept_initial_def accept_control_initial_def
  accept_setup_def setup_calls_def listening_def wait_listening_def Let_def upt_rec numeral_2_eq_2
  stop_def can_abort_def can_wait_def stop_accept_def accept_run_def stop_on_owner_def accept_head_def accept_retry_def
  retry_def leave_def finish_def session_stage_def sessions_end_within_def wait_sessions_until_def close_def
  accept_loop_step_def

text \<open>C4: the life of a server. Whatever public calls are made in whatever order, whatever fails in
  \<^verbatim>\<open>start\<close> and whatever the accept loops do between the calls, no call blocks; a loop is claimed
  once while its thread runs and not otherwise; no scheduler is closed whose \<^verbatim>\<open>io_context\<close> is not
  stopped or whose thread runs, and no roots are destroyed before the scheduler is closed. The
  destructor always returns: no thread is left to be joined and every loop is released, as
  \<^verbatim>\<open>~Reactor\<close> asserts.\<close>

theorem tcp_lifecycle:
  "\<exists>s s'. tcp_calls p xs (TcpServer n m) = Some s
     \<and> (\<forall>k < n_reactors s. claims s ! k = (if k \<in> set (threads s) then 1 else 0)
          \<and> (closed s ! k \<longrightarrow> io_stopped s ! k \<and> k \<notin> set (threads s))
          \<and> (destroyed s ! k \<longrightarrow> closed s ! k))
     \<and> destruct_server p ends ends' s = Some s' \<and> threads s' = [] \<and> claims s' = replicate (n_reactors s') 0
     \<and> destroyed s' = replicate (n_reactors s') True"
proof -
  obtain s where s: "tcp_calls p xs (TcpServer n m) = Some s" "tcp_inv s"
    using tcp_calls_ok [OF TcpServer_inv, of p xs n m] by blast
  obtain s' where s': "destruct_server p ends ends' s = Some s'" "threads s' = []" "claims s' = replicate (n_reactors s') 0"
    "destroyed s' = replicate (n_reactors s') True"
    using destruct_server_ok [OF s(2), of p ends ends'] by blast
  have "\<forall>k < n_reactors s. claims s ! k = (if k \<in> set (threads s) then 1 else 0)"
    using s(2) by (simp add: tcp_inv_def base_inv_def)
  moreover have "\<forall>k < n_reactors s. closed s ! k \<longrightarrow> io_stopped s ! k \<and> k \<notin> set (threads s)"
    using s(2) by (auto simp: tcp_inv_def stopped_clean_def split: if_splits)
  moreover have "\<forall>k < n_reactors s. destroyed s ! k \<longrightarrow> closed s ! k" using s(2) by (simp add: tcp_inv_def)
  ultimately show ?thesis using s(1) s' by blast
qed

theorem tcp_lifecycle_witness:
  "\<exists>s s'. tcp_calls linux [Start all_well [] [] 0, Accept_loop 0 Do_head, Close [Some 0] []] (TcpServer 2 0) = Some s
     \<and> claims s = [0, 0] \<and> closed s = [True, True] \<and> io_stopped s ! 0
     \<and> destruct_server linux [] [] s = Some s' \<and> claims s' = replicate (n_reactors s') 0"
proof -
  let ?xs = "[Start all_well [] [] 0, Accept_loop 0 Do_head, Close [Some 0] []]"
  have "map_option (\<lambda>s. (claims s, closed s, n_reactors s)) (tcp_calls linux ?xs (TcpServer 2 0))
      = Some ([0, 0], [True, True], 2)"
    by (simp add: tcp_eval All_less_Suc)
  then show ?thesis using tcp_lifecycle [of linux ?xs 2 0 "[]" "[]"] by fastforce
qed

text \<open>C10: \<^verbatim>\<open>start\<close>. A server that has been started or stopped refuses, and is left as it was.
  Otherwise, wherever something fails, an exception comes out and the server is stopped, with no
  thread, no accept loop and no claimed loop left; when \<^verbatim>\<open>start\<close> returns, every loop has its
  thread, every listener is bound, all of them to one port, the one asked for unless that was 0,
  and \<^verbatim>\<open>port()\<close> is that port.\<close>

theorem start_outcome:
  assumes "tcp_calls p xs (TcpServer n m) = Some s" and "honours_ports env"
  shows "\<exists>r s'. start p env ends ends' prt s = Some (r, s') \<and>
    (if started s \<or> stopped s then r = Inl (Logic_error ''TCP server cannot be restarted'') \<and> s' = s
     else case r of
       Inl x \<Rightarrow> stopped s' \<and> threads s' = [] \<and> accepts s' = [] \<and> claims s' = replicate (n_reactors s') 0
     | Inr _ \<Rightarrow> \<not> stopped s' \<and> threads s' = [0..<n_reactors s']
         \<and> (\<forall>(k, a) \<in> set (accepts s'). ready (control a) \<and> snd (bound (control a)) = port s')
         \<and> (port s' = prt \<or> prt = 0))"
proof -
  have inv: "tcp_inv s" using reached_inv [OF assms(1)] .
  obtain r s' where r: "start p env ends ends' prt s = Some (r, s')" and inv': "tcp_inv s'"
    and out: "if started s \<or> stopped s then r = Inl (Logic_error ''TCP server cannot be restarted'') \<and> s' = s
       else started s' \<and> (case r of Inr _ \<Rightarrow> \<not> stopped s' | Inl _ \<Rightarrow> stopped s')"
    using start_inv [OF inv, of p env ends ends' prt] by blast
  show ?thesis
  proof (cases "started s \<or> stopped s")
    case True
    then show ?thesis using r out by simp
  next
    case fresh: False
    show ?thesis
    proof (cases r)
      case (Inl x)
      then have "stopped s'" using out fresh by simp
      moreover from this have "threads s' = []" "accepts s' = []" using inv' by (simp_all add: tcp_inv_def stopped_clean_def)
      moreover from this have "claims s' = replicate (n_reactors s') 0"
        using inv' no_claims by (simp add: tcp_inv_def)
      ultimately show ?thesis using r fresh Inl by simp
    next
      case (Inr u)
      then have "serving s'" and run: "\<not> stopped s'" using out fresh inv' by (simp_all add: tcp_inv_def)
      moreover have "start_body p env prt (s\<lparr>started := True\<rparr>) = (Some (Inr ()), s')"
        using r Inr fresh by (auto simp: start_def split: prod.splits option.splits sum.splits)
      then have "one_port prt s'"
        using start_body_port [of p env prt "s\<lparr>started := True\<rparr>" s'] inv fresh assms(2) by (simp add: tcp_inv_def)
      ultimately show ?thesis using r fresh Inr by (auto simp: serving_def one_port_def)
    qed
  qed
qed

theorem start_outcome_witness:
  "\<exists>s'. start linux all_well [] [] 0 (TcpServer 2 0) = Some (Inr (), s') \<and> threads s' = [0, 1]
     \<and> (\<forall>(k, a) \<in> set (accepts s'). ready (control a) \<and> snd (bound (control a)) = 49152)"
proof -
  have "map_option (\<lambda>(r, s). (r, threads s, port s)) (start linux all_well [] [] 0 (TcpServer 2 0))
      = Some (Inr (), [0, 1], 49152)"
    by (simp add: tcp_eval)
  moreover have "tcp_calls linux [] (TcpServer 2 0) = Some (TcpServer 2 0)" "honours_ports all_well"
    "\<not> started (TcpServer 2 0)" "\<not> stopped (TcpServer 2 0)"
    by (simp_all add: honours_ports_def all_well_def TcpServer_def Let_def)
  ultimately show ?thesis using start_outcome [of linux "[]" 2 0 "TcpServer 2 0" all_well "[]" "[]" 0] by auto
qed

text \<open>C14: one bound for all the loops. In every run of a server with a bound on its connections, until
  it is stopped, \<^verbatim>\<open>active\<close> of the admission its accept loops share is the number of sessions they
  have launched that are not over, and at most the bound: refused connections and launches
  without memory hold nothing; and \<^verbatim>\<open>connection_stats()\<close> reports it.\<close>

theorem connections_bounded:
  assumes "tcp_calls p xs (TcpServer n m) = Some s" and "\<not> stopped s" and "admitting s = Some c"
  shows "unat (active c) = (\<Sum>(k, a) \<leftarrow> accepts s. length (launched a) - over a) \<and> active c \<le> maximum c
    \<and> cs_active (connection_stats s) = active c"
proof -
  have "bound_inv (TcpServer n m)"
    using fresh_shared [of "TcpServer n m" m] by (auto simp: bound_inv_def fresh_def TcpServer_def Let_def)
  then have "shared_inv s"
    using tcp_calls_bound [OF TcpServer_inv _ assms(1)] assms(2) by (simp add: bound_inv_def)
  then show ?thesis
    using assms(3)
    by (simp add: shared_inv_def weight_def connections_def case_prod_beta' connection_stats_def stats_def cong: map_cong)
qed

theorem connections_bounded_witness:
  "\<exists>s c. tcp_calls linux [Set_bind_options (bind_options_default\<lparr>bo_reuse_port := True\<rparr>), Start all_well [] [] 0,
       Accept_loop 0 Do_head, Accept_loop 1 Do_head, Accept_loop 0 (Accept_done True), Accept_loop 1 (Accept_done True)]
       (TcpServer 2 1) = Some s \<and> admitting s = Some c
     \<and> unat (active c) = (\<Sum>(k, a) \<leftarrow> accepts s. length (launched a) - over a) \<and> active c \<le> maximum c \<and> active c = 1"
proof -
  let ?xs = "[Set_bind_options (bind_options_default\<lparr>bo_reuse_port := True\<rparr>), Start all_well [] [] 0,
       Accept_loop 0 Do_head, Accept_loop 1 Do_head, Accept_loop 0 (Accept_done True), Accept_loop 1 (Accept_done True)]"
  have "map_option (\<lambda>s. (stopped s, map_option active (admitting s))) (tcp_calls linux ?xs (TcpServer 2 1)) = Some (False, Some 1)"
    by (simp add: tcp_eval set_bind_options_def accept_connection_def accept_launch_def admit_def try_enter_def ca_initial_def)
  then obtain s c where "tcp_calls linux ?xs (TcpServer 2 1) = Some s" "\<not> stopped s" "admitting s = Some c" "active c = 1"
    by auto
  then show ?thesis using connections_bounded [of linux ?xs 2 1 s c] by blast
qed

text \<open>C20: \<^verbatim>\<open>stop\<close> waits for sessions at most twice the grace, however many reactors there are and
  whether their sessions end or not: the deadline is one for all of them. Sessions are forced only
  when one has not ended by the grace, and then on every reactor.\<close>

theorem stop_wait_bounded:
  assumes "tcp_calls p xs (TcpServer n m) = Some s" and "\<not> stopped s" and "0 \<le> grace s"
  shows "\<exists>s'. stop p ends ends' s = Some s' \<and> 0 \<le> waited s' \<and> waited s' \<le> 2 * grace s
    \<and> (if \<forall>e \<in> set ends. \<exists>t. e = Some t \<and> t \<le> grace s then waited s' \<le> grace s \<and> forcing s' = forcing s
       else forcing s' = replicate (n_reactors s) True)"
proof -
  have "base_inv s" using reached_inv [OF assms(1)] by (simp add: tcp_inv_def)
  from stop_ok [OF this assms(2), of p ends ends'] obtain s' where s': "stop p ends ends' s = Some s'"
    "waited s' = snd (session_stage ends ends' (grace s) 0)" by blast
  obtain d t where 1: "sessions_end_within ends (grace s) 0 = (d, t)" by (cases "sessions_end_within ends (grace s) 0")
  obtain d' t' where 2: "sessions_end_within ends' (grace s) t = (d', t')" by (cases "sessions_end_within ends' (grace s) t")
  have t: "0 \<le> t" "t \<le> grace s" "d \<longleftrightarrow> (\<forall>e \<in> set ends. \<exists>u. e = Some u \<and> u \<le> grace s)"
    using wait_all_time [of ends "grace s" True 0 d t] 1 assms(3) by (auto simp: sessions_end_within_def)
  have "t \<le> t'" "t' \<le> t + grace s"
    using wait_all_time [of ends' "t + grace s" True t d' t'] 2 assms(3) by (auto simp: sessions_end_within_def)
  then show ?thesis
    using s' t 1 2 stop_forcing [OF s'(1) assms(2)] by (auto simp: session_stage_def)
qed

theorem stop_wait_bounded_witness:
  "\<exists>s s'. tcp_calls linux [Set_shutdown_grace 100, Start all_well [] [] 80] (TcpServer 2 0) = Some s
     \<and> stop linux [Some 7, None] [Some 150, None] s = Some s' \<and> waited s' \<le> 200 \<and> forcing s' = [True, True]"
proof -
  let ?xs = "[Set_shutdown_grace 100, Start all_well [] [] 80]"
  have "map_option (\<lambda>s. (stopped s, grace s, n_reactors s)) (tcp_calls linux ?xs (TcpServer 2 0))
      = Some (False, 100, 2)"
    by (simp add: tcp_eval set_shutdown_grace_def)
  then obtain s where s: "tcp_calls linux ?xs (TcpServer 2 0) = Some s" "\<not> stopped s" "grace s = 100" "n_reactors s = 2"
    by auto
  then show ?thesis
    using stop_wait_bounded [OF s(1,2), of "[Some 7, None]" "[Some 150, None]"] by (auto simp: numeral_2_eq_2)
qed

text \<open>C29: the loops are measured from \<^verbatim>\<open>start\<close> to \<^verbatim>\<open>stop\<close>. In every run of a server, until it is
  stopped the lag probe of a reactor runs if the server was started with the probes enabled and not
  otherwise; once it is stopped no probe records anything any more, whatever still happens on it; and
  no probe ever has more than one timer operation in flight.\<close>

theorem probes_follow_server:
  assumes "tcp_calls p xs (TcpServer n m) = Some s" and "k < n_reactors s"
  shows "waits (probes s ! k) \<le> 1 \<and>
    (if stopped s then Lag.started (probes s ! k) \<longrightarrow> lag_recorded ys (probes s ! k) = []
     else Lag.started (probes s ! k) = (started s \<and> lag_probe s) \<and> \<not> Lag.stopped (probes s ! k))"
proof -
  have "probe_inv (TcpServer n m)"
    by (simp add: probe_inv_def probe_ok_def TcpServer_def Let_def Lag.timer_inv_def lag_initial_def)
  then have "probe_inv s" using tcp_calls_probe_inv [OF TcpServer_inv _ assms(1)] by blast
  then have "probe_ok s (probes s ! k)" using assms(2) by (simp add: probe_inv_def)
  then show ?thesis using lag_run_stopped [of "probes s ! k" ys] by (auto simp: probe_ok_def Lag.timer_inv_def)
qed

theorem probes_follow_server_witness:
  "\<exists>s. tcp_calls linux [Enable_lag_probe, Start all_well [] [] 0] (TcpServer 2 0) = Some s
     \<and> Lag.started (probes s ! 1) \<and> waits (probes s ! 1) \<le> 1"
proof -
  let ?xs = "[Enable_lag_probe, Start all_well [] [] 0]"
  have "map_option (\<lambda>s. (n_reactors s, stopped s, started s, lag_probe s)) (tcp_calls linux ?xs (TcpServer 2 0))
      = Some (2, False, True, True)"
    by (simp add: tcp_eval enable_lag_probe_def)
  then obtain s where "tcp_calls linux ?xs (TcpServer 2 0) = Some s" "n_reactors s = 2" "\<not> stopped s" "started s" "lag_probe s"
    by auto
  then show ?thesis using probes_follow_server [of linux ?xs 2 0 s 1] by auto
qed

end
