(* ===== verification/Udp_Server.thy ===== *)
theory Udp_Server
  imports Prelude "HOL-Library.Sublist"
begin

text \<open>
  \<^verbatim>\<open>UdpServer\<close> of \<^verbatim>\<open>src/reactor_udp.h\<close>: \<^verbatim>\<open>start\<close> as the calls it makes on the socket in their
  order, with the sizing of the buffers; the thread of the loop, which survives callbacks
  that throw; the phases of teardown; the receive loop over the completions of its
  receives; and sending. What the system answers is an argument. A call that would block for ever, end the
  process or destroy roots under a loop that is not stopped is \<open>None\<close>. Access to the socket
  past the class (\<^verbatim>\<open>socket()\<close>) is not modelled.

  Shown: no order of the calls gets to \<open>None\<close>, the loop is claimed exactly while its thread
  runs it; a server that has opened its socket does not start again; every datagram before the
  first failed receive is delivered, in order, whatever the handler throws; the buffers get the
  first size of the halving sequence that the system accepts; \<^verbatim>\<open>send\<close> goes to the group and port
  of the start that opened the socket.
\<close>

section \<open>Options\<close>

record udp_options =
  uo_address :: string
  uo_reuse_address :: bool
  uo_reuse_port :: bool
  uo_multicast_group :: string
  uo_multicast_interface :: string
  uo_multicast_loop :: bool
  uo_multicast_ttl :: int
  uo_send_buffer :: size_t
  uo_recv_buffer :: size_t
  uo_max_datagram :: size_t

definition udp_options_default :: udp_options where
  "udp_options_default = \<lparr>uo_address = [], uo_reuse_address = True, uo_reuse_port = False, uo_multicast_group = [],
     uo_multicast_interface = [], uo_multicast_loop = False, uo_multicast_ttl = 0, uo_send_buffer = 0, uo_recv_buffer = 0,
     uo_max_datagram = 1500\<rparr>"

section \<open>Buffer sizes\<close>

text \<open>The loop of \<^verbatim>\<open>size_buffers\<close>, with the values it hands to the system, cast to \<^verbatim>\<open>int\<close>, and the one
  that was accepted.\<close>

function try_sizes :: "(c_int \<Rightarrow> bool) \<Rightarrow> size_t \<Rightarrow> c_int list \<times> c_int option" where
  "try_sizes acc t =
     (if 262144 \<le> t then
        let v = ucast t in
        if acc v then ([v], Some v) else (case try_sizes acc (t div 2) of (vs, r) \<Rightarrow> (v # vs, r))
      else ([], None))"
  by pat_completeness auto

termination
proof (relation "measure (\<lambda>(acc, t). unat t)")
  fix acc :: "c_int \<Rightarrow> bool" and t :: size_t
  assume "262144 \<le> t"
  then have "0 < unat t" by (simp add: word_le_nat_alt)
  then show "((acc, t div 2), (acc, t)) \<in> measure (\<lambda>(acc, t). unat t)"
    by (simp add: unat_div)
qed simp

declare try_sizes.simps [simp del]

definition size_buffers :: "(c_int \<Rightarrow> bool) \<Rightarrow> (c_int \<Rightarrow> bool) \<Rightarrow> udp_options \<Rightarrow> c_int option \<times> c_int option" where
  "size_buffers snd_ok rcv_ok opts =
     ((if uo_send_buffer opts \<noteq> 0 then snd (try_sizes snd_ok (uo_send_buffer opts)) else None),
      (if uo_recv_buffer opts \<noteq> 0 then snd (try_sizes rcv_ok (uo_recv_buffer opts)) else None))"

section \<open>The receive loop\<close>

text \<open>A completion of \<^verbatim>\<open>async_receive_from\<close>: a failure, or a datagram with its sender, of which the
  buffer takes what fits; and whether the handler throws on it.\<close>

datatype completion = Receive_error | Received "nat list" "string \<times> nat" bool

definition buffer_size :: "udp_options \<Rightarrow> nat" where
  "buffer_size opts = (if uo_max_datagram opts \<noteq> 0 then unat (uo_max_datagram opts) else 1500)"

text \<open>Whether the loop has ended, what the handler got, and how many exceptions were reported.\<close>

fun receive_loop :: "bool \<Rightarrow> nat \<Rightarrow> completion list \<Rightarrow> bool \<times> (nat list \<times> string \<times> nat) list \<times> nat" where
  "receive_loop on_datagram sz [] = (False, [], 0)"
| "receive_loop on_datagram sz (Receive_error # cs) = (True, [], 0)"
| "receive_loop on_datagram sz (Received bytes sender throws # cs) =
     (let buf = take sz bytes in
      case receive_loop on_datagram sz cs of (over, ds, reports) \<Rightarrow>
        if length buf \<noteq> 0 \<and> on_datagram
        then (over, (buf, sender) # ds, if throws then reports + 1 else reports)
        else (over, ds, reports))"

section \<open>The server\<close>

datatype udp_thread = No_thread | Running | Exited

record udp_server =
  udp_opts :: udp_options
  opened :: bool
  buffers :: "c_int option \<times> c_int option"
  group_endpoint :: "(string \<times> nat) option"
  udp_claims :: nat
  udp_thread :: udp_thread
  udp_io_stopped :: bool
  udp_closed :: bool
  roots :: nat
  reports :: nat

definition UdpServer :: udp_server where
  "UdpServer = \<lparr>udp_opts = udp_options_default, opened = False, buffers = (None, None), group_endpoint = None,
     udp_claims = 0, udp_thread = No_thread, udp_io_stopped = False, udp_closed = False, roots = 0, reports = 0\<rparr>"

datatype udp_call =
    Make_address string
  | Open_v4
  | Reuse_address
  | Reuse_port
  | Enable_loopback bool
  | Hops int
  | Make_address_v4 string
  | Outbound_interface string
  | Bind string nat
  | Join_group string
  | Join_group_on string string

definition address_calls :: "udp_options \<Rightarrow> udp_call list" where
  "address_calls opts = (if uo_address opts = [] then [] else [Make_address (uo_address opts)])"

definition option_calls :: "udp_options \<Rightarrow> udp_call list" where
  "option_calls opts = (if uo_reuse_address opts then [Reuse_address] else []) @ (if uo_reuse_port opts then [Reuse_port] else [])"

definition multicast_calls :: "udp_options \<Rightarrow> udp_call list" where
  "multicast_calls opts =
     (if uo_multicast_group opts = [] then []
      else [Enable_loopback (uo_multicast_loop opts)]
         @ (if uo_multicast_ttl opts > 0 then [Hops (uo_multicast_ttl opts)] else [])
         @ (if uo_multicast_interface opts = [] then []
            else [Make_address_v4 (uo_multicast_interface opts), Outbound_interface (uo_multicast_interface opts)]))"

definition join_calls :: "udp_options \<Rightarrow> udp_call list" where
  "join_calls opts =
     (let g = uo_multicast_group opts; i = uo_multicast_interface opts in
      if g = [] then []
      else Make_address_v4 g # (if i = [] then [Join_group g] else [Make_address_v4 i, Join_group_on g i]))"

text \<open>What the system decides during \<^verbatim>\<open>start\<close>.\<close>

record udp_env =
  call_fails :: "udp_call \<Rightarrow> exn option"
  snd_accepts :: "c_int \<Rightarrow> bool"
  rcv_accepts :: "c_int \<Rightarrow> bool"
  root_fails :: bool
  launch_fails :: bool

definition already_open :: exn where
  "already_open = System_error \<lparr>ec_value = Errno 1, ec_category = Other_category 1\<rparr>"

text \<open>The receive loop is spawned and the thread launched. Assigning to a \<^verbatim>\<open>std::thread\<close> that is
  joinable ends the process.\<close>

definition udp_launch :: "udp_env \<Rightarrow> udp_server \<Rightarrow> ((exn + unit) \<times> udp_server) option" where
  "udp_launch env s =
     (if root_fails env then Some (Inl Bad_alloc, s)
      else
        let s1 = s\<lparr>roots := roots s + 1, udp_claims := udp_claims s + 1\<rparr> in
        if launch_fails env
        then Some (Inl (System_error (system_error EAGAIN)), s1\<lparr>udp_claims := udp_claims s1 - 1, udp_io_stopped := True\<rparr>)
        else if udp_thread s1 \<noteq> No_thread then None
        else Some (Inr (), s1\<lparr>udp_thread := Running\<rparr>))"

text \<open>\<^verbatim>\<open>start\<close> with the socket open, and the whole of it.\<close>

definition udp_setup :: "udp_env \<Rightarrow> nat \<Rightarrow> udp_server \<Rightarrow> ((exn + unit) \<times> udp_server) option" where
  "udp_setup env prt s =
     (let opts = udp_opts s in
      case fst (perform_calls (call_fails env) (option_calls opts)) of
        Inl x \<Rightarrow> Some (Inl x, s)
      | Inr _ \<Rightarrow>
          let s1 = s\<lparr>buffers := size_buffers (snd_accepts env) (rcv_accepts env) opts\<rparr> in
          case fst (perform_calls (call_fails env)
                 (multicast_calls opts @ [Bind (uo_address opts) prt] @ join_calls opts)) of
            Inl x \<Rightarrow> Some (Inl x, s1)
          | Inr _ \<Rightarrow>
              udp_launch env
                (if uo_multicast_group opts = [] then s1
                 else s1\<lparr>group_endpoint := Some (uo_multicast_group opts, prt)\<rparr>))"

definition udp_start :: "udp_env \<Rightarrow> nat \<Rightarrow> udp_server \<Rightarrow> ((exn + unit) \<times> udp_server) option" where
  "udp_start env prt s =
     (case fst (perform_calls (call_fails env) (address_calls (udp_opts s))) of
        Inl x \<Rightarrow> Some (Inl x, s)
      | Inr _ \<Rightarrow>
          if opened s then Some (Inl already_open, s)
          else case call_fails env Open_v4 of
                 Some x \<Rightarrow> Some (Inl x, s)
               | None \<Rightarrow> udp_setup env prt (s\<lparr>opened := True\<rparr>))"

text \<open>The thread: an exception that leaves \<^verbatim>\<open>run()\<close> is reported and the loop runs on, unless it has
  been stopped; when \<^verbatim>\<open>run()\<close> returns the loop is released.\<close>

definition release_udp :: "udp_server \<Rightarrow> udp_server" where
  "release_udp s = s\<lparr>udp_thread := Exited, udp_claims := udp_claims s - 1\<rparr>"

definition callback_throws :: "udp_server \<Rightarrow> udp_server" where
  "callback_throws s =
     (if udp_thread s = Running
      then let s1 = s\<lparr>reports := reports s + 1\<rparr> in if udp_io_stopped s1 then release_udp s1 else s1
      else s)"

definition run_returns :: "udp_server \<Rightarrow> udp_server" where
  "run_returns s = (if udp_thread s = Running then release_udp (s\<lparr>udp_io_stopped := True\<rparr>) else s)"

text \<open>\<^verbatim>\<open>abort_all\<close> returns once the walk has run: inline if the loop is not claimed, else on the thread,
  which has to run. A stopped loop makes the thread leave.\<close>

definition udp_stop :: "udp_server \<Rightarrow> udp_server option" where
  "udp_stop s =
     (if udp_thread s = No_thread then Some s
      else if udp_claims s \<noteq> 0 \<and> udp_thread s \<noteq> Running then None
      else
        let s1 = run_returns (s\<lparr>udp_io_stopped := True\<rparr>)
        in Some (s1\<lparr>udp_thread := No_thread\<rparr>))"

definition udp_close :: "udp_server \<Rightarrow> udp_server option" where
  "udp_close s = map_option (\<lambda>s. s\<lparr>udp_closed := True\<rparr>) (udp_stop s)"

definition udp_destroy_roots :: "udp_server \<Rightarrow> udp_server option" where
  "udp_destroy_roots s =
     Option.bind (udp_close s) (\<lambda>s.
       if roots s \<noteq> 0 \<and> (\<not> udp_io_stopped s \<or> udp_thread s \<noteq> No_thread) then None
       else Some (s\<lparr>roots := 0\<rparr>))"

text \<open>\<^verbatim>\<open>send_to\<close> and \<^verbatim>\<open>send\<close>: \<open>sendto\<close> is what the socket does with a datagram, the error it reports, if any,
  and the number of bytes sent. The error is dropped. Without a group the destination is the
  endpoint that no start has set.\<close>

definition udp_send_to :: "('d \<Rightarrow> string \<times> nat \<Rightarrow> error_code option \<times> nat) \<Rightarrow> 'd \<Rightarrow> string \<times> nat \<Rightarrow> nat" where
  "udp_send_to sendto data dest = (case sendto data dest of (ec, n) \<Rightarrow> n)"

definition udp_send :: "('d \<Rightarrow> string \<times> nat \<Rightarrow> error_code option \<times> nat) \<Rightarrow> 'd \<Rightarrow> udp_server \<Rightarrow> nat" where
  "udp_send sendto data s =
     udp_send_to sendto data (case group_endpoint s of Some ep \<Rightarrow> ep | None \<Rightarrow> (''0.0.0.0'', 0))"

definition udp_set_options :: "udp_options \<Rightarrow> udp_server \<Rightarrow> udp_server" where
  "udp_set_options opts s = s\<lparr>udp_opts := opts\<rparr>"

datatype udp_op =
    Udp_set_options udp_options
  | Udp_start udp_env nat
  | Callback_throws
  | Receive_loop_ends
  | Run_returns
  | Udp_stop
  | Udp_close
  | Udp_destroy_roots

fun udp_step :: "udp_op \<Rightarrow> udp_server \<Rightarrow> udp_server option" where
  "udp_step (Udp_set_options opts) s = Some (udp_set_options opts s)"
| "udp_step (Udp_start env prt) s = map_option snd (udp_start env prt s)"
| "udp_step Callback_throws s = Some (callback_throws s)"
| "udp_step Receive_loop_ends s = Some (if udp_thread s = Running then s\<lparr>roots := roots s - 1\<rparr> else s)"
| "udp_step Run_returns s = Some (run_returns s)"
| "udp_step Udp_stop s = udp_stop s"
| "udp_step Udp_close s = udp_close s"
| "udp_step Udp_destroy_roots s = udp_destroy_roots s"

fun udp_steps :: "udp_op list \<Rightarrow> udp_server \<Rightarrow> udp_server option" where
  "udp_steps [] s = Some s"
| "udp_steps (x # xs) s = Option.bind (udp_step x s) (udp_steps xs)"

section \<open>Life of the server\<close>

definition udp_inv :: "udp_server \<Rightarrow> bool" where
  "udp_inv s \<longleftrightarrow> udp_claims s = (if udp_thread s = Running then 1 else 0)
     \<and> (roots s \<noteq> 0 \<or> udp_thread s \<noteq> No_thread \<longrightarrow> opened s)
     \<and> (roots s \<noteq> 0 \<and> udp_thread s \<noteq> Running \<longrightarrow> udp_io_stopped s)"

definition set_up :: "udp_server \<Rightarrow> bool" where
  "set_up s \<longleftrightarrow> udp_inv s \<and> opened s \<and> udp_thread s = No_thread"

lemma set_up_frame [simp]:
  "set_up (s\<lparr>buffers := b\<rparr>) = set_up s" "set_up (s\<lparr>group_endpoint := g\<rparr>) = set_up s"
  by (simp_all add: set_up_def udp_inv_def)

lemma udp_launch_ok: "set_up s \<Longrightarrow> \<exists>r s'. udp_launch env s = Some (r, s') \<and> udp_inv s' \<and> opened s'"
  by (auto simp: set_up_def udp_launch_def udp_inv_def Let_def)

lemma udp_setup_ok:
  assumes "set_up s"
  shows "\<exists>r s'. udp_setup env prt s = Some (r, s') \<and> udp_inv s' \<and> opened s'"
proof -
  have keep: "udp_inv s \<and> opened s" "udp_inv (s\<lparr>buffers := b\<rparr>)" for b
    using assms by (simp_all add: set_up_def udp_inv_def)
  obtain r1 where 1: "fst (perform_calls (call_fails env) (option_calls (udp_opts s))) = r1" by simp
  obtain r2 where 2: "fst (perform_calls (call_fails env)
      (multicast_calls (udp_opts s) @ [Bind (uo_address (udp_opts s)) prt] @ join_calls (udp_opts s))) = r2" by simp
  show ?thesis
    using keep udp_launch_ok assms unfolding udp_setup_def Let_def 1 2 by (cases r1; cases r2) simp_all
qed

lemma udp_start_ok:
  assumes inv: "udp_inv s"
  shows "\<exists>r s'. udp_start env prt s = Some (r, s') \<and> udp_inv s'"
proof (cases "opened s")
  case True
  then show ?thesis using inv by (auto simp: udp_start_def split: sum.splits)
next
  case False
  then have "set_up (s\<lparr>opened := True\<rparr>)" using inv by (auto simp: set_up_def udp_inv_def)
  from udp_setup_ok [OF this, of env prt] obtain r s' where "udp_setup env prt (s\<lparr>opened := True\<rparr>) = Some (r, s')" "udp_inv s'"
    by blast
  then show ?thesis
    using False inv by (cases "fst (perform_calls (call_fails env) (address_calls (udp_opts s)))"; cases "call_fails env Open_v4")
      (simp_all add: udp_start_def)
qed

lemma udp_stop_ok: "udp_inv s \<Longrightarrow> \<exists>s'. udp_stop s = Some s' \<and> udp_inv s' \<and> udp_thread s' = No_thread"
  by (cases "udp_thread s") (simp_all add: udp_stop_def udp_inv_def run_returns_def release_udp_def Let_def)

lemma udp_close_ok:
  assumes "udp_inv s"
  shows "\<exists>s'. udp_close s = Some s' \<and> udp_inv s' \<and> udp_thread s' = No_thread \<and> udp_closed s'"
proof -
  obtain s' where "udp_stop s = Some s'" "udp_inv s'" "udp_thread s' = No_thread" using udp_stop_ok [OF assms] by blast
  then show ?thesis by (simp add: udp_close_def udp_inv_def)
qed

lemma udp_destroy_roots_ok:
  assumes "udp_inv s"
  shows "\<exists>s'. udp_destroy_roots s = Some s' \<and> udp_inv s' \<and> udp_thread s' = No_thread \<and> udp_closed s' \<and> roots s' = 0"
proof -
  obtain s' where "udp_close s = Some s'" "udp_inv s'" "udp_thread s' = No_thread" "udp_closed s'"
    using udp_close_ok [OF assms] by blast
  then show ?thesis by (auto simp: udp_destroy_roots_def udp_inv_def)
qed

lemma udp_step_ok:
  assumes inv: "udp_inv s"
  shows "\<exists>s'. udp_step x s = Some s' \<and> udp_inv s'"
proof (cases x)
  case (Udp_start env prt)
  then show ?thesis using udp_start_ok [OF inv, of env prt] by auto
next
  case Udp_stop
  then show ?thesis using udp_stop_ok [OF inv] by auto
next
  case Udp_close
  then show ?thesis using udp_close_ok [OF inv] by auto
next
  case Udp_destroy_roots
  then show ?thesis using udp_destroy_roots_ok [OF inv] by auto
qed (use inv in \<open>auto simp: udp_inv_def udp_set_options_def callback_throws_def run_returns_def release_udp_def Let_def\<close>)

lemma udp_steps_ok:
  assumes "udp_inv s"
  shows "\<exists>s'. udp_steps xs s = Some s' \<and> udp_inv s'"
  using assms
proof (induction xs arbitrary: s)
  case (Cons x xs)
  then obtain s1 where "udp_step x s = Some s1" "udp_inv s1" using udp_step_ok by blast
  then show ?case using Cons.IH by simp
qed simp

lemma UdpServer_inv: "udp_inv UdpServer"
  by (simp add: udp_inv_def UdpServer_def)

text \<open>What has been opened stays open.\<close>

lemma opened_step: "udp_step x s = Some s' \<Longrightarrow> opened s \<Longrightarrow> opened s'"
  by (cases x) (auto simp: udp_start_def udp_stop_def udp_close_def udp_destroy_roots_def udp_set_options_def callback_throws_def
      run_returns_def release_udp_def Let_def split: sum.splits if_splits)

lemma opened_steps: "udp_steps xs s = Some s' \<Longrightarrow> opened s \<Longrightarrow> opened s'"
proof (induction xs arbitrary: s)
  case (Cons x xs)
  then show ?case by (cases "udp_step x s") (auto dest: opened_step)
qed simp

section \<open>The halving sequence\<close>

text \<open>The sizes tried for a target of \<open>n\<close> bytes: 46 halvings bring every \<^verbatim>\<open>size_t\<close> under 256 KiB.\<close>

definition halvings :: "nat \<Rightarrow> nat \<Rightarrow> nat list" where
  "halvings m n = filter (\<lambda>v. 262144 \<le> v) (map (\<lambda>k. n div 2 ^ k) [0..<m])"

definition candidates :: "size_t \<Rightarrow> c_int list" where
  "candidates t = map of_nat (halvings 46 (unat t))"

lemma halvings_Suc: "halvings (Suc m) n = (if 262144 \<le> n then n # halvings m (n div 2) else [])"
proof -
  have "map (\<lambda>k. n div 2 ^ k) [0..<Suc m] = n # map (\<lambda>k. n div 2 div 2 ^ k) [0..<m]"
    by (simp add: upt_conv_Cons map_Suc_upt [symmetric] div_mult2_eq comp_def del: upt_Suc)
  then have "halvings (Suc m) n = (if 262144 \<le> n then [n] else []) @ halvings m (n div 2)"
    by (simp add: halvings_def)
  moreover have "halvings m (n div 2) = []" if "n < 262144"
  proof -
    have "n div 2 div 2 ^ k < 262144" for k
      using that by (meson div_le_dividend le_less_trans)
    then show ?thesis by (simp add: halvings_def filter_empty_conv not_le)
  qed
  ultimately show ?thesis by simp
qed

lemma halvings_enough: "n < 2 ^ 64 \<Longrightarrow> halvings 47 n = halvings 46 n"
proof -
  assume "n < 2 ^ 64"
  then have "n div 2 ^ 46 < 262144" by (simp add: div_less_iff_less_mult)
  moreover have "[0..<47] = [0..<46] @ [46]" by (simp add: numeral_eq_Suc)
  ultimately show ?thesis by (simp add: halvings_def)
qed

lemma candidates_step: "candidates t = (if 262144 \<le> t then ucast t # candidates (t div 2) else [])"
proof -
  have "halvings 46 (unat t) = halvings (Suc 46) (unat t)"
    using halvings_enough [of "unat t"] unat_bound [of t] by simp
  also have "\<dots> = (if 262144 \<le> unat t then unat t # halvings 46 (unat t div 2) else [])"
    by (rule halvings_Suc)
  finally show ?thesis
    by (simp add: candidates_def word_le_nat_alt unat_div)
qed

lemma candidates_length: "length (candidates t) \<le> 46"
  using length_filter_le [of "\<lambda>v. 262144 \<le> v" "map (\<lambda>k. unat t div 2 ^ k) [0..<46]"]
  by (simp add: candidates_def halvings_def)

lemma try_sizes_spec:
  "try_sizes acc t = (case find acc (candidates t) of
     Some v \<Rightarrow> (takeWhile (\<lambda>u. \<not> acc u) (candidates t) @ [v], Some v) | None \<Rightarrow> (candidates t, None))"
proof (induction acc t rule: try_sizes.induct)
  case (1 acc t)
  show ?case
  proof (cases "262144 \<le> t \<and> \<not> acc (ucast t)")
    case True
    then have "try_sizes acc t = (case try_sizes acc (t div 2) of (vs, r) \<Rightarrow> (ucast t # vs, r))"
      by (subst try_sizes.simps) (simp add: Let_def)
    moreover have "candidates t = ucast t # candidates (t div 2)"
      using True by (subst candidates_step) simp
    ultimately show ?thesis
      using 1 True by (auto split: option.splits)
  next
    case False
    then show ?thesis
      by (subst try_sizes.simps, subst (1 2 3) candidates_step) (auto simp: Let_def)
  qed
qed

lemma small_target: "unat t < 262144 \<Longrightarrow> candidates t = []"
  by (subst candidates_step) (simp add: word_le_nat_alt)

section \<open>Properties\<close>


text \<open>C30: a UDP server starts once. After a \<^verbatim>\<open>start\<close> that returned, and also after one that failed
  with the socket already open (in an option, the bind or the join), every later \<^verbatim>\<open>start\<close> throws
  and changes nothing, whatever was called in between: \<^verbatim>\<open>already_open\<close>, unless the address of the
  options is not one.\<close>

theorem udp_starts_once:
  assumes "udp_steps xs UdpServer = Some s" and "udp_start env prt s = Some (r, s1)" and "\<not> isl r \<or> opened s1"
    and "udp_steps ys s1 = Some s2"
  shows "\<exists>x. udp_start env' prt' s2 = Some (Inl x, s2)
    \<and> (x = already_open \<or> uo_address (udp_opts s2) \<noteq> [] \<and> call_fails env' (Make_address (uo_address (udp_opts s2))) = Some x)"
proof -
  have "opened s1"
  proof (cases r)
    case (Inr u)
    then show ?thesis
      using assms(2) by (auto simp: udp_start_def udp_setup_def udp_launch_def Let_def split: sum.splits option.splits if_splits)
  qed (use assms(3) in simp)
  then have "opened s2" using opened_steps assms(4) by blast
  then show ?thesis
    by (auto simp: udp_start_def address_calls_def split: sum.splits option.splits)
qed

theorem udp_starts_once_witness:
  "\<exists>s1 x. udp_start \<lparr>call_fails = \<lambda>c. if c = Bind [] 53 then Some (System_error (system_error EADDRINUSE)) else None,
      snd_accepts = \<lambda>_. True, rcv_accepts = \<lambda>_. True, root_fails = False, launch_fails = False\<rparr> 53 UdpServer
        = Some (Inl (System_error (system_error EADDRINUSE)), s1)
    \<and> udp_start \<lparr>call_fails = \<lambda>_. None, snd_accepts = \<lambda>_. True, rcv_accepts = \<lambda>_. True, root_fails = False, launch_fails = False\<rparr>
        5353 s1 = Some (Inl x, s1)"
proof -
  let ?e = "\<lparr>call_fails = \<lambda>c. if c = Bind [] 53 then Some (System_error (system_error EADDRINUSE)) else None,
      snd_accepts = \<lambda>_. True, rcv_accepts = \<lambda>_. True, root_fails = False, launch_fails = False\<rparr>"
  let ?s1 = "UdpServer\<lparr>opened := True\<rparr>"
  have 1: "udp_start ?e 53 UdpServer = Some (Inl (System_error (system_error EADDRINUSE)), ?s1)"
    by (simp add: udp_start_def udp_setup_def address_calls_def option_calls_def multicast_calls_def size_buffers_def
        UdpServer_def udp_options_default_def Let_def)
  have "udp_steps [] UdpServer = Some UdpServer" "udp_steps [] ?s1 = Some ?s1" by simp_all
  then show ?thesis
    using 1 udp_starts_once [of "[]" UdpServer ?e 53 "Inl (System_error (system_error EADDRINUSE))" ?s1 "[]" ?s1] by auto
qed

fun datagram :: "nat \<Rightarrow> completion \<Rightarrow> (nat list \<times> string \<times> nat) list" where
  "datagram sz (Received bytes sender throws) = (if bytes = [] then [] else [(take sz bytes, sender)])"
| "datagram sz Receive_error = []"

fun throwing :: "completion \<Rightarrow> bool" where
  "throwing (Received bytes sender throws) = (bytes \<noteq> [] \<and> throws)"
| "throwing Receive_error = False"

text \<open>C23: what is received is delivered. The handler gets, in order, every datagram that is not empty
  and comes before the first failed receive, cut to the size of the buffer; what it throws is
  reported, once each, and only a failed receive ends the loop.\<close>

theorem receive_delivers:
  "receive_loop True (buffer_size opts) cs =
     (let before = takeWhile (\<lambda>c. c \<noteq> Receive_error) cs in
        (Receive_error \<in> set cs, concat (map (datagram (buffer_size opts)) before), length (filter throwing before)))"
proof -
  have pos: "0 < buffer_size opts" by (auto simp: buffer_size_def unat_gt_0)
  show ?thesis
  proof (induction cs)
    case (Cons c cs)
    then show ?case using pos by (cases c) (auto simp: Let_def)
  qed simp
qed

text \<open>C31: the buffers. A target is tried in halves of itself down to 256 KiB, at most 46 of them, and the
  buffer gets the first one the system accepts, if any.\<close>

theorem buffers_sized:
  "snd (try_sizes acc t) = find acc (candidates t)
     \<and> prefix (fst (try_sizes acc t)) (candidates t) \<and> length (fst (try_sizes acc t)) \<le> 46"
proof -
  have "find acc vs = Some v \<Longrightarrow> prefix (takeWhile (\<lambda>u. \<not> acc u) vs @ [v]) vs" for vs v
    by (induction vs) (auto split: if_splits)
  then have p: "prefix (fst (try_sizes acc t)) (candidates t)"
    by (auto simp: try_sizes_spec split: option.splits)
  then have "length (fst (try_sizes acc t)) \<le> 46"
    using prefix_length_le candidates_length order_trans by blast
  then show ?thesis using p by (auto simp: try_sizes_spec split: option.splits)
qed

text \<open>Targets under 256 KiB are not tried at all, so the buffer keeps its default; and a target from
  \<open>2^31\<close> on does not fit an \<^verbatim>\<open>int\<close>.\<close>

lemma small_target_ignored: "unat t < 262144 \<Longrightarrow> try_sizes acc t = ([], None)"
  by (simp add: try_sizes_spec small_target)

lemma large_target_wraps: "hd (fst (try_sizes acc 2147483648)) = - 2147483648"
  by (subst try_sizes.simps) (simp add: Let_def word_le_nat_alt split: prod.splits)

section \<open>Sending\<close>

lemma udp_start_group:
  assumes "udp_start env prt s = Some (Inr u, s')"
  shows "opened s'" and "group_endpoint s' =
    (if uo_multicast_group (udp_opts s) = [] then group_endpoint s else Some (uo_multicast_group (udp_opts s), prt))"
proof -
  let ?s = "s\<lparr>opened := True\<rparr>" and ?b = "size_buffers (snd_accepts env) (rcv_accepts env) (udp_opts s)"
  have "udp_setup env prt ?s = Some (Inr u, s')"
    using assms by (auto simp: udp_start_def split: sum.splits if_splits option.splits)
  then have "udp_launch env (if uo_multicast_group (udp_opts s) = [] then ?s\<lparr>buffers := ?b\<rparr>
      else ?s\<lparr>buffers := ?b, group_endpoint := Some (uo_multicast_group (udp_opts s), prt)\<rparr>) = Some (Inr u, s')"
    (is "udp_launch env ?t = _")
    by (cases "uo_multicast_group (udp_opts s) = []") (simp_all add: udp_setup_def Let_def split: sum.splits)
  then have "group_endpoint s' = group_endpoint ?t" "opened s' = opened ?t"
    by (auto simp: udp_launch_def Let_def split: if_splits)
  then show "opened s'" "group_endpoint s' =
      (if uo_multicast_group (udp_opts s) = [] then group_endpoint s else Some (uo_multicast_group (udp_opts s), prt))"
    by simp_all
qed

lemma group_step:
  assumes "udp_step x s = Some s'" and "opened s"
  shows "group_endpoint s' = group_endpoint s"
  using assms by (cases x) (auto simp: udp_set_options_def udp_start_def callback_throws_def run_returns_def release_udp_def
      udp_close_def udp_destroy_roots_def udp_stop_def Let_def split: if_splits sum.splits)

lemma group_steps: "udp_steps xs s = Some s' \<Longrightarrow> opened s \<Longrightarrow> group_endpoint s' = group_endpoint s"
proof (induction xs arbitrary: s)
  case (Cons x xs)
  then show ?case using opened_step [of x s] group_step [of x s] by (cases "udp_step x s") auto
qed simp

text \<open>Datagrams to the group. Once a start with a multicast group has returned, \<^verbatim>\<open>send\<close> goes to that
  group at the port of the start, whatever calls follow, options set and starts tried again
  included; it returns what the socket reports as sent and drops the error.\<close>

theorem send_reaches_group:
  assumes "udp_start env prt s = Some (Inr u, s1)" and "uo_multicast_group (udp_opts s) \<noteq> []"
    and "udp_steps xs s1 = Some s2"
  shows "udp_send sendto data s2 = snd (sendto data (uo_multicast_group (udp_opts s), prt))"
  using udp_start_group [OF assms(1)] group_steps [OF assms(3)] assms(2)
  by (simp add: udp_send_def udp_send_to_def case_prod_beta)

end
