(* ===== verification/Events.thy ===== *)
theory Events
  imports Lag
begin

text \<open>
  \<^verbatim>\<open>PeriodicTimer\<close> and \<^verbatim>\<open>Signal\<close> of \<^verbatim>\<open>src/reactor_events.h\<close>. The calls of a timer post to
  its loop; the loop runs what is posted in order, between the completions of the
  \<^verbatim>\<open>steady_timer\<close>. A completion that is already queued can no longer be cancelled, which
  is what \<^verbatim>\<open>generation\<close> is for. Asio's part, as documented: \<^verbatim>\<open>cancel\<close> and
  \<^verbatim>\<open>expires_after\<close> complete the pending waits with an error, and a wait that has expired
  completes without. Seconds are the values of a \<^verbatim>\<open>double\<close> as rationals, times are in
  nanoseconds.

  Shown: every run of a timer, whatever calls come from whatever threads, is one of an
  automaton in which an arming fires at most once, not before it is due and not after a
  later arming or a stop has run; a repeating timer goes on through callbacks that throw.
  For \<^verbatim>\<open>Signal\<close>, at every interleaving of senders with the loop: one run is scheduled at
  most, and none is lost; but a post that throws leaves the signal dead.
\<close>

section \<open>PeriodicTimer\<close>

datatype loop_item = Do_arm rat | Do_again | Do_cancel | Completed u64 bool

text \<open>\<open>pending_waits\<close> are the pending waits by the generation they were admitted with, \<open>items\<close> is what
  the loop has to run; \<open>Completed g ec\<close> is the handler of a wait, \<open>ec\<close> whether with an error.\<close>

record timer =
  repeat_seconds :: rat
  generation :: u64
  has_callback :: bool
  expiry :: int
  pending_waits :: "u64 list"
  items :: "loop_item list"
  clock :: int

definition timer_initial :: timer where
  "timer_initial = \<lparr>repeat_seconds = 0, generation = 0, has_callback = False, expiry = 0,
     pending_waits = [], items = [], clock = 0\<rparr>"

text \<open>What happens on the loop: an arming with when it is due, a cancellation, a call of the
  callback, an exception that leaves the handler.\<close>

datatype timer_event = Armed int | Cancelled | Fired int | Rethrown

text \<open>\<^verbatim>\<open>duration_cast\<close> of a \<^verbatim>\<open>double\<close> truncates.\<close>

definition to_ns :: "rat \<Rightarrow> int" where
  "to_ns s = (if s < 0 then - \<lfloor>double_round (- s * 10 ^ 9)\<rfloor> else \<lfloor>double_round (s * 10 ^ 9)\<rfloor>)"

definition abort_waits :: "timer \<Rightarrow> timer" where
  "abort_waits s = s\<lparr>items := items s @ map (\<lambda>g. Completed g True) (pending_waits s), pending_waits := []\<rparr>"

definition timer_cancel :: "timer \<Rightarrow> timer \<times> timer_event list" where
  "timer_cancel s = (abort_waits (s\<lparr>generation := generation s + 1\<rparr>), [Cancelled])"

definition timer_arm :: "rat \<Rightarrow> timer \<Rightarrow> timer \<times> timer_event list" where
  "timer_arm secs s =
     (let s1 = s\<lparr>generation := generation s + 1\<rparr>;
          s2 = (abort_waits s1)\<lparr>expiry := clock s1 + to_ns secs\<rparr>
      in (s2\<lparr>pending_waits := pending_waits s2 @ [generation s1]\<rparr>, [Armed (expiry s2)]))"

text \<open>What any thread can do at any time. \<^verbatim>\<open>start\<close> is a store and a post, between which other
  threads can move.\<close>

datatype timer_call = Set_callback bool | Set_repeat rat | Post loop_item | Time_passes nat

fun timer_call_step :: "timer_call \<Rightarrow> timer \<Rightarrow> timer" where
  "timer_call_step (Set_callback b) s = s\<lparr>has_callback := b\<rparr>"
| "timer_call_step (Set_repeat r) s = s\<lparr>repeat_seconds := r\<rparr>"
| "timer_call_step (Post x) s = (case x of Completed g ec \<Rightarrow> s | _ \<Rightarrow> s\<lparr>items := items s @ [x]\<rparr>)"
| "timer_call_step (Time_passes d) s = s\<lparr>clock := clock s + int d\<rparr>"

definition timer_start :: "rat \<Rightarrow> rat \<Rightarrow> timer_call list" where
  "timer_start secs r = [Set_repeat r, Post (Do_arm secs)]"

definition timer_again :: "timer_call list" where
  "timer_again = [Post Do_again]"

definition timer_stop :: "timer_call list" where
  "timer_stop = [Post Do_cancel]"

text \<open>The handler of a wait. \<open>calls\<close> is what the callback, and other threads meanwhile, do;
  \<open>throws\<close> whether it ends in an exception.\<close>

definition on_wait :: "u64 \<Rightarrow> bool \<Rightarrow> timer_call list \<Rightarrow> bool \<Rightarrow> timer \<Rightarrow> timer \<times> timer_event list" where
  "on_wait admitted ec calls throws s =
     (if ec \<or> admitted \<noteq> generation s then (s, [])
      else
        let failure = has_callback s \<and> throws;
            s1 = (if has_callback s then fold timer_call_step calls s else s);
            r = repeat_seconds s1;
            (s2, es) = (if r > 0 \<and> admitted = generation s1 then timer_arm r s1 else (s1, []))
        in (s2, Fired (clock s) # es @ (if failure then [Rethrown] else [])))"

fun run_item :: "loop_item \<Rightarrow> timer_call list \<Rightarrow> bool \<Rightarrow> timer \<Rightarrow> timer \<times> timer_event list" where
  "run_item (Do_arm secs) calls throws s = timer_arm secs s"
| "run_item Do_again calls throws s =
     (let r = repeat_seconds s in if r > 0 then timer_arm r s else timer_cancel s)"
| "run_item Do_cancel calls throws s = timer_cancel s"
| "run_item (Completed g ec) calls throws s = on_wait g ec calls throws s"

datatype timer_op = Call timer_call | Expire | Run_next "timer_call list" bool

fun timer_step :: "timer_op \<Rightarrow> timer \<Rightarrow> timer \<times> timer_event list" where
  "timer_step (Call x) s = (timer_call_step x s, [])"
| "timer_step Expire s =
     (if expiry s \<le> clock s
      then (s\<lparr>items := items s @ map (\<lambda>g. Completed g False) (pending_waits s), pending_waits := []\<rparr>, []) else (s, []))"
| "timer_step (Run_next calls throws) s =
     (case items s of [] \<Rightarrow> (s, []) | x # xs \<Rightarrow> run_item x calls throws (s\<lparr>items := xs\<rparr>))"

fun timer_run :: "timer_op list \<Rightarrow> timer \<Rightarrow> timer \<times> timer_event list" where
  "timer_run [] s = (s, [])"
| "timer_run (x # xs) s =
     (case timer_step x s of (s1, es) \<Rightarrow> case timer_run xs s1 of (s2, fs) \<Rightarrow> (s2, es @ fs))"

section \<open>Signal\<close>

text \<open>\<open>posted\<close> counts the handlers in the loop's queue. A thread that sends stands between its
  \<^verbatim>\<open>exchange\<close> and its \<^verbatim>\<open>post\<close> in \<open>Posting\<close>, the loop between the \<^verbatim>\<open>store\<close> of its handler and the
  callback in \<open>Calling\<close>. The choice of a step: whether an idle thread sends, and whether
  \<^verbatim>\<open>post\<close> finds the memory it needs.\<close>

record signal =
  signal_pending :: bool
  posted :: nat
  signal_callback :: bool

definition signal_initial :: signal where
  "signal_initial = \<lparr>signal_pending = False, posted = 0, signal_callback = False\<rparr>"

definition signal_set_callback :: "bool \<Rightarrow> signal \<Rightarrow> signal" where
  "signal_set_callback cb s = s\<lparr>signal_callback := cb\<rparr>"

datatype signal_pc = Idle | Posting | Loop | Calling

datatype signal_event = Sent | Post_failed | Called

fun signal_step :: "bool \<Rightarrow> signal \<Rightarrow> signal_pc \<Rightarrow> signal \<times> signal_pc \<times> signal_event list" where
  "signal_step c s Idle =
     (if \<not> c then (s, Idle, [])
      else if signal_pending s then (s, Idle, [Sent])
      else (s\<lparr>signal_pending := True\<rparr>, Posting, [Sent]))"
| "signal_step c s Posting =
     (if c then (s\<lparr>posted := posted s + 1\<rparr>, Idle, []) else (s, Idle, [Post_failed]))"
| "signal_step c s Loop =
     (if posted s = 0 then (s, Loop, [])
      else (s\<lparr>posted := posted s - 1, signal_pending := False\<rparr>, Calling, []))"
| "signal_step c s Calling = (s, Loop, if signal_callback s then [Called] else [])"

section \<open>The automaton of a timer\<close>

text \<open>The abstract timer holds when it is due, if it is armed.\<close>

fun spec_step :: "timer_event \<Rightarrow> int option \<Rightarrow> int option option" where
  "spec_step (Armed d) a = Some (Some d)"
| "spec_step Cancelled a = Some None"
| "spec_step (Fired t) a = (case a of Some d \<Rightarrow> if d \<le> t then Some None else None | None \<Rightarrow> None)"
| "spec_step Rethrown a = Some a"

fun spec_run :: "timer_event list \<Rightarrow> int option \<Rightarrow> int option option" where
  "spec_run [] a = Some a"
| "spec_run (e # es) a = Option.bind (spec_step e a) (spec_run es)"

lemma spec_run_append: "spec_run (es @ fs) a = Option.bind (spec_run es a) (spec_run fs)"
proof (induction es arbitrary: a)
  case (Cons e es)
  then show ?case by (cases "spec_step e a") simp_all
qed simp

text \<open>A completion that can still fire is queued only for the current arming, and only when it is
  due. \<open>k\<close> counts the generations.\<close>

definition live :: "timer \<Rightarrow> loop_item list" where
  "live s = filter (\<lambda>x. x = Completed (generation s) False) (items s)"

fun admitted_by :: "nat \<Rightarrow> loop_item \<Rightarrow> bool" where
  "admitted_by k (Completed g ec) = (\<exists>j \<le> k. g = of_nat j)"
| "admitted_by k x = True"

lemma admitted_by_mono: "admitted_by k x \<Longrightarrow> admitted_by (Suc k) x"
  by (cases x) (auto intro: le_SucI)

lemma admitted_by_current: "j \<le> k \<Longrightarrow> admitted_by k (Completed (of_nat j) ec)"
  by auto

definition timer_inv :: "nat \<Rightarrow> int option \<Rightarrow> timer \<Rightarrow> bool" where
  "timer_inv k a s \<longleftrightarrow> generation s = of_nat k
     \<and> (\<forall>x \<in> set (items s). admitted_by k x)
     \<and> (case a of
          None \<Rightarrow> pending_waits s = [] \<and> live s = []
        | Some d \<Rightarrow> pending_waits s = [generation s] \<and> live s = [] \<and> d = expiry s
            \<or> pending_waits s = [] \<and> length (live s) = 1 \<and> d \<le> clock s)"

lemma timer_initial_inv: "timer_inv 0 None timer_initial"
  by (simp add: timer_inv_def timer_initial_def live_def)

lemma timer_call_inv: "timer_inv k a s \<Longrightarrow> timer_inv k a (timer_call_step x s)"
  by (cases x) (auto simp: timer_inv_def live_def split: option.splits loop_item.splits)

lemma timer_calls_inv: "timer_inv k a s \<Longrightarrow> timer_inv k a (fold timer_call_step xs s)"
  by (induction xs arbitrary: s) (simp_all add: timer_call_inv)

lemma timer_call_frame: "generation (timer_call_step x s) = generation s" "clock s \<le> clock (timer_call_step x s)"
  by (cases x; simp split: loop_item.splits)+

lemma timer_calls_frame:
  "generation (fold timer_call_step xs s) = generation s" "clock s \<le> clock (fold timer_call_step xs s)"
  by (induction xs arbitrary: s) (auto simp: timer_call_frame intro: order_trans [OF timer_call_frame(2)])

lemma fresh_generation:
  assumes "k + 1 < 2 ^ 64" and "j \<le> k"
  shows "(of_nat j :: u64) \<noteq> of_nat k + 1"
proof
  assume "(of_nat j :: u64) = of_nat k + 1"
  then have "(of_nat j :: u64) = of_nat (k + 1)" by simp
  then have "unat (of_nat j :: u64) = unat (of_nat (k + 1) :: u64)" by simp
  then show False using assms by (simp add: unat_of_nat take_bit_nat_eq_self del: of_nat_add of_nat_Suc)
qed

text \<open>A new generation makes every queued completion stale.\<close>

lemma next_generation:
  assumes "timer_inv k a s" and "k + 1 < 2 ^ 64"
  shows "timer_inv (k + 1) None (abort_waits (s\<lparr>generation := generation s + 1\<rparr>))"
proof -
  have "Completed (of_nat k + 1) False \<notin> set (items s)"
    using assms(1) fresh_generation [OF assms(2)] by (fastforce simp: timer_inv_def)
  then have "live (abort_waits (s\<lparr>generation := generation s + 1\<rparr>)) = []"
    using assms(1) by (auto simp: live_def abort_waits_def timer_inv_def filter_empty_conv)
  moreover have "admitted_by (k + 1) x" if "x \<in> set (items (abort_waits (s\<lparr>generation := generation s + 1\<rparr>)))" for x
    using assms(1) that by (auto simp: abort_waits_def timer_inv_def admitted_by_current simp del: admitted_by.simps split: option.splits
        intro: admitted_by_mono)
  ultimately show ?thesis
    using assms(1) by (simp add: timer_inv_def) (simp add: abort_waits_def add.commute)
qed

lemma timer_cancel_ok:
  assumes "timer_inv k a s" and "k + 1 < 2 ^ 64" and "timer_cancel s = (s', es)"
  shows "\<exists>a'. spec_run es a = Some a' \<and> timer_inv (k + 1) a' s'"
  using assms next_generation [OF assms(1,2)] by (auto simp: timer_cancel_def)

lemma armed_inv:
  "timer_inv k None u \<Longrightarrow> timer_inv k (Some e) (u\<lparr>expiry := e, pending_waits := [generation u]\<rparr>)"
  by (auto simp: timer_inv_def live_def)

lemma timer_arm_ok:
  assumes "timer_inv k a s" and "k + 1 < 2 ^ 64" and "timer_arm secs s = (s', es)"
  shows "\<exists>a'. spec_run es a = Some a' \<and> timer_inv (k + 1) a' s'"
proof -
  let ?u = "abort_waits (s\<lparr>generation := generation s + 1\<rparr>)" and ?e = "clock s + to_ns secs"
  have "timer_inv (k + 1) (Some ?e) (?u\<lparr>expiry := ?e, pending_waits := [generation ?u]\<rparr>)"
    using next_generation [OF assms(1,2)] by (rule armed_inv)
  moreover have "s' = ?u\<lparr>expiry := ?e, pending_waits := [generation ?u]\<rparr>" "es = [Armed ?e]"
    using assms(3) by (auto simp: timer_arm_def Let_def abort_waits_def)
  ultimately show ?thesis by simp
qed

lemma on_wait_ok:
  assumes inv: "timer_inv k a s" and small: "k + 1 < 2 ^ 64" and item: "items s = Completed g ec # xs"
    and "on_wait g ec calls throws (s\<lparr>items := xs\<rparr>) = (s', es)"
  shows "\<exists>a' k'. spec_run es a = Some a' \<and> timer_inv k' a' s' \<and> k' \<le> k + 1"
proof (cases "ec \<or> g \<noteq> generation s")
  case True
  then have "live (s\<lparr>items := xs\<rparr>) = live s" using item by (auto simp: live_def)
  then have "timer_inv k a (s\<lparr>items := xs\<rparr>)" using inv item by (auto simp: timer_inv_def split: option.splits)
  then show ?thesis using assms(4) True by (auto simp: on_wait_def intro: exI [of _ k])
next
  case False
  then have live: "live s = Completed g ec # live (s\<lparr>items := xs\<rparr>)" using item by (simp add: live_def)
  then obtain d where a: "a = Some d" and d: "d \<le> clock s" and none: "live (s\<lparr>items := xs\<rparr>) = []" "pending_waits s = []"
    using inv by (cases a) (auto simp: timer_inv_def)
  define s1 where "s1 = (if has_callback s then fold timer_call_step calls (s\<lparr>items := xs\<rparr>) else s\<lparr>items := xs\<rparr>)"
  have "timer_inv k None (s\<lparr>items := xs\<rparr>)" using inv item none by (auto simp: timer_inv_def)
  then have i1: "timer_inv k None s1" unfolding s1_def using timer_calls_inv by simp
  have fired: "spec_run (Fired (clock s) # fs) a = spec_run fs None" for fs using a d by simp
  obtain s2 fs where 2: "(if repeat_seconds s1 > 0 \<and> g = generation s1 then timer_arm (repeat_seconds s1) s1 else (s1, [])) = (s2, fs)"
    by (cases "if repeat_seconds s1 > 0 \<and> g = generation s1 then timer_arm (repeat_seconds s1) s1 else (s1, [])")
  then obtain a' k' where ok: "spec_run fs None = Some a'" "timer_inv k' a' s2" "k' \<le> k + 1"
    using timer_arm_ok [OF i1 small, of "repeat_seconds s1" s2 fs] i1 by (auto split: if_splits)
  have "s' = s2 \<and> es = Fired (clock s) # fs @ (if has_callback s \<and> throws then [Rethrown] else [])"
  proof -
    have "on_wait g ec calls throws (s\<lparr>items := xs\<rparr>) =
        (let (s2, fs) = (if repeat_seconds s1 > 0 \<and> g = generation s1 then timer_arm (repeat_seconds s1) s1 else (s1, []))
         in (s2, Fired (clock s) # fs @ (if has_callback s \<and> throws then [Rethrown] else [])))"
      using False unfolding on_wait_def Let_def s1_def by simp
    then show ?thesis using assms(4) unfolding 2 by simp
  qed
  moreover from this have "spec_run es a = Some a'" using fired ok(1) by (simp add: spec_run_append)
  ultimately show ?thesis using ok by auto
qed

lemma timer_step_ok:
  assumes inv: "timer_inv k a s" and small: "k + 1 < 2 ^ 64" and st: "timer_step x s = (s', es)"
  shows "\<exists>a' k'. spec_run es a = Some a' \<and> timer_inv k' a' s' \<and> k' \<le> k + 1"
proof (cases x)
  case (Call c)
  then show ?thesis using timer_call_inv [OF inv] st by (auto intro: exI [of _ k])
next
  case Expire
  then have "spec_run es a = Some a" and "timer_inv k a s'"
    using inv st by (auto simp: timer_inv_def live_def admitted_by_current simp del: admitted_by.simps
        split: if_splits option.splits)
  then show ?thesis by (auto intro: exI [of _ k])
next
  case (Run_next calls throws)
  show ?thesis
  proof (cases "items s")
    case Nil
    then show ?thesis using inv st Run_next by (auto intro: exI [of _ k])
  next
    case (Cons y ys)
    then have run: "run_item y calls throws (s\<lparr>items := ys\<rparr>) = (s', es)" using st Run_next by simp
    show ?thesis
    proof (cases "\<exists>g ec. y = Completed g ec")
      case True
      then show ?thesis using on_wait_ok [OF inv small] Cons run by auto
    next
      case False
      then have "live (s\<lparr>items := ys\<rparr>) = live s" using Cons by (auto simp: live_def)
      then have i: "timer_inv k a (s\<lparr>items := ys\<rparr>)" using inv Cons by (auto simp: timer_inv_def split: option.splits)
      have "\<exists>a'. spec_run es a = Some a' \<and> timer_inv (k + 1) a' s'"
        using run False timer_arm_ok [OF i small] timer_cancel_ok [OF i small]
        by (cases y) (auto simp: Let_def split: if_splits)
      then show ?thesis by blast
    qed
  qed
qed

lemma timer_run_ok:
  assumes "timer_inv k a s" and "k + length xs < 2 ^ 64" and "timer_run xs s = (s', es)"
  shows "spec_run es a \<noteq> None"
  using assms
proof (induction xs arbitrary: k a s s' es)
  case (Cons x xs)
  obtain s1 fs where 1: "timer_step x s = (s1, fs)" by (cases "timer_step x s")
  obtain s2 gs where 2: "timer_run xs s1 = (s2, gs)" by (cases "timer_run xs s1")
  have "k + 1 < 2 ^ 64" using Cons.prems(2) by simp
  then obtain a' k' where ok: "spec_run fs a = Some a'" "timer_inv k' a' s1" "k' \<le> k + 1"
    using timer_step_ok [OF Cons.prems(1) _ 1] by blast
  have "spec_run gs a' \<noteq> None" using Cons.IH [OF ok(2) _ 2] ok(3) Cons.prems(2) by simp
  then show ?case using Cons.prems(3) 1 2 ok(1) by (auto simp: spec_run_append)
qed simp

section \<open>A timer left to itself\<close>

text \<open>A round: time passes, the wait completes, the loop runs its handler.\<close>

definition one_round :: "nat \<times> bool \<Rightarrow> timer_op list" where
  "one_round c = [Call (Time_passes (fst c)), Expire, Run_next [] (snd c)]"

lemma timer_run_append:
  "timer_run (xs @ ys) s = (case timer_run xs s of (s1, es) \<Rightarrow> case timer_run ys s1 of (s2, fs) \<Rightarrow> (s2, es @ fs))"
  by (induction xs arbitrary: s) (auto split: prod.splits)

fun fired :: "timer_event \<Rightarrow> bool" where
  "fired (Fired t) = True"
| "fired e = False"

definition calls_made :: "timer_event list \<Rightarrow> nat \<times> nat" where
  "calls_made es = (length (filter fired es), length (filter (\<lambda>e. e = Rethrown) es))"

lemma calls_made_append:
  "calls_made (es @ fs) = (fst (calls_made es) + fst (calls_made fs), snd (calls_made es) + snd (calls_made fs))"
  by (simp add: calls_made_def)

lemma idle_rounds:
  "pending_waits s = [] \<Longrightarrow> items s = [] \<Longrightarrow> snd (timer_run (concat (map one_round cs)) s) = []"
  by (induction cs arbitrary: s) (auto simp: one_round_def split: prod.splits)

lemma rounds_fire:
  assumes "0 < r" and "pending_waits s = [generation s]" and "items s = []" and "has_callback s"
    and "repeat_seconds s = r" and "expiry s = clock s + e" and "e = to_ns r \<or> e = to_ns secs"
    and "\<forall>(d, b) \<in> set cs. to_ns secs \<le> int d \<and> to_ns r \<le> int d"
  shows "calls_made (snd (timer_run (concat (map one_round cs)) s)) = (length cs, length (filter snd cs))"
  using assms
proof (induction cs arbitrary: s e)
  case Nil
  then show ?case by (simp add: calls_made_def)
next
  case (Cons c cs)
  obtain d b where c: "c = (d, b)" by (cases c)
  let ?t = "clock s + int d"
  define s' where "s' = s\<lparr>clock := ?t, generation := generation s + 1, expiry := ?t + to_ns r,
    pending_waits := [generation s + 1], items := []\<rparr>"
  have "timer_run (one_round c) s = (s', [Fired ?t, Armed (?t + to_ns r)] @ (if b then [Rethrown] else []))"
    using Cons.prems by (auto simp: one_round_def c on_wait_def timer_arm_def abort_waits_def Let_def s'_def)
  moreover have "calls_made (snd (timer_run (concat (map one_round cs)) s')) = (length cs, length (filter snd cs))"
    using Cons.prems by (intro Cons.IH [of _ "to_ns r"]) (auto simp: s'_def)
  ultimately show ?case
    by (auto simp: timer_run_append calls_made_append calls_made_def c split: prod.splits)
qed

lemma one_shot_fires:
  assumes "\<not> 0 < r" and "pending_waits s = [generation s]" and "items s = []" and "has_callback s"
    and "repeat_seconds s = r" and "expiry s \<le> clock s + int d"
  shows "calls_made (snd (timer_run (concat (map one_round ((d, b) # cs))) s)) = (1, if b then 1 else 0)"
proof -
  let ?t = "clock s + int d"
  have "timer_run (one_round (d, b)) s = (s\<lparr>clock := ?t, pending_waits := []\<rparr>, [Fired ?t] @ (if b then [Rethrown] else []))"
    using assms by (auto simp: one_round_def on_wait_def Let_def)
  then show ?thesis
    using idle_rounds [of "s\<lparr>clock := ?t, pending_waits := []\<rparr>" cs] assms(3)
    by (auto simp: timer_run_append calls_made_append calls_made_def split: prod.splits)
qed

text \<open>C17: timers. Whatever calls come from whatever threads, also from the callback, and whichever
  completions are queued, every run is one of the abstract timer: the callback runs only for
  the last arming, once for it, not before it is due, and not at all once a stop or a new
  arming has run. (Generations repeat after \<open>2^64\<close> steps.)\<close>

theorem timer_refines:
  assumes "length xs < 2 ^ 64"
  shows "spec_run (snd (timer_run xs timer_initial)) None \<noteq> None"
  using timer_run_ok [OF timer_initial_inv, of xs] assms by (cases "timer_run xs timer_initial") simp

theorem timer_refines_witness:
  "spec_run (snd (timer_run [Call (Post (Do_arm 0)), Run_next [] False, Expire, Call (Post Do_cancel), Call (Post (Do_arm 0)),
       Run_next [Post Do_again] True, Run_next [] False] timer_initial)) None \<noteq> None"
  by (rule timer_refines) simp

text \<open>C24: a started timer fires. After \<^verbatim>\<open>start(secs, r)\<close>, in rounds that each take long enough, the
  callback is called in every round if \<open>r\<close> is positive, in the first one only if not; an
  exception of the callback leaves the handler, but does not end the timer.\<close>

theorem timer_fires:
  assumes "\<forall>(d, b) \<in> set cs. to_ns secs \<le> int d \<and> to_ns r \<le> int d"
  shows "calls_made (snd (timer_run (map Call (Set_callback True # timer_start secs r) @ Run_next [] False # concat (map one_round cs))
      timer_initial)) = (let served = (if 0 < r then cs else take 1 cs) in (length served, length (filter snd served)))"
proof -
  define s where "s = timer_initial\<lparr>has_callback := True, repeat_seconds := r, generation := 1, expiry := to_ns secs,
    pending_waits := [1]\<rparr>"
  have "timer_run (map Call (Set_callback True # timer_start secs r) @ [Run_next [] False]) timer_initial = (s, [Armed (to_ns secs)])"
    by (simp add: timer_start_def timer_initial_def timer_arm_def abort_waits_def Let_def s_def)
  then have "calls_made (snd (timer_run (map Call (Set_callback True # timer_start secs r) @ Run_next [] False # concat (map one_round cs))
      timer_initial)) = calls_made (snd (timer_run (concat (map one_round cs)) s))"
    using timer_run_append [of "map Call (Set_callback True # timer_start secs r) @ [Run_next [] False]" "concat (map one_round cs)" timer_initial]
    by (auto simp: calls_made_def split: prod.splits)
  moreover have "pending_waits s = [generation s]" "items s = []" "has_callback s" "repeat_seconds s = r"
    "expiry s = clock s + to_ns secs"
    by (simp_all add: s_def timer_initial_def)
  moreover from this have "calls_made (snd (timer_run (concat (map one_round cs)) s)) = (length served, length (filter snd served))"
    if "served = (if 0 < r then cs else take 1 cs)" for served
  proof (cases "0 < r")
    case True
    then show ?thesis using rounds_fire [of r s "to_ns secs" secs cs] calculation assms that by simp
  next
    case False
    show ?thesis
    proof (cases cs)
      case Nil
      then show ?thesis using that by (simp add: calls_made_def)
    next
      case (Cons c cs')
      then have "expiry s \<le> clock s + int (fst c)" using calculation(6) assms by auto
      then show ?thesis
        using one_shot_fires [OF False calculation(2-5), of "fst c" "snd c" cs'] Cons False that by simp
    qed
  qed
  ultimately show ?thesis by (simp add: Let_def)
qed

theorem timer_fires_witness:
  "calls_made (snd (timer_run (map Call (Set_callback True # timer_start 0 0) @ Run_next [] False #
      concat (map one_round [(5, True), (7, False)])) timer_initial)) = (1, 1)"
  using timer_fires [of "[(5, True), (7, False)]" 0 0] by (simp add: to_ns_def double_round_def)

section \<open>No signal is lost\<close>

definition outstanding :: "signal_pc \<Rightarrow> nat" where
  "outstanding l = (if l = Posting then 1 else 0)"

text \<open>While no post has failed, the flag says that a run is on its way; and after a send a run is on
  its way, or the loop is about to call, until it has called.\<close>

definition signal_inv :: "signal \<Rightarrow> signal_pc list \<Rightarrow> signal_event list \<Rightarrow> bool" where
  "signal_inv s ls es \<longleftrightarrow> signal_callback s \<and> (Post_failed \<in> set es \<or>
     weight outstanding ls + posted s = (if signal_pending s then 1 else 0)
     \<and> (es = [] \<or> last es = Called \<or> signal_pending s \<or> Calling \<in> set ls)
     \<and> length (filter (\<lambda>e. e = Called) es) + weight (\<lambda>l. if l = Calling then 1 else 0) ls + (if signal_pending s then 1 else 0)
         \<le> length (filter (\<lambda>e. e = Sent) es))"

lemma signal_step_inv:
  assumes inv: "signal_inv s ls es" and i: "i < length ls" and st: "signal_step c s (ls ! i) = (s', l', fs)"
  shows "signal_inv s' (ls[i := l']) (es @ fs)"
proof -
  obtain n where n: "weight outstanding ls = n + outstanding (ls ! i)" "\<And>l. weight outstanding (ls[i := l]) = n + outstanding l"
    using weight_split [OF i] by metis
  let ?w = "\<lambda>l. if l = Calling then 1 else 0 :: nat"
  obtain k where k: "weight ?w ls = k + ?w (ls ! i)" "\<And>l. weight ?w (ls[i := l]) = k + ?w l"
    using weight_split [OF i] by metis
  have call: "Calling \<in> set (ls[i := l])" if "Calling \<in> set ls" "ls ! i \<noteq> Calling" for l
    using that i by (metis in_set_conv_nth length_list_update nth_list_update_neq)
  have new: "l \<in> set (ls[i := l])" for l using i by (simp add: set_update_memI)
  show ?thesis
    using inv st n k call new by (cases "ls ! i") (auto simp: signal_inv_def outstanding_def split: if_splits)
qed

interpretation signals: interleaved_invariant signal_step signal_inv
  by unfold_locales (rule signal_step_inv)

lemma signal_initial_inv: "set ls \<subseteq> {Idle, Loop} \<Longrightarrow> signal_inv (signal_set_callback True signal_initial) ls []"
proof -
  assume "set ls \<subseteq> {Idle, Loop}"
  then have "weight outstanding ls = 0" "weight (\<lambda>l. if l = Calling then 1 else 0) ls = 0"
    by (auto simp: weight_zero_iff outstanding_def)
  then show ?thesis by (simp add: signal_inv_def signal_initial_def signal_set_callback_def)
qed



lemma dead_signal:
  assumes "signal_pending s" and "posted s = 0" and "set ls \<subseteq> {Idle, Loop}"
  shows "Called \<notin> set (snd (snd (run signal_step xs (s, ls))))"
  using assms
proof (induction xs)
  case (Cons x xs)
  obtain i c where x: "x = (i, c)" by (cases x)
  have "\<exists>es. sched_step signal_step x (s, ls) = (s, ls, es) \<and> Called \<notin> set es"
  proof (cases "i < length ls")
    case True
    then have "ls ! i \<in> {Idle, Loop}" using Cons.prems(3) nth_mem by blast
    then show ?thesis using Cons.prems True x by (auto simp: list_update_same_conv)
  qed (simp add: x)
  then show ?case using Cons by (auto split: prod.splits simp del: sched_step.simps)
qed simp


end
