(* ===== verification/Tls.thy ===== *)
theory Tls
  imports Prelude
begin

text \<open>
  \<^verbatim>\<open>configure\<close> and \<^verbatim>\<open>bind_hostname\<close> of \<^verbatim>\<open>src/reactor_tls.h\<close>, as the calls they make on
  OpenSSL and Asio, in order and with their arguments. What the calls answer is an
  argument: \<open>ok\<close> says of a call whose result the code looks at whether it succeeded,
  \<open>throws\<close> which exception a call of Asio throws.

  Shown: which options each role accepts; that a context \<^verbatim>\<open>configure\<close> returns with has
  the protocol floor and the hardening of the comments, a checked key if a certificate, and
  verifies as its role asks, the authorities being those of the options; that a name is
  never bound without one of the checks on it.
\<close>

section \<open>Options and calls\<close>

record options =
  certificate :: string
  private_key :: string
  certificate_authority :: string
  system_roots :: bool
  strict :: bool

datatype role = Peer | Server | Client

datatype ssl_option = Default_workarounds | No_sslv2 | No_sslv3 | No_tlsv1 | No_tlsv1_1 | No_renegotiation | No_ticket

datatype verify = Verify_none | Verify_peer | Verify_fail_if_no_peer_cert

datatype tls_call =
    Set_options "ssl_option list"
  | Set_min_proto_version string
  | Set_max_early_data nat
  | Set_max_cert_list nat
  | Set_cipher_list string
  | Set_num_tickets nat
  | Session_cache_off
  | Use_certificate_chain_file string
  | Use_private_key_file string
  | Check_private_key
  | Load_verify_file string
  | Set_default_verify_paths
  | Set_verify_mode "verify list"

section \<open>configure\<close>

definition incomplete :: "options \<Rightarrow> role \<Rightarrow> bool" where
  "incomplete opts role =
     (let certificate_required = (role \<noteq> Client);
          roots = (system_roots opts \<and> role \<noteq> Peer);
          authority = (certificate_authority opts \<noteq> [] \<or> roots)
      in (role \<noteq> Server \<and> \<not> authority)
         \<or> (certificate_required \<and> (certificate opts = [] \<or> private_key opts = []))
         \<or> ((certificate opts = []) \<noteq> (private_key opts = []))
         \<or> (system_roots opts \<and> role = Peer))"

definition harden_calls :: "options \<Rightarrow> tls_call list" where
  "harden_calls opts =
     [Set_options [Default_workarounds, No_sslv2, No_sslv3, No_tlsv1, No_tlsv1_1],
      Set_min_proto_version ''TLS1_2'', Set_max_early_data 0, Set_options [No_renegotiation], Set_max_cert_list (64 * 1024)]
   @ (if strict opts
      then [Set_cipher_list ''ECDHE+AESGCM:ECDHE+CHACHA20:!aNULL'', Set_options [No_ticket], Set_num_tickets 0, Session_cache_off]
      else [])"

definition certificate_calls :: "options \<Rightarrow> tls_call list" where
  "certificate_calls opts =
     (if certificate opts \<noteq> []
      then [Use_certificate_chain_file (certificate opts), Use_private_key_file (private_key opts), Check_private_key] else [])"

definition trust_calls :: "options \<Rightarrow> role \<Rightarrow> tls_call list" where
  "trust_calls opts role =
     (if certificate_authority opts \<noteq> [] then [Load_verify_file (certificate_authority opts)] else [])
   @ (if system_roots opts \<and> role \<noteq> Peer then [Set_default_verify_paths] else [])
   @ [Set_verify_mode (case role of Peer \<Rightarrow> [Verify_peer, Verify_fail_if_no_peer_cert]
                       | Client \<Rightarrow> [Verify_peer] | Server \<Rightarrow> [Verify_none])]"

definition configure_calls :: "options \<Rightarrow> role \<Rightarrow> tls_call list" where
  "configure_calls opts role = harden_calls opts @ certificate_calls opts @ trust_calls opts role"

text \<open>What a failing call makes the code throw; the results of the other calls of OpenSSL are not
  looked at.\<close>

definition configure_fails :: "(tls_call \<Rightarrow> bool) \<Rightarrow> (tls_call \<Rightarrow> exn option) \<Rightarrow> tls_call \<Rightarrow> exn option" where
  "configure_fails ok throws c =
     (case c of
        Set_min_proto_version v \<Rightarrow> if ok c then None else Some (Runtime_error ''TLS minimum version'')
      | Set_cipher_list l \<Rightarrow> if ok c then None else Some (Runtime_error ''TLS cipher list'')
      | Check_private_key \<Rightarrow> if ok c then None else Some (Invalid_argument ''TLS key mismatch'')
      | Set_max_early_data n \<Rightarrow> None
      | Set_max_cert_list n \<Rightarrow> None
      | Set_num_tickets n \<Rightarrow> None
      | Session_cache_off \<Rightarrow> None
      | Set_options os \<Rightarrow> if Default_workarounds \<in> set os then throws c else None
      | _ \<Rightarrow> throws c)"

definition configure :: "(tls_call \<Rightarrow> bool) \<Rightarrow> (tls_call \<Rightarrow> exn option) \<Rightarrow> options \<Rightarrow> role \<Rightarrow> (exn + unit) \<times> tls_call list" where
  "configure ok throws opts role =
     (if incomplete opts role then (Inl (Invalid_argument ''incomplete TLS configuration''), [])
      else perform_calls (configure_fails ok throws) (configure_calls opts role))"

section \<open>bind\_hostname\<close>

datatype name_call = Set1_ip_asc string | Set_tlsext_host_name string | Set1_host string

text \<open>\<open>is_address\<close> is whether \<^verbatim>\<open>make_address\<close> reads the name as an address, \<open>ok\<close> the answers of
  OpenSSL. The right operand of \<^verbatim>\<open>||\<close> is evaluated only if the first call succeeds.\<close>

definition bind_hostname :: "(string \<Rightarrow> bool) \<Rightarrow> (name_call \<Rightarrow> bool) \<Rightarrow> string \<Rightarrow> (exn + unit) \<times> name_call list" where
  "bind_hostname is_address ok host =
     (if host = [] \<or> CHR 0x00 \<in> set host then (Inl (Invalid_argument ''TLS hostname''), [])
      else if is_address host
      then perform_calls (\<lambda>c. if ok c then None else Some (Invalid_argument ''TLS IP address'')) [Set1_ip_asc host]
      else perform_calls (\<lambda>c. if ok c then None else Some (Invalid_argument ''TLS hostname''))
             [Set_tlsext_host_name host, Set1_host host])"

section \<open>Properties\<close>

text \<open>The options a role needs. \<^verbatim>\<open>configure\<close> refuses, before it has touched the context, exactly
  the options that miss what the role needs: a peer an authority, a certificate and its key, and
  not the system's roots; a server a certificate and its key; a client an authority or the
  system's roots, and a certificate with its key or neither.\<close>

theorem configure_accepts:
  "configure ok throws opts role = (Inl (Invalid_argument ''incomplete TLS configuration''), []) \<longleftrightarrow>
     \<not> (case role of
          Peer \<Rightarrow> certificate opts \<noteq> [] \<and> private_key opts \<noteq> [] \<and> certificate_authority opts \<noteq> [] \<and> \<not> system_roots opts
        | Server \<Rightarrow> certificate opts \<noteq> [] \<and> private_key opts \<noteq> []
        | Client \<Rightarrow> (certificate_authority opts \<noteq> [] \<or> system_roots opts)
            \<and> (certificate opts = [] \<longleftrightarrow> private_key opts = []))"
proof -
  have "perform_calls fails (configure_calls opts role) \<noteq> (r, [])" for fails r
    by (rule perform_calls_some) (simp add: configure_calls_def harden_calls_def)
  then show ?thesis
    by (cases role) (auto simp: configure_def incomplete_def Let_def)
qed

text \<open>C25: what a configured context has. When \<^verbatim>\<open>configure\<close> returns, the floor is TLS 1.2 and was
  accepted, renegotiation, 0-RTT and the older protocols are off, the certificate list is
  capped; with \<^verbatim>\<open>strict\<close> the cipher list was accepted and tickets and the cache are off; a
  certificate has its key, and they were checked after they were loaded; the authorities are
  the file of the options and, never for a peer, the system's; and the last call sets the
  verification: a peer's certificate is required, a server's verified, a client's not asked for.\<close>

theorem configure_hardens:
  assumes "configure ok throws opts role = (Inr (), cs)"
  shows "Set_min_proto_version ''TLS1_2'' \<in> set cs \<and> ok (Set_min_proto_version ''TLS1_2'')
    \<and> (\<forall>o' \<in> {No_sslv2, No_sslv3, No_tlsv1, No_tlsv1_1, No_renegotiation}. \<exists>os. Set_options os \<in> set cs \<and> o' \<in> set os)
    \<and> Set_max_early_data 0 \<in> set cs \<and> Set_max_cert_list 65536 \<in> set cs
    \<and> (strict opts \<longrightarrow> ok (Set_cipher_list ''ECDHE+AESGCM:ECDHE+CHACHA20:!aNULL'')
         \<and> {Set_cipher_list ''ECDHE+AESGCM:ECDHE+CHACHA20:!aNULL'', Set_options [No_ticket], Set_num_tickets 0, Session_cache_off} \<subseteq> set cs)
    \<and> (if certificate opts \<noteq> [] then private_key opts \<noteq> [] \<and> ok Check_private_key
         \<and> (\<exists>as bs. cs = as @ [Use_certificate_chain_file (certificate opts), Use_private_key_file (private_key opts), Check_private_key] @ bs)
       else role = Client)
    \<and> (\<forall>f. Load_verify_file f \<in> set cs \<longleftrightarrow> f \<noteq> [] \<and> f = certificate_authority opts)
    \<and> (Set_default_verify_paths \<in> set cs \<longleftrightarrow> system_roots opts) \<and> \<not> (system_roots opts \<and> role = Peer)
    \<and> last cs = Set_verify_mode (case role of Peer \<Rightarrow> [Verify_peer, Verify_fail_if_no_peer_cert]
        | Client \<Rightarrow> [Verify_peer] | Server \<Rightarrow> [Verify_none])"
proof -
  have ok: "\<not> incomplete opts role" and cs: "cs = configure_calls opts role"
    and none: "\<forall>c \<in> set cs. configure_fails ok throws c = None"
    using assms by (auto simp: configure_def perform_calls_ok split: if_splits)
  note mem = cs configure_calls_def harden_calls_def certificate_calls_def trust_calls_def
  have called: "ok c" if "c \<in> set cs" "configure_fails (\<lambda>_. False) (\<lambda>_. None) c \<noteq> None" for c
    using bspec [OF none that(1)] that(2) by (cases c) (auto simp: configure_fails_def split: if_splits)
  have floor: "Set_min_proto_version ''TLS1_2'' \<in> set cs" "Set_max_early_data 0 \<in> set cs" "Set_max_cert_list 65536 \<in> set cs"
    and opts: "Set_options [Default_workarounds, No_sslv2, No_sslv3, No_tlsv1, No_tlsv1_1] \<in> set cs" "Set_options [No_renegotiation] \<in> set cs"
    by (simp_all add: mem)
  have hard: "{Set_cipher_list ''ECDHE+AESGCM:ECDHE+CHACHA20:!aNULL'', Set_options [No_ticket], Set_num_tickets 0, Session_cache_off} \<subseteq> set cs"
    if "strict opts" using that by (simp add: mem)
  have cert: "\<exists>as bs. cs = as @ [Use_certificate_chain_file (certificate opts), Use_private_key_file (private_key opts), Check_private_key] @ bs"
    if "certificate opts \<noteq> []"
    using that unfolding cs configure_calls_def certificate_calls_def
    by (intro exI [of _ "harden_calls opts"] exI [of _ "trust_calls opts role"]) simp
  have key: "private_key opts \<noteq> [] \<and> Check_private_key \<in> set cs" if "certificate opts \<noteq> []"
    using that ok by (auto simp: mem incomplete_def Let_def)
  have no_cert: "role = Client" if "certificate opts = []"
    using that ok by (auto simp: incomplete_def Let_def)
  have load: "Load_verify_file f \<in> set cs \<longleftrightarrow> f \<noteq> [] \<and> f = certificate_authority opts" for f
    by (auto simp: mem)
  have peer: "\<not> (system_roots opts \<and> role = Peer)" using ok by (simp add: incomplete_def Let_def)
  then have roots: "Set_default_verify_paths \<in> set cs \<longleftrightarrow> system_roots opts" by (auto simp: mem)
  have mode: "last cs = Set_verify_mode (case role of Peer \<Rightarrow> [Verify_peer, Verify_fail_if_no_peer_cert]
        | Client \<Rightarrow> [Verify_peer] | Server \<Rightarrow> [Verify_none])" by (simp add: mem)
  have checked: "ok (Set_min_proto_version ''TLS1_2'')" using called [OF floor(1)] by (simp add: configure_fails_def)
  have ciphers: "ok (Set_cipher_list ''ECDHE+AESGCM:ECDHE+CHACHA20:!aNULL'')" if "strict opts"
    using called [of "Set_cipher_list ''ECDHE+AESGCM:ECDHE+CHACHA20:!aNULL''"] hard [OF that] by (simp add: configure_fails_def)
  have key_ok: "ok Check_private_key" if "certificate opts \<noteq> []"
    using called [of Check_private_key] key [OF that] by (simp add: configure_fails_def)
  have off: "\<forall>o' \<in> {No_sslv2, No_sslv3, No_tlsv1, No_tlsv1_1, No_renegotiation}. \<exists>os. Set_options os \<in> set cs \<and> o' \<in> set os"
  proof -
    have "\<exists>os. Set_options os \<in> set cs \<and> o' \<in> set os" if "o' \<in> {No_sslv2, No_sslv3, No_tlsv1, No_tlsv1_1}" for o'
      using that by (intro exI [of _ "[Default_workarounds, No_sslv2, No_sslv3, No_tlsv1, No_tlsv1_1]"] conjI opts(1)) auto
    moreover have "\<exists>os. Set_options os \<in> set cs \<and> No_renegotiation \<in> set os"
      by (intro exI [of _ "[No_renegotiation]"] conjI opts(2)) simp
    ultimately show ?thesis by blast
  qed
  have cert_key: "if certificate opts \<noteq> [] then private_key opts \<noteq> [] \<and> ok Check_private_key
         \<and> (\<exists>as bs. cs = as @ [Use_certificate_chain_file (certificate opts), Use_private_key_file (private_key opts), Check_private_key] @ bs)
       else role = Client"
    using key key_ok cert no_cert by simp
  show ?thesis
    by (intro conjI floor off checked impI ciphers hard cert_key mode allI load roots peer)
qed

theorem configure_hardens_witness:
  "last (snd (configure (\<lambda>_. True) (\<lambda>_. None)
       \<lparr>certificate = ''c'', private_key = ''k'', certificate_authority = ''a'', system_roots = False, strict = True\<rparr> Peer))
     = Set_verify_mode [Verify_peer, Verify_fail_if_no_peer_cert]"
proof -
  let ?o = "\<lparr>certificate = ''c'', private_key = ''k'', certificate_authority = ''a'', system_roots = False, strict = True\<rparr>"
  have "configure (\<lambda>_. True) (\<lambda>_. None) ?o Peer = (Inr (), configure_calls ?o Peer)"
    by (simp add: configure_def incomplete_def configure_calls_def harden_calls_def certificate_calls_def trust_calls_def
        configure_fails_def)
  then show ?thesis using configure_hardens by fastforce
qed

text \<open>A name is bound exactly when it is not empty, has no NUL, and the checks on it were accepted:
  for an address the one on the address, otherwise SNI and the one on the host name.\<close>

lemma bind_hostname_checks:
  "bind_hostname is_address ok host = (Inr (), cs) \<longleftrightarrow>
     host \<noteq> [] \<and> CHR 0x00 \<notin> set host \<and> list_all ok cs
     \<and> cs = (if is_address host then [Set1_ip_asc host] else [Set_tlsext_host_name host, Set1_host host])"
  by (auto simp: bind_hostname_def)

lemma bind_hostname_refuses:
  "fst (bind_hostname is_address ok host) = Inl x \<Longrightarrow>
     x = Invalid_argument ''TLS hostname'' \<or> x = Invalid_argument ''TLS IP address'' \<and> is_address host"
  by (auto simp: bind_hostname_def split: if_splits)

end
