(* ===== verification/Echo_Server.thy ===== *)
theory Echo_Server
  imports Tcp_Server "HOL-Library.Sublist"
begin

text \<open>
  The example \<^verbatim>\<open>src/examples/echo_server.cc\<close>: its session, which writes back what it reads, and
  its \<^verbatim>\<open>main\<close>, which reads the port, starts the server of theory \<open>Tcp_Server\<close>, then blocks
  the signals it waits for, and stops the server after one. What the peer sends is a list of bytes; how much of it a read gets,
  whether a read or a write fails, is an argument. Of POSIX: a thread starts with the signal mask
  of the thread that creates it, and a signal to the process goes to a thread that does not
  block it.

  Shown: what the session writes is what it read, all of it if nothing fails; decimal ports are
  read as they are printed, modulo \<open>2^16\<close>; and the reactor threads, which run before the signals
  are blocked, leave them to their default action.
\<close>

section \<open>The session\<close>

text \<open>One turn of the loop: the read fails (also when \<^verbatim>\<open>context.stop\<close> is requested), or gets up to
  \<open>1 + k\<close> bytes, of which the write then writes all, or fails after \<open>w\<close>.\<close>

datatype turn_outcome = Read_fails | Read_gets nat "nat option"

definition read_some :: "nat \<Rightarrow> nat list \<Rightarrow> nat list" where
  "read_some k inp = take (min (1 + k) 4096) inp"

text \<open>Whether the loop was left, and the bytes written.\<close>

fun echo_loop :: "nat list \<Rightarrow> turn_outcome list \<Rightarrow> bool \<times> nat list" where
  "echo_loop inp [] = (False, [])"
| "echo_loop inp (Read_fails # ts) = (True, [])"
| "echo_loop inp (Read_gets k w # ts) =
     (let buf = read_some k inp; n = length buf in
      if n = 0 then (True, [])
      else case w of
             Some written \<Rightarrow> (True, take written buf)
           | None \<Rightarrow> (case echo_loop (drop n inp) ts of (left, out) \<Rightarrow> (left, buf @ out)))"

text \<open>The session: after its loop it shuts the connection down for sending, and returns.\<close>

definition echo :: "nat list \<Rightarrow> turn_outcome list \<Rightarrow> nat list \<times> bool" where
  "echo inp ts = (case echo_loop inp ts of (left, out) \<Rightarrow> (out, left))"

section \<open>The port\<close>

text \<open>\<^verbatim>\<open>std::atoi\<close>: white space, a sign, digits up to the first other character.\<close>

definition digit :: "char \<Rightarrow> bool" where
  "digit c \<longleftrightarrow> of_char c \<in> {48..57 :: nat}"

definition digit_value :: "char \<Rightarrow> nat" where
  "digit_value c = of_char c - 48"

fun digits_value :: "nat \<Rightarrow> string \<Rightarrow> nat" where
  "digits_value v [] = v"
| "digits_value v (c # cs) = (if digit c then digits_value (10 * v + digit_value c) cs else v)"

definition space :: "char \<Rightarrow> bool" where
  "space c \<longleftrightarrow> of_char c \<in> {9, 10, 11, 12, 13, 32 :: nat}"

definition atoi :: "string \<Rightarrow> int" where
  "atoi s =
     (case dropWhile space s of
        [] \<Rightarrow> 0
      | c # cs \<Rightarrow> if c = CHR ''-'' then - int (digits_value 0 cs)
                  else if c = CHR ''+'' then int (digits_value 0 cs)
                  else int (digits_value 0 (c # cs)))"

definition echo_port :: "string list \<Rightarrow> 16 word" where
  "echo_port argv = (if length argv > 1 then of_int (atoi (argv ! 1)) else 9000)"

section \<open>main\<close>

datatype signal_no = SIGINT | SIGTERM | Other_signal nat

text \<open>A process: the signal masks of its threads, of \<^verbatim>\<open>main\<close> first.\<close>

definition create_threads :: "nat \<Rightarrow> signal_no set list \<Rightarrow> signal_no set list" where
  "create_threads n masks = masks @ replicate n (hd masks)"

definition block_signals :: "signal_no set \<Rightarrow> signal_no set list \<Rightarrow> signal_no set list" where
  "block_signals sigs masks = (hd masks \<union> sigs) # tl masks"

text \<open>The threads a signal can be delivered to: its default action then ends the process.\<close>

definition takers :: "signal_no \<Rightarrow> signal_no set list \<Rightarrow> nat list" where
  "takers sig masks = filter (\<lambda>i. sig \<notin> masks ! i) [0..<length masks]"

text \<open>\<^verbatim>\<open>main\<close> up to \<^verbatim>\<open>sigwait\<close>: the server, and the masks; no masks if \<^verbatim>\<open>start\<close> throws.\<close>

definition echo_main :: "platform \<Rightarrow> start_env \<Rightarrow> string list \<Rightarrow> (tcp_server \<times> signal_no set list) option" where
  "echo_main p env argv =
     (case start p env [] [] (unat (echo_port argv)) (TcpServer 4 0) of
        Some (Inr _, s) \<Rightarrow> Some (s, block_signals {SIGINT, SIGTERM} (create_threads (length (threads s)) [{}]))
      | _ \<Rightarrow> None)"

text \<open>The rest of \<^verbatim>\<open>main\<close>: \<^verbatim>\<open>sigwait\<close> returns when one of its signals is pending for a thread that blocks it
  or for the process, \<^verbatim>\<open>stop()\<close> runs, and on the return of 0 the server is destroyed. \<open>None\<close> while it waits.\<close>

definition echo_finish ::
    "platform \<Rightarrow> signal_no option \<Rightarrow> int option list \<Rightarrow> int option list \<Rightarrow> tcp_server \<Rightarrow> (int \<times> tcp_server) option" where
  "echo_finish p sig ends ends' s =
     (if sig \<in> {Some SIGINT, Some SIGTERM}
      then Option.bind (stop p ends ends' s) (\<lambda>s1. map_option (\<lambda>s2. (0, s2)) (destruct_server p [] [] s1))
      else None)"

section \<open>Proofs\<close>

lemma read_some_rest: "read_some k inp @ drop (length (read_some k inp)) inp = inp"
  by (cases "min (1 + k) 4096 \<le> length inp") (simp_all add: read_some_def)

lemma read_some_empty [simp]: "read_some k inp = [] \<longleftrightarrow> inp = []"
  by (auto simp: read_some_def)

lemma echo_loop_prefix: "prefix (snd (echo_loop inp ts)) inp"
proof (induction inp ts rule: echo_loop.induct)
  case (3 inp k w ts)
  let ?buf = "read_some k inp"
  note whole = read_some_rest [of k inp]
  have "prefix (take m ?buf) inp" for m
    using whole take_is_prefix [of m ?buf] by (metis prefix_prefix)
  moreover have "prefix (?buf @ snd (echo_loop (drop (length ?buf) inp) ts)) inp" if "inp \<noteq> []" "w = None"
  proof -
    have "prefix (snd (echo_loop (drop (length ?buf) inp) ts)) (drop (length ?buf) inp)" using 3 that by simp
    then have "prefix (?buf @ snd (echo_loop (drop (length ?buf) inp) ts)) (?buf @ drop (length ?buf) inp)"
      by (simp only: same_prefix_prefix)
    then show ?thesis by (simp only: whole)
  qed
  ultimately show ?case by (auto simp: Let_def split: option.splits prod.splits)
qed simp_all

lemma echo_loop_all:
  "\<forall>t \<in> set ts. \<exists>k. t = Read_gets k None \<Longrightarrow> length inp < length ts \<Longrightarrow> echo_loop inp ts = (True, inp)"
proof (induction inp ts rule: echo_loop.induct)
  case (3 inp k w ts)
  let ?n = "length (read_some k inp)"
  have w: "w = None" using "3.prems" by simp
  show ?case
  proof (cases "inp = []")
    case False
    then have n: "0 < ?n" by simp
    have "length (drop ?n inp) < length inp" using n False by simp
    then have "length (drop ?n inp) < length ts" "\<forall>t \<in> set ts. \<exists>k. t = Read_gets k None"
      using "3.prems" by auto
    then have "echo_loop (drop ?n inp) ts = (True, drop ?n inp)"
      using "3.IH" [OF refl refl _ w] n by simp
    then show ?thesis
      using n w read_some_rest [of k inp] by (simp add: Let_def)
  qed (simp add: Let_def)
qed simp_all

text \<open>Decimal notation, as \<^verbatim>\<open>printf\<close> writes it.\<close>

fun decimal :: "nat \<Rightarrow> string" where
  "decimal n = (if n < 10 then [char_of (48 + n)] else decimal (n div 10) @ [char_of (48 + n mod 10)])"

declare decimal.simps [simp del]

lemma digit_char [simp]: "d < 10 \<Longrightarrow> digit (char_of (48 + d))" "d < 10 \<Longrightarrow> digit_value (char_of (48 + d)) = d"
  by (simp_all add: digit_def digit_value_def)

lemma decimal_digits: "list_all digit (decimal n)"
  by (induction n rule: decimal.induct) (subst decimal.simps, simp)

lemma digits_value_append: "list_all digit xs \<Longrightarrow> digits_value v (xs @ ys) = digits_value (digits_value v xs) ys"
  by (induction xs arbitrary: v) simp_all

lemma decimal_value: "digits_value 0 (decimal n) = n"
proof (induction n rule: decimal.induct)
  case (1 n)
  then show ?case
    by (subst decimal.simps) (simp add: digits_value_append decimal_digits)
qed

lemma atoi_decimal: "atoi (decimal n) = int n"
proof -
  obtain c cs where d: "decimal n = c # cs"
    by (cases "decimal n") (use decimal.simps [of n] in \<open>auto split: if_splits\<close>)
  then have "digit c" using decimal_digits [of n] by simp
  then have "\<not> space c" "c \<noteq> CHR ''-''" "c \<noteq> CHR ''+''" by (auto simp: digit_def space_def)
  then show ?thesis using d decimal_value [of n] by (simp add: atoi_def)
qed

text \<open>C33: the echo is what was read. However the input is cut into reads, what the session writes is a
  prefix of what the peer sent; and if no read and no write fails, it writes all of it, and then
  shuts the connection down.\<close>

theorem echo_roundtrip:
  "prefix (fst (echo inp ts)) inp
     \<and> (list_all (\<lambda>t. \<exists>k. t = Read_gets k None) ts \<and> length inp < length ts \<longrightarrow> echo inp ts = (inp, True))"
  using echo_loop_prefix [of inp ts] echo_loop_all [of ts inp]
  by (auto simp: echo_def list_all_iff split: prod.splits)

theorem echo_roundtrip_witness: "echo [104, 105, 10] (replicate 4 (Read_gets 1 None)) = ([104, 105, 10], True)"
  using echo_roundtrip [of "[104, 105, 10]" "replicate 4 (Read_gets 1 None)"] by (simp add: list_all_iff)

text \<open>The port argument. A port in decimal notation is read back as itself, modulo \<open>2^16\<close>, whatever
  follows it.\<close>

theorem port_roundtrip: "unat (echo_port (prog # decimal n # args)) = n mod 2 ^ 16"
  by (simp add: echo_port_def atoi_decimal unat_of_nat take_bit_eq_mod)

text \<open>C39: signals of the echo server. Once its server has started, \<^verbatim>\<open>SIGINT\<close> and \<^verbatim>\<open>SIGTERM\<close> can be
  delivered to exactly the threads of the reactors, which started before \<^verbatim>\<open>main\<close> blocked the
  signals, and so with their default action; \<^verbatim>\<open>sigwait\<close> and the \<^verbatim>\<open>stop()\<close> after it need not
  happen.\<close>

theorem echo_signals_unblocked:
  assumes "echo_main p env argv = Some (s, masks)" and "sig \<in> {SIGINT, SIGTERM}"
  shows "takers sig masks = [1..<5]"
proof -
  obtain u where st: "start p env [] [] (unat (echo_port argv)) (TcpServer 4 0) = Some (Inr u, s)"
    and m: "masks = block_signals {SIGINT, SIGTERM} (create_threads (length (threads s)) [{}])"
    using assms(1) by (auto simp: echo_main_def split: option.splits sum.splits prod.splits)
  obtain r s' where r: "start p env [] [] (unat (echo_port argv)) (TcpServer 4 0) = Some (r, s')" "tcp_inv s'"
    "n_reactors s' = 4" "started s'" "case r of Inr _ \<Rightarrow> \<not> stopped s' | Inl _ \<Rightarrow> stopped s'"
    using start_inv [OF TcpServer_inv, of p env "[]" "[]" "unat (echo_port argv)" 4 0]
    by (auto simp: TcpServer_def Let_def)
  then have "threads s = [0..<4]" using st by (auto simp: tcp_inv_def serving_def)
  then have "masks = [{SIGINT, SIGTERM}, {}, {}, {}, {}]"
    by (simp add: m block_signals_def create_threads_def numeral_eq_Suc)
  then show ?thesis using assms(2) by (auto simp: takers_def upt_rec)
qed

theorem echo_signals_unblocked_witness:
  "\<exists>s masks. echo_main linux all_well [''echo''] = Some (s, masks) \<and> takers SIGINT masks = [1..<5]"
proof -
  have four: "[0..<4] = [0, 1, 2, 3]" "replicate 4 x = [x, x, x, x]" for x :: 'a
    by (simp_all add: upt_rec numeral_eq_Suc)
  have "unat (echo_port [''echo'']) = 9000" by (simp add: echo_port_def)
  then have "\<exists>s masks. echo_main linux all_well [''echo''] = Some (s, masks)"
    by (simp add: echo_main_def tcp_eval four)
  then show ?thesis using echo_signals_unblocked by blast
qed

text \<open>If the signal does reach \<^verbatim>\<open>sigwait\<close>, \<^verbatim>\<open>main\<close> returns 0 with every thread joined and every loop
  released, whatever the accept loops did meanwhile and whenever the sessions end.\<close>

theorem echo_finishes:
  assumes "echo_main p env argv = Some (s, masks)" and "tcp_calls p xs s = Some s1" and "sig \<in> {SIGINT, SIGTERM}"
  shows "\<exists>s2. echo_finish p (Some sig) ends ends' s1 = Some (0, s2) \<and> threads s2 = []
    \<and> claims s2 = replicate (n_reactors s2) 0"
proof -
  obtain u where "start p env [] [] (unat (echo_port argv)) (TcpServer 4 0) = Some (Inr u, s)"
    using assms(1) by (auto simp: echo_main_def split: option.splits sum.splits prod.splits)
  then have "tcp_inv s" using start_inv [OF TcpServer_inv, of p env "[]" "[]" "unat (echo_port argv)" 4 0] by auto
  then have "tcp_inv s1" using tcp_calls_ok [of s p xs] assms(2) by auto
  then obtain s' where s': "stop p ends ends' s1 = Some s'" "tcp_inv s'" using stop_inv [of s1 p ends ends'] by blast
  obtain s2 where "destruct_server p [] [] s' = Some s2" "threads s2 = []" "claims s2 = replicate (n_reactors s2) 0"
    using destruct_server_ok [OF s'(2), of p "[]" "[]"] by blast
  then show ?thesis using s'(1) assms(3) by (auto simp: echo_finish_def)
qed

end
