(* ===== verification/Spec2Isabelle.thy ===== *)
theory Spec2Isabelle
  imports Prelude Connection_Admission Admission_Gate Abort_List Loop_Sync Reactor_Core Lag Session Accept Serving Shutdown
    Tcp_Server Udp_Server Events Tls Reactor_Layout Echo_Server
begin

text \<open>
  A verification development for \<^emph>\<open>reactor\<close>, a header-only C++20 library for servers: N event
  loops, each with one thread, that accept TCP connections and run a coroutine per connection,
  or receive UDP datagrams, and that stop in bounded time. The sources are the headers under
  \<^verbatim>\<open>src/\<close>.

  \<^bold>\<open>The program and its parts.\<close>
  A \<^verbatim>\<open>TcpServer\<close> owns the reactors. A \<^verbatim>\<open>Reactor\<close> is an \<^verbatim>\<open>io_context\<close> with what belongs to its
  loop: an admission gate, the list of objects to release at shutdown, the count of its
  sessions, a lag probe, a task scheduler. \<^verbatim>\<open>start\<close> launches the threads and the accept loops;
  an accept loop takes a lease of the server's connection bound, gives the connection a ticket
  (its place in the session count of its reactor, with the lease) and launches its session. At
  \<^verbatim>\<open>stop\<close> every tracked object is asked to stop, on its loop, through \<^verbatim>\<open>on_loop_sync\<close>; the accept
  loops end; sessions get a grace, are forced and get it once more; the loops stop and the
  threads are joined. \<^verbatim>\<open>UdpServer\<close> is one reactor with a socket and a receive loop.
  \<^verbatim>\<open>PeriodicTimer\<close> and \<^verbatim>\<open>Signal\<close> run callbacks on a loop; \<^verbatim>\<open>tls::configure\<close> sets up contexts.

  \<^bold>\<open>The theories, and the code each models.\<close>

  \<^item> \<open>Prelude\<close>: machine integers, error codes and exceptions, sequences of calls that may fail,
    threads interleaved at their atomic operations, with the rule that carries an invariant
    along every interleaving (locale \<open>interleaved_invariant\<close>) and the one that turns a
    decreasing distance into a bound on steps (\<open>solo_progress\<close>).
  \<^item> \<open>Admission_Contract\<close>, \<open>Leases\<close>: what an admission promises of the sequence of its decisions,
    and the balance between counters and the move-only objects that refund them (locale
    \<open>refundable\<close>, interpreted for connection leases, gate leases and session seats).
  \<^item> \<open>Connection_Admission\<close>: \<^verbatim>\<open>connection_admission.h\<close>. \<open>ca_step\<close> is \<^verbatim>\<open>try_enter\<close> and \<^verbatim>\<open>Lease::reset\<close>
    at their atomic operations, \<open>try_enter\<close> the same for a single thread, \<open>ca_op\<close> the lease
    objects with their moves. Shown: linearizable to a bounded counter, exact statistics,
    leases refunded once, a lone caller returns.
  \<^item> \<open>Admission_Gate\<close>: \<^verbatim>\<open>AdmissionGate\<close> of \<^verbatim>\<open>reactor.h\<close>, in the same way, with its signed 32-bit
    counter. Shown: never over the limit, when it refuses, leases refunded once.
  \<^item> \<open>Abort_List\<close>: \<^verbatim>\<open>Abortable\<close> and \<^verbatim>\<open>AbortList\<close> over an explicit store of hooks, with walks
    whose callbacks change the list (locale \<open>walk_callback\<close>). A walk that may not end is a
    partial function. Shown: the pointers represent the tracked objects; a walk returns and
    visits what it should; what goes wrong when walks nest.
  \<^item> \<open>Loop_Sync\<close>: \<^verbatim>\<open>claim_loop\<close>, \<^verbatim>\<open>release_loop\<close>, \<^verbatim>\<open>on_loop_sync\<close> as a step relation of any number
    of callers and the loop's thread. Shown: the function runs once, the caller returns;
    an exception on a loop that survives it leaves the caller waiting.
  \<^item> \<open>Reactor_Core\<close>: tracking, \<^verbatim>\<open>abort_all\<close>, \<^verbatim>\<open>force_all\<close> and the session count, with any
    overrides of \<^verbatim>\<open>abort()\<close> and \<^verbatim>\<open>force()\<close> that keep the contract of locale \<open>overrides\<close>.
    Shown: shutdown reaches everything tracked, before or after it began.
  \<^item> \<open>Reactor_Layout\<close>: the member order of \<^verbatim>\<open>Reactor\<close> and the assertions on it.
  \<^item> \<open>Session\<close>: \<^verbatim>\<open>SessionTicket\<close>, \<^verbatim>\<open>SessionControl\<close>, \<^verbatim>\<open>run_session\<close>, \<^verbatim>\<open>launch_session\<close>,
    \<^verbatim>\<open>shutdown_connection\<close>; the reactor record extended by the controls. Shown: every ticket is
    counted and refunded once; shutdown reaches every session, late ones included.
  \<^item> \<open>Accept\<close>: the error classes, \<^verbatim>\<open>AcceptControl\<close>, and \<^verbatim>\<open>accept_loop\<close> and \<^verbatim>\<open>shared_accept_loop\<close>
    as one state machine over a list of target reactors. Shown: a stop ends a loop at its next
    completion, pauses after errors, turns of the shared loop, what startup learns.
  \<^item> \<open>Serving\<close>: an accept loop with the tickets of its sessions. Shown: the two keep the same
    books, so the counts \<^verbatim>\<open>stop\<close> waits on are those of the sessions launched and not over.
  \<^item> \<open>Shutdown\<close>: \<^verbatim>\<open>TcpServer::stop\<close> as steps between its waits, over any number of reactors with
    their sessions (\<open>Session\<close>), the launches on their way to them and the accept loops that make
    them (\<open>Accept\<close>). Shown: the counts \<^verbatim>\<open>stop\<close> waits on are exact; it leaves no session, or none
    that has not been asked to stop and whose connection has not been shut down; it gets past
    its waits.
  \<^item> \<open>Tcp_Server\<close>: \<^verbatim>\<open>TcpServer\<close>, with every place \<^verbatim>\<open>start\<close> can fail at, the order of its public calls
    and its destructor, and its accept loops and lag probes between the calls. Shown: no order of
    calls blocks, loops are claimed exactly while their threads run, a start that returns serves on
    one port and one that throws leaves nothing, the connection bound holds over all loops, \<^verbatim>\<open>stop\<close>
    waits at most twice the grace, the probes run from \<^verbatim>\<open>start\<close> to \<^verbatim>\<open>stop\<close>.
  \<^item> \<open>Udp_Server\<close>: \<^verbatim>\<open>reactor_udp.h\<close>. \<open>Events\<close>: \<^verbatim>\<open>reactor_events.h\<close>. \<open>Lag\<close>: \<^verbatim>\<open>reactor_lag.h\<close>, with
    the rounding of its doubles. \<open>Tls\<close>: \<^verbatim>\<open>reactor_tls.h\<close>. \<open>Echo_Server\<close>: the example.

  \<^bold>\<open>How state and effects are modelled.\<close>
  Objects are records and operations functions on them; \<^verbatim>\<open>size_t\<close>, \<^verbatim>\<open>uint64_t\<close> and \<^verbatim>\<open>int\<close> are
  words of their width. Exceptions are values of \<open>exn\<close>. Concurrent code is cut at its atomic
  operations and critical sections and run under every schedule; memory is sequentially
  consistent. A completion, an answer of the kernel or of OpenSSL, a clock reading or a failing
  allocation is an argument of the step that meets it, so the theorems hold for all of them. Calls
  of overridable or user-supplied functions are arguments or scripts. A call that would block
  for ever, or break an assertion, is \<open>None\<close>, and the theorems show that it is not reached.

  \<^bold>\<open>Bounds.\<close>
  The hypotheses \<open>< 2^64\<close> (tickets, timer generations, identifiers of \<^verbatim>\<open>on_loop_sync\<close>) and
  \<open>< 2^31\<close> threads (the gate) say that a counter of the source has not wrapped; nothing else is
  bounded. No definition uses fuel: recursion is structural, or on a measure (the halving of
  buffer sizes, at most 46 steps), or, for the walk of a list that its callbacks change, a
  partial function that is shown to return.

  \<^bold>\<open>Relied on.\<close>
  Of Asio: handlers of one loop run one at a time and in the order posted; cancelling a timer
  completes its pending waits with an error and leaves queued completions alone; opening an open
  socket fails. Of the kernel: a listener bound to a port has that port (\<open>honours_ports\<close>); a
  datagram is cut to the buffer; a thread inherits the signal mask of its creator. These are in
  the step functions, or hypotheses of the theorems that need them.

  \<^bold>\<open>Not modelled.\<close>
  The \<^verbatim>\<open>task\<close> library (coroutine frames, schedulers) and Asio itself are not part of the sources:
  what is spawned or posted is represented by its effect. Memory orders weaker than sequential
  consistency, real time other than as numbers, and the contents of sockets other than what the
  loops look at. \<^verbatim>\<open>reactor_trace.h\<close> is a macro that expands to nothing: no state, no control flow.
  Accessors that only return a member, the deleted copy operations, and \<^verbatim>\<open>SessionContext\<close>, which
  carries a time stamp and the token to the caller's session, have no definition. The tests and
  the benchmark are programs over the library.
\<close>

end
